(* ===== verification/Prelude.thy ===== *)
theory Prelude
  imports Main "HOL-Library.Word" "HOL-Library.Monad_Syntax" "HOL-Library.Char_ord"
    "HOL-Library.List_Lexorder" "HOL-Library.Product_Lexorder" "HOL-Library.Multiset"
begin

text \<open>
  Shared vocabulary of the development: machine words, reads from an open image
  file, the growable C array every list of the program is built on, a state
  threading combinator for code that returns early but keeps its side effects,
  and the calculus of invariants over it.

  C values are kept at their width (\<open>u8\<close> .. \<open>u64\<close> are words, so additions and
  subtractions wrap as in C); buffers are lists of bytes; text is a list of
  characters without its terminating NUL.
\<close>

unbundle bit_operations_syntax

type_synonym byte = "8 word"
type_synonym u16 = "16 word"
type_synonym u32 = "32 word"
type_synonym u64 = "64 word"

named_theorems keeps_intros "rules that an operation keeps an invariant of the state"

section \<open>Reading an open file\<close>

text \<open>
  \<open>fread (buf, 1, n, f) == n\<close> at position \<open>pos\<close>: the bytes, or None for a short
  read. \<open>crimp_fs_seek64\<close> is \<open>fseeko\<close> with the offset cast to a signed 64-bit
  \<open>off_t\<close>, so an offset of 2^63 or more is negative there and refused.
\<close>

definition file_read :: "byte list \<Rightarrow> nat \<Rightarrow> nat \<Rightarrow> byte list option" where
  "file_read f pos n =
     (if n = 0 then Some [] else if pos + n \<le> length f then Some (take n (drop pos f)) else None)"

lemma file_read_length: "file_read f pos n = Some bs \<Longrightarrow> length bs = n"
  by (auto simp: file_read_def split: if_splits)

lemma file_read_bound: "file_read f pos n = Some bs \<Longrightarrow> 0 < n \<Longrightarrow> pos + n \<le> length f"
  by (auto simp: file_read_def split: if_splits)

lemma file_read_app:
  "0 < m \<Longrightarrow> 0 < n \<Longrightarrow> file_read f pos (m + n) =
     do { xs \<leftarrow> file_read f pos m; ys \<leftarrow> file_read f (pos + m) n; Some (xs @ ys) }"
  by (auto simp: file_read_def take_add add.assoc drop_drop add.commute)

section \<open>Bytes and characters\<close>

definition chr_of_byte :: "byte \<Rightarrow> char" where
  "chr_of_byte b = char_of (unat b)"

definition byte_of_chr :: "char \<Rightarrow> byte" where
  "byte_of_chr c = of_nat (of_char c)"

definition text_of :: "byte list \<Rightarrow> string" where
  "text_of bs = map chr_of_byte bs"

lemma length_text_of [simp]: "length (text_of bs) = length bs"
  by (simp add: text_of_def)

lemma unat_byte_less: "unat (b :: byte) < 256"
  using unsigned_less [of b, where ?'a = nat] by simp

lemma byte_chr_inverse [simp]: "byte_of_chr (chr_of_byte b) = b"
  using unat_byte_less [of b] by (simp add: byte_of_chr_def chr_of_byte_def)

lemma chr_byte_inverse [simp]: "chr_of_byte (byte_of_chr c) = c"
  by (simp add: byte_of_chr_def chr_of_byte_def unat_of_nat)

lemma chr_of_byte_inject [simp]: "chr_of_byte a = chr_of_byte b \<longleftrightarrow> a = b"
  by (metis byte_chr_inverse)

text \<open>The C string held in a buffer stops at its first NUL.\<close>

definition c_string :: "string \<Rightarrow> string" where
  "c_string s = takeWhile (\<lambda>c. c \<noteq> CHR 0x00) s"

lemma c_string_id: "CHR 0x00 \<notin> set s \<Longrightarrow> c_string s = s"
  by (auto simp: c_string_def takeWhile_eq_all_conv)

lemma c_string_no_nul: "CHR 0x00 \<notin> set (c_string s)"
  by (auto simp: c_string_def dest: set_takeWhileD)

text \<open>
  \<open>snprintf (buf, cap, ...)\<close> of a text \<open>s\<close>: what the buffer holds afterwards, cut
  to \<open>cap - 1\<close> characters.
\<close>

definition snprintf_cut :: "nat \<Rightarrow> string \<Rightarrow> string" where
  "snprintf_cut cap s = take (cap - 1) s"

text \<open>ASCII-only lower case, as the code writes it: \<open>c >= 'A' && c <= 'Z'\<close>.\<close>

definition ascii_lower :: "char \<Rightarrow> char" where
  "ascii_lower c = (if CHR ''A'' \<le> c \<and> c \<le> CHR ''Z'' then char_of (of_char c + 32 :: nat) else c)"

definition is_digit_c :: "char \<Rightarrow> bool" where
  "is_digit_c c \<longleftrightarrow> CHR ''0'' \<le> c \<and> c \<le> CHR ''9''"

definition is_alpha_c :: "char \<Rightarrow> bool" where
  "is_alpha_c c \<longleftrightarrow> (CHR ''A'' \<le> c \<and> c \<le> CHR ''Z'') \<or> (CHR ''a'' \<le> c \<and> c \<le> CHR ''z'')"

definition is_print_c :: "char \<Rightarrow> bool" where
  "is_print_c c \<longleftrightarrow> CHR 0x20 \<le> c \<and> c \<le> CHR 0x7E"

section \<open>Words of different widths\<close>

lemma unat_u16_bound [simp]: "unat (x :: u16) < 65536"
  using unsigned_less [of x, where ?'a = nat] by simp

lemma unat_u32_bound [simp]: "unat (x :: u32) < 4294967296"
  using unsigned_less [of x, where ?'a = nat] by simp

lemma unat_u64_bound [simp]: "unat (x :: u64) < 18446744073709551616"
  using unsigned_less [of x, where ?'a = nat] by simp

lemma unat_widen [simp]:
  "unat (ucast (b :: byte) :: u16) = unat b" "unat (ucast (b :: byte) :: u32) = unat b"
  "unat (ucast (b :: byte) :: u64) = unat b"
  "unat (ucast (h :: u16) :: u32) = unat h" "unat (ucast (h :: u16) :: u64) = unat h"
  "unat (ucast (x :: u32) :: u64) = unat x"
  by (simp_all add: unsigned_ucast_eq take_bit_nat_eq_self unat_byte_less [THEN order.strict_trans]
     unat_u16_bound [THEN order.strict_trans] unat_u32_bound [THEN order.strict_trans])

lemma unat_narrow:
  "unat (ucast (x :: u64) :: u32) = unat x mod 4294967296"
  "unat (ucast (x :: u64) :: u16) = unat x mod 65536"
  "unat (ucast (y :: u32) :: u16) = unat y mod 65536"
  by (simp_all add: unsigned_ucast_eq take_bit_eq_mod)

lemma unat_plus_small:
  "unat (a :: u64) + unat b < 18446744073709551616 \<Longrightarrow> unat (a + b) = unat a + unat b"
  "unat (c :: u32) + unat e < 4294967296 \<Longrightarrow> unat (c + e) = unat c + unat e"
  using unat_add_lem [of a b] unat_add_lem [of c e] by auto

lemma unat_minus_small: "b \<le> (a :: 'a::len word) \<Longrightarrow> unat (a - b) = unat a - unat b"
  by (rule unat_sub)

section \<open>Growable arrays\<close>

text \<open>
  Every list type of the program is the same C idiom: \<open>items\<close>, \<open>count\<close> and
  \<open>capacity\<close>, where an append first doubles a full array (or gives an empty one its
  first capacity). \<open>count\<close> is the length of \<open>v_items\<close>; allocation is taken to
  succeed.
\<close>

record 'a vec =
  v_items :: "'a list"
  v_capacity :: nat

definition vec_init :: "'a vec" where
  "vec_init = \<lparr>v_items = [], v_capacity = 0\<rparr>"

definition vec_add :: "nat \<Rightarrow> 'a vec \<Rightarrow> 'a \<Rightarrow> 'a vec" where
  "vec_add first_capacity v x =
     (let cap = (if length (v_items v) = v_capacity v
                 then (if v_capacity v = 0 then first_capacity else v_capacity v * 2)
                 else v_capacity v)
      in \<lparr>v_items = v_items v @ [x], v_capacity = cap\<rparr>)"

definition vec_free :: "'a vec \<Rightarrow> 'a vec" where
  "vec_free v = \<lparr>v_items = [], v_capacity = 0\<rparr>"

lemma vec_simps [simp]:
  "v_items vec_init = []" "v_capacity vec_init = 0"
  "v_items (vec_add k v x) = v_items v @ [x]"
  "v_items (vec_free v) = []" "v_capacity (vec_free v) = 0"
  by (simp_all add: vec_init_def vec_add_def vec_free_def Let_def)

text \<open>
  The contract the clients of a list rely on: an append keeps what is there and
  adds one element, and the write it makes is inside the allocation.
\<close>

locale growable =
  fixes empty :: "'v"
    and append_elem :: "'v \<Rightarrow> 'a \<Rightarrow> 'v"
    and release :: "'v \<Rightarrow> 'v"
    and elems :: "'v \<Rightarrow> 'a list"
    and room :: "'v \<Rightarrow> nat"
  assumes elems_empty: "elems empty = []"
    and elems_append: "elems (append_elem v x) = elems v @ [x]"
    and elems_release: "elems (release v) = []"
    and room_empty: "length (elems empty) \<le> room empty"
    and room_append: "length (elems v) \<le> room v \<Longrightarrow>
          length (elems (append_elem v x)) \<le> room (append_elem v x)"
    and room_amortised: "length (elems v) \<le> room v \<Longrightarrow> 0 < room v \<Longrightarrow>
          room (append_elem v x) \<le> max (room v) (2 * length (elems v))"
begin

lemma elems_fold: "elems (foldl append_elem v xs) = elems v @ xs"
  by (induction xs arbitrary: v) (simp_all add: elems_append)

lemma room_fold: "length (elems v) \<le> room v \<Longrightarrow>
    length (elems (foldl append_elem v xs)) \<le> room (foldl append_elem v xs)"
  by (induction xs arbitrary: v) (simp_all add: room_append)

lemma built_list: "elems (foldl append_elem empty xs) = xs \<and>
    length xs \<le> room (foldl append_elem empty xs)"
  using room_fold [OF room_empty, of xs] by (simp add: elems_fold elems_empty)

end

lemma vec_add_room:
  "0 < k \<Longrightarrow> length (v_items v) \<le> v_capacity v \<Longrightarrow>
     Suc (length (v_items v)) \<le> v_capacity (vec_add k v x)"
  by (auto simp: vec_add_def Let_def)

lemma vec_add_amortised:
  "length (v_items v) \<le> v_capacity v \<Longrightarrow> 0 < v_capacity v \<Longrightarrow>
     v_capacity (vec_add k v x) \<le> max (v_capacity v) (2 * length (v_items v))"
  by (auto simp: vec_add_def Let_def)

section \<open>Lists of optional results\<close>

lemma those_Some_iff: "those xs = Some ys \<longleftrightarrow> xs = map Some ys"
  by (induction xs arbitrary: ys) (auto split: option.splits)

lemma those_map_lengths:
  assumes "those (map f ks) = Some bs" and "\<And>k b. k \<in> set ks \<Longrightarrow> f k = Some b \<Longrightarrow> length b = g k"
  shows "length (concat bs) = sum_list (map g ks)"
  using assms
proof (induction ks arbitrary: bs)
  case (Cons k ks)
  then show ?case by (auto split: option.splits)
qed simp

lemma sum_chunks: "0 < c \<Longrightarrow> sum_list (map (\<lambda>i. min c (n - c * i)) [0..<k]) = min n (c * k)" for c n k :: nat
  by (induction k) auto

lemma find_SomeD: "List.find P xs = Some x \<Longrightarrow> x \<in> set xs \<and> P x"
  by (induction xs) (auto split: if_splits)

lemma find_append: "List.find P (xs @ ys) = (case List.find P xs of None \<Rightarrow> List.find P ys | Some x \<Rightarrow> Some x)"
  by (induction xs) auto

lemma find_map: "List.find P (map g xs) = map_option g (List.find (\<lambda>x. P (g x)) xs)"
  by (induction xs) auto

lemma find_cong_on: "(\<And>x. x \<in> set xs \<Longrightarrow> P x = Q x) \<Longrightarrow> List.find P xs = List.find Q xs"
  by (induction xs) auto

section \<open>Early return with state\<close>

text \<open>
  A C function that may return \<open>-1\<close> part way through has changed the state it
  reached: its model maps a state to an optional result (None is \<open>-1\<close>) and the state
  at the return, whichever way it returned.
\<close>

definition sbind :: "('s \<Rightarrow> 'a option \<times> 's) \<Rightarrow> ('a \<Rightarrow> 's \<Rightarrow> 'b option \<times> 's) \<Rightarrow> 's \<Rightarrow> 'b option \<times> 's" where
  "sbind m k s = (case m s of (None, s') \<Rightarrow> (None, s') | (Some a, s') \<Rightarrow> k a s')"

definition slift :: "'a option \<Rightarrow> 's \<Rightarrow> 'a option \<times> 's" where
  "slift r s = (r, s)"

text \<open>
  \<open>keeps I J m\<close>: started in a state with \<open>I\<close>, the code either goes on in a state with
  \<open>I\<close> or returns early in one with \<open>J\<close>. With \<open>J = I\<close> it says that \<open>I\<close> is an invariant,
  with \<open>J\<close> always true it speaks of successful runs only.
\<close>

definition keeps :: "('s \<Rightarrow> bool) \<Rightarrow> ('s \<Rightarrow> bool) \<Rightarrow> ('s \<Rightarrow> 'a option \<times> 's) \<Rightarrow> bool" where
  "keeps I J m \<longleftrightarrow> (\<forall>s. I s \<longrightarrow> (case m s of (Some _, s') \<Rightarrow> I s' | (None, s') \<Rightarrow> J s'))"

lemma keepsI:
  assumes "\<And>s a s'. I s \<Longrightarrow> m s = (Some a, s') \<Longrightarrow> I s'" and "\<And>s s'. I s \<Longrightarrow> m s = (None, s') \<Longrightarrow> J s'"
  shows "keeps I J m"
  using assms by (auto simp: keeps_def split: prod.split option.split)

lemma keepsD:
  assumes "keeps I J m" and "I s"
  shows "m s = (Some a, s') \<Longrightarrow> I s'" and "m s = (None, s') \<Longrightarrow> J s'"
  using assms by (fastforce simp: keeps_def)+

lemma keeps_same: "keeps I I m \<longleftrightarrow> (\<forall>s. I s \<longrightarrow> I (snd (m s)))"
  by (auto simp: keeps_def split: prod.splits option.splits) (metis not_Some_eq snd_conv surj_pair)+

lemma keeps_return [keeps_intros]: "keeps I J (slift (Some a))"
  by (simp add: keeps_def slift_def)

lemma keeps_fail [keeps_intros]: "(\<And>s. I s \<Longrightarrow> J s) \<Longrightarrow> keeps I J (slift None)"
  by (simp add: keeps_def slift_def)

lemma keeps_slift [keeps_intros]: "(\<And>s. I s \<Longrightarrow> J s) \<Longrightarrow> keeps I J (slift r)"
  by (simp add: keeps_def slift_def split: option.split)

lemma keeps_sbind [keeps_intros]:
  "keeps I J m \<Longrightarrow> (\<And>a. keeps I J (k a)) \<Longrightarrow> keeps I J (sbind m k)"
  by (fastforce simp: keeps_def sbind_def split: prod.splits option.splits)

lemma keeps_sbind_slift [keeps_intros]:
  "(\<And>s. I s \<Longrightarrow> J s) \<Longrightarrow> (\<And>a. r = Some a \<Longrightarrow> keeps I J (k a)) \<Longrightarrow> keeps I J (sbind (slift r) k)"
  by (auto simp: keeps_def sbind_def slift_def split: option.splits)

lemma keeps_if [keeps_intros]:
  "(b \<Longrightarrow> keeps I J m) \<Longrightarrow> (\<not> b \<Longrightarrow> keeps I J n) \<Longrightarrow> keeps I J (if b then m else n)"
  by simp

lemma sbind_Some:
  "sbind m k s = (Some b, s'') \<longleftrightarrow> (\<exists>a s'. m s = (Some a, s') \<and> k a s' = (Some b, s''))"
  by (auto simp: sbind_def split: prod.splits option.splits)

lemma slift_Some [simp]: "slift r s = (Some a, s') \<longleftrightarrow> r = Some a \<and> s' = s"
  by (auto simp: slift_def)

section \<open>Comparators and \<open>qsort\<close>\<close>

text \<open>
  \<open>qsort\<close> with a comparison function. The C standard leaves the order of elements
  that compare equal open; the model is the stable choice. The laws a comparison
  function must satisfy for the result to be sorted at all are the assumptions of
  the locale.
\<close>

fun cmp_insert :: "('a \<Rightarrow> 'a \<Rightarrow> int) \<Rightarrow> 'a \<Rightarrow> 'a list \<Rightarrow> 'a list" where
  "cmp_insert cmp x [] = [x]"
| "cmp_insert cmp x (y # ys) = (if cmp x y \<le> 0 then x # y # ys else y # cmp_insert cmp x ys)"

definition c_qsort :: "('a \<Rightarrow> 'a \<Rightarrow> int) \<Rightarrow> 'a list \<Rightarrow> 'a list" where
  "c_qsort cmp xs = foldr (cmp_insert cmp) xs []"

lemma c_qsort_simps [simp]:
  "c_qsort cmp [] = []" "c_qsort cmp (x # xs) = cmp_insert cmp x (c_qsort cmp xs)"
  by (simp_all add: c_qsort_def)

lemma mset_cmp_insert: "mset (cmp_insert cmp x ys) = add_mset x (mset ys)"
  by (induction ys) auto

lemma mset_c_qsort: "mset (c_qsort cmp xs) = mset xs"
  by (induction xs) (simp_all add: mset_cmp_insert)

lemma set_c_qsort [simp]: "set (c_qsort cmp xs) = set xs"
  by (metis mset_c_qsort set_mset_mset)

lemma set_cmp_insert [simp]: "set (cmp_insert cmp x ys) = insert x (set ys)"
  by (metis list.set(2) mset.simps(2) mset_cmp_insert set_mset_mset)

locale comparator =
  fixes cmp :: "'a \<Rightarrow> 'a \<Rightarrow> int"
  assumes cmp_refl: "cmp x x = 0"
    and cmp_flip: "cmp x y < 0 \<longleftrightarrow> cmp y x > 0"
    and cmp_trans: "cmp x y \<le> 0 \<Longrightarrow> cmp y z \<le> 0 \<Longrightarrow> cmp x z \<le> 0"
begin

lemma cmp_total: "cmp x y \<le> 0 \<or> cmp y x \<le> 0"
  using cmp_flip [of x y] by linarith

lemma cmp_eq_sym: "cmp x y = 0 \<longleftrightarrow> cmp y x = 0"
  using cmp_flip [of x y] cmp_flip [of y x] by linarith

lemma cmp_less_trans: "cmp x y < 0 \<Longrightarrow> cmp y z \<le> 0 \<Longrightarrow> cmp x z < 0"
  using cmp_trans [of x y z] cmp_trans [of y z x] cmp_flip [of x y] cmp_flip [of x z]
    cmp_flip [of z x] by linarith

lemma sorted_cmp_insert:
  "sorted_wrt (\<lambda>x y. cmp x y \<le> 0) ys \<Longrightarrow> sorted_wrt (\<lambda>x y. cmp x y \<le> 0) (cmp_insert cmp x ys)"
  using cmp_total by (induction ys) (auto intro: cmp_trans)

lemma sorted_c_qsort: "sorted_wrt (\<lambda>x y. cmp x y \<le> 0) (c_qsort cmp xs)"
  by (induction xs) (auto intro: sorted_cmp_insert)

lemma cmp_insert_front: "\<forall>y \<in> set ys. cmp x y \<le> 0 \<Longrightarrow> cmp_insert cmp x ys = x # ys"
  by (cases ys) auto

lemma filter_cmp_insert:
  "sorted_wrt (\<lambda>x y. cmp x y \<le> 0) ys \<Longrightarrow>
     filter P (cmp_insert cmp x ys) = (if P x then cmp_insert cmp x (filter P ys) else filter P ys)"
  by (induction ys) (auto intro: cmp_trans intro!: cmp_insert_front [symmetric])

lemma filter_c_qsort: "filter P (c_qsort cmp xs) = c_qsort cmp (filter P xs)"
  by (induction xs) (auto simp: filter_cmp_insert [OF sorted_c_qsort])

text \<open>When no two elements compare equal, \<open>qsort\<close> has only one possible result.\<close>

lemma sorted_unique:
  assumes "mset ys = mset zs"
    and "sorted_wrt (\<lambda>x y. cmp x y \<le> 0) ys" and "sorted_wrt (\<lambda>x y. cmp x y \<le> 0) zs"
    and "\<And>x y. x \<in> set ys \<Longrightarrow> y \<in> set ys \<Longrightarrow> cmp x y = 0 \<Longrightarrow> x = y"
  shows "ys = zs"
  using assms
proof (induction ys arbitrary: zs)
  case (Cons y ys)
  then obtain z zs' where zs: "zs = z # zs'" by (cases zs) auto
  have sets: "set (y # ys) = set zs" using Cons.prems(1) by (metis set_mset_mset)
  have "cmp y z \<le> 0" using Cons.prems(2) sets zs cmp_refl by (metis list.set_intros(1) order.refl set_ConsD sorted_wrt.simps(2))
  moreover have "cmp z y \<le> 0"
    using Cons.prems(3) sets zs cmp_refl by (metis list.set_intros(1) order.refl set_ConsD sorted_wrt.simps(2))
  ultimately have "cmp y z = 0" using cmp_flip [of z y] cmp_flip [of y z] by linarith
  then have "y = z" using Cons.prems(4) sets zs by (metis list.set_intros(1))
  with Cons zs show ?case by simp
qed simp

end

text \<open>A comparison function that follows a linearly ordered key is a comparator.\<close>

lemma comparator_key:
  fixes key :: "'a \<Rightarrow> 'k::linorder"
  assumes "\<And>x y. cmp x y < 0 \<longleftrightarrow> key x < key y" and "\<And>x y. 0 < cmp x y \<longleftrightarrow> key y < key x"
  shows "comparator cmp"
proof
  have le: "cmp x y \<le> 0 \<longleftrightarrow> key x \<le> key y" for x y using assms(2) [of x y] by (simp add: not_less [symmetric])
  show "cmp x x = 0" for x using assms [of x x] by simp
  show "cmp x y < 0 \<longleftrightarrow> 0 < cmp y x" for x y using assms by simp
  show "cmp x y \<le> 0 \<Longrightarrow> cmp y z \<le> 0 \<Longrightarrow> cmp x z \<le> 0" for x y z unfolding le by simp
qed

lemma sorted_key_qsort:
  fixes key :: "'a \<Rightarrow> 'k::linorder"
  assumes "\<And>x y. cmp x y < 0 \<longleftrightarrow> key x < key y" and "\<And>x y. 0 < cmp x y \<longleftrightarrow> key y < key x"
  shows "sorted (map key (c_qsort cmp xs))"
proof -
  have "cmp x y \<le> 0 \<longleftrightarrow> key x \<le> key y" for x y using assms(2) [of x y] by (simp add: not_less [symmetric])
  then show ?thesis
    using comparator.sorted_c_qsort [OF comparator_key [of cmp key], OF assms, of xs]
    by (simp add: sorted_wrt_map)
qed

section \<open>Lower-bound binary search\<close>

text \<open>The loop of \<open>dirent_lower_bound\<close> and \<open>inode_lower_bound\<close>, over any key.\<close>

function lower_bound_loop :: "('a \<Rightarrow> 'k::linorder) \<Rightarrow> 'a list \<Rightarrow> 'k \<Rightarrow> nat \<Rightarrow> nat \<Rightarrow> nat" where
  "lower_bound_loop key xs k lo hi =
     (if lo < hi then
        (let mid = lo + (hi - lo) div 2
         in if key (xs ! mid) < k then lower_bound_loop key xs k (mid + 1) hi
            else lower_bound_loop key xs k lo mid)
      else lo)"
  by pat_completeness auto
termination by (relation "measure (\<lambda>(key, xs, k, lo, hi). hi - lo)") auto

declare lower_bound_loop.simps [simp del]

lemma length_takeWhile_eqI:
  assumes "n \<le> length xs" "\<And>i. i < n \<Longrightarrow> P (xs ! i)" "n < length xs \<Longrightarrow> \<not> P (xs ! n)"
  shows "length (takeWhile P xs) = n"
proof (cases "n < length xs")
  case True
  then show ?thesis using takeWhile_eq_take_P_nth [of n xs P] assms by simp
next
  case False
  then have "takeWhile P xs = xs" using assms(1,2) by (auto simp: takeWhile_eq_all_conv in_set_conv_nth)
  then have "length (takeWhile P xs) = length xs" by (rule arg_cong)
  with False assms(1) show ?thesis by simp
qed

lemma lower_bound_loop_spec:
  assumes "sorted (map key xs)" and "hi \<le> length xs" and "lo \<le> hi"
    and "\<forall>i<lo. key (xs ! i) < k" and "\<forall>i. hi \<le> i \<and> i < length xs \<longrightarrow> k \<le> key (xs ! i)"
  shows "lower_bound_loop key xs k lo hi = length (takeWhile (\<lambda>x. key x < k) xs)"
  using assms
proof (induction key xs k lo hi rule: lower_bound_loop.induct)
  case (1 key xs k lo hi)
  have mono: "i \<le> j \<Longrightarrow> j < length xs \<Longrightarrow> key (xs ! i) \<le> key (xs ! j)" for i j
    using sorted_nth_mono [OF "1.prems"(1), of i j] by simp
  show ?case
  proof (cases "lo < hi")
    case True
    let ?mid = "lo + (hi - lo) div 2"
    have mid: "lo \<le> ?mid" "?mid < hi" using True by auto
    show ?thesis
    proof (cases "key (xs ! ?mid) < k")
      case less: True
      have "\<forall>i<?mid + 1. key (xs ! i) < k"
        using less mono [of _ ?mid] mid "1.prems"(2) by (auto simp: less_Suc_eq_le intro: order.strict_trans1)
      then show ?thesis
        using "1.IH"(1) [OF True refl less] "1.prems" mid less True
        by (simp add: lower_bound_loop.simps [of key xs k lo hi] Let_def)
    next
      case ge: False
      have "\<forall>i. ?mid \<le> i \<and> i < length xs \<longrightarrow> k \<le> key (xs ! i)"
        using ge mono [of ?mid] by (metis linorder_not_less order.trans)
      then show ?thesis
        using "1.IH"(2) [OF True refl ge] "1.prems" mid ge True
        by (simp add: lower_bound_loop.simps [of key xs k lo hi] Let_def)
    qed
  next
    case False
    with "1.prems" have eq: "lo = hi" by simp
    have "length (takeWhile (\<lambda>x. key x < k) xs) = hi"
      using "1.prems"(2,4,5) eq by (intro length_takeWhile_eqI) auto
    with eq show ?thesis by (simp add: lower_bound_loop.simps [of key xs k hi hi])
  qed
qed

lemma lower_bound_spec:
  "sorted (map key xs) \<Longrightarrow>
     lower_bound_loop key xs k 0 (length xs) = length (takeWhile (\<lambda>x. key x < k) xs)"
  by (rule lower_bound_loop_spec) auto

lemma drop_lower_bound:
  "sorted (map key xs) \<Longrightarrow>
     drop (lower_bound_loop key xs k 0 (length xs)) xs = dropWhile (\<lambda>x. key x < k) xs"
  by (simp add: lower_bound_spec dropWhile_eq_drop)

end
