(* ===== verification/Disk.thy ===== *)
theory Disk
  imports Prelude "HOL-Library.AList"
begin

text \<open>
  The part of POSIX the program uses on its output: a disk maps the paths the
  program spells to nodes, in directory-listing order. Paths are compared as
  spelled (the program only ever appends \<open>/name\<close> to a directory it was given), a
  lookup does not traverse a symbolic link in the middle of a path, and a
  component is created only under a parent that is a directory. Permissions and a
  full device are not modelled.
\<close>

datatype fnode = RegFile "byte list" | Directory | SymLink string

type_synonym disk = "(string \<times> fnode) list"

definition lookup :: "disk \<Rightarrow> string \<Rightarrow> fnode option" where
  "lookup d p = map_of d p"

definition put :: "string \<Rightarrow> fnode \<Rightarrow> disk \<Rightarrow> disk" where
  "put p n d = AList.update p n d"

definition drop_path :: "string \<Rightarrow> disk \<Rightarrow> disk" where
  "drop_path p d = AList.delete p d"

lemma lookup_put [simp]: "lookup (put p n d) q = (if q = p then Some n else lookup d q)"
  by (simp add: lookup_def put_def update_conv')

lemma lookup_drop_path [simp]: "lookup (drop_path p d) q = (if q = p then None else lookup d q)"
  by (simp add: lookup_def drop_path_def delete_conv')

section \<open>Paths\<close>

definition path_join :: "string \<Rightarrow> string \<Rightarrow> string" where
  "path_join dir name = dir @ ''/'' @ name"

definition below :: "string \<Rightarrow> string \<Rightarrow> bool" where
  "below dir p \<longleftrightarrow> take (length dir + 1) p = dir @ ''/''"

definition parent_of :: "string \<Rightarrow> string option" where
  "parent_of p = (if CHR ''/'' \<in> set p
     then Some (rev (tl (dropWhile (\<lambda>c. c \<noteq> CHR ''/'') (rev p)))) else None)"

lemma below_path_join [simp]: "below dir (path_join dir name)"
  by (simp add: below_def path_join_def)

lemma below_iff: "below dir p \<longleftrightarrow> (\<exists>rel. p = path_join dir rel)"
  by (auto simp: below_def path_join_def) (metis append.assoc append_Cons append_Nil append_take_drop_id)

lemma not_below_self [simp]: "\<not> below p p"
  by (simp add: below_def)

lemma path_join_neq [simp]: "path_join dir name \<noteq> dir" "dir \<noteq> path_join dir name"
  by (simp_all add: path_join_def)

lemma path_join_inject [simp]: "path_join dir a = path_join dir b \<longleftrightarrow> a = b"
  by (simp add: path_join_def)

lemma below_trans: "below a b \<Longrightarrow> below b c \<Longrightarrow> below a c"
  by (auto simp: below_iff path_join_def)

lemma parent_of_join:
  "CHR ''/'' \<notin> set name \<Longrightarrow> parent_of (path_join dir name) = Some dir"
  by (auto simp: parent_of_def path_join_def dropWhile_append1 dropWhile_append)

section \<open>System calls\<close>

text \<open>Whether something can be created at a path; never at the empty one (ENOENT).\<close>

definition parent_ok :: "disk \<Rightarrow> string \<Rightarrow> bool" where
  "parent_ok d p \<longleftrightarrow> p \<noteq> [] \<and> (case parent_of p of None \<Rightarrow> True
     | Some q \<Rightarrow> q = [] \<or> lookup d q = Some Directory)"

text \<open>\<open>stat\<close> and \<open>open\<close> follow links, at most 40 of them (ELOOP).\<close>

fun resolve_link :: "nat \<Rightarrow> disk \<Rightarrow> string \<Rightarrow> string option" where
  "resolve_link 0 d p = None"
| "resolve_link (Suc k) d p =
     (case lookup d p of Some (SymLink t) \<Rightarrow> resolve_link k d t | _ \<Rightarrow> Some p)"

definition MAX_LINKS :: nat where "MAX_LINKS = 40"

definition stat_node :: "disk \<Rightarrow> string \<Rightarrow> fnode option" where
  "stat_node d p = (case resolve_link MAX_LINKS d p of None \<Rightarrow> None | Some q \<Rightarrow> lookup d q)"

text \<open>\<open>mkdir (p, 0700) == 0\<close>: the new disk, or None with EEXIST or ENOENT.\<close>

definition sys_mkdir :: "string \<Rightarrow> disk \<Rightarrow> disk option" where
  "sys_mkdir p d = (if lookup d p \<noteq> None \<or> \<not> parent_ok d p then None else Some (put p Directory d))"

text \<open>\<open>fopen (p, "wb")\<close>: the path the stream writes to and the disk with that file empty.\<close>

definition fopen_wb :: "string \<Rightarrow> disk \<Rightarrow> (string \<times> disk) option" where
  "fopen_wb p d =
     (case resolve_link MAX_LINKS d p of None \<Rightarrow> None
      | Some q \<Rightarrow>
         (case lookup d q of
            Some (RegFile _) \<Rightarrow> Some (q, put q (RegFile []) d)
          | None \<Rightarrow> if parent_ok d q then Some (q, put q (RegFile []) d) else None
          | _ \<Rightarrow> None))"

definition sys_fwrite :: "string \<Rightarrow> byte list \<Rightarrow> disk \<Rightarrow> disk" where
  "sys_fwrite h bs d =
     (case lookup d h of Some (RegFile old) \<Rightarrow> put h (RegFile (old @ bs)) d | _ \<Rightarrow> d)"

definition fopen_rb :: "string \<Rightarrow> disk \<Rightarrow> byte list option" where
  "fopen_rb p d = (case stat_node d p of Some (RegFile bs) \<Rightarrow> Some bs | _ \<Rightarrow> None)"

definition has_children :: "disk \<Rightarrow> string \<Rightarrow> bool" where
  "has_children d p \<longleftrightarrow> list_ex (\<lambda>(q, _). below p q) d"

text \<open>\<open>remove\<close>: unlinks a file or link (never its target), and a directory that is empty.\<close>

definition sys_remove :: "string \<Rightarrow> disk \<Rightarrow> disk" where
  "sys_remove p d =
     (case lookup d p of None \<Rightarrow> d
      | Some Directory \<Rightarrow> if has_children d p then d else drop_path p d
      | Some _ \<Rightarrow> drop_path p d)"

definition readdir_names :: "disk \<Rightarrow> string \<Rightarrow> string list" where
  "readdir_names d p = ''.'' # ''..'' #
     map (\<lambda>(q, _). drop (length p + 1) q)
       (filter (\<lambda>(q, _). below p q \<and> drop (length p + 1) q \<noteq> [] \<and>
                 CHR ''/'' \<notin> set (drop (length p + 1) q)) d)"

text \<open>
  \<open>rename (old, new)\<close>: everything at and under \<open>old\<close> moves to \<open>new\<close>, which may be
  an empty directory but not one with entries.
\<close>

definition rekey :: "string \<Rightarrow> string \<Rightarrow> string \<Rightarrow> string" where
  "rekey old new q = (if q = old \<or> below old q then new @ drop (length old) q else q)"

definition sys_rename :: "string \<Rightarrow> string \<Rightarrow> disk \<Rightarrow> disk option" where
  "sys_rename old new d =
     (case lookup d old of None \<Rightarrow> None
      | Some node \<Rightarrow>
          if old = new then Some d
          else if below old new \<or> below new old \<or> \<not> parent_ok d new then None
          else if (case lookup d new of None \<Rightarrow> False
                   | Some Directory \<Rightarrow> node \<noteq> Directory \<or> has_children d new
                   | Some _ \<Rightarrow> node = Directory)
          then None
          else Some (map (\<lambda>(q, n). (rekey old new q, n))
                      (filter (\<lambda>(q, _). q \<noteq> new \<and> \<not> below new q) d)))"

section \<open>Laws of the calls\<close>

lemma resolve_not_link:
  "(\<forall>t. lookup d p \<noteq> Some (SymLink t)) \<Longrightarrow> resolve_link (Suc k) d p = Some p"
  by (auto split: option.splits fnode.splits)

lemma fopen_wb_plain:
  assumes "\<forall>t. lookup d p \<noteq> Some (SymLink t)" and "fopen_wb p d = Some (h, d')"
  shows "h = p" and "d' = put p (RegFile []) d"
  using assms resolve_not_link [OF assms(1), of 39]
  by (auto simp: fopen_wb_def MAX_LINKS_def split: option.splits fnode.splits if_splits)

lemma sys_mkdir_Some: "sys_mkdir p d = Some d' \<longleftrightarrow> lookup d p = None \<and> parent_ok d p \<and> d' = put p Directory d"
  by (auto simp: sys_mkdir_def)

lemma lookup_fwrite_other: "q \<noteq> h \<Longrightarrow> lookup (sys_fwrite h bs d) q = lookup d q"
  by (auto simp: sys_fwrite_def split: option.splits fnode.splits)

lemma lookup_fwrite_file:
  "lookup d h = Some (RegFile old) \<Longrightarrow> lookup (sys_fwrite h bs d) h = Some (RegFile (old @ bs))"
  by (simp add: sys_fwrite_def)

lemma lookup_remove_other: "q \<noteq> p \<Longrightarrow> lookup (sys_remove p d) q = lookup d q"
  by (auto simp: sys_remove_def split: option.splits fnode.splits)

lemma lookup_remove_file:
  "lookup d p \<noteq> Some Directory \<Longrightarrow> lookup (sys_remove p d) p = None"
  by (auto simp: sys_remove_def split: option.splits fnode.splits)

lemma has_children_iff: "has_children d p \<longleftrightarrow> (\<exists>q. below p q \<and> lookup d q \<noteq> None)"
  by (auto simp: has_children_def lookup_def list_ex_iff map_of_eq_None_iff) force+

lemma map_of_rekey:
  assumes "\<And>k. P k \<and> g k = q \<longleftrightarrow> k = k0"
  shows "map_of (map (\<lambda>(k, n). (g k, n)) (filter (\<lambda>(k, _). P k) d)) q = map_of d k0"
proof (induction d)
  case (Cons x d)
  obtain k n where x: "x = (k, n)" by (cases x)
  show ?case using Cons assms [of k] unfolding x by (cases "P k"; cases "g k = q") auto
qed simp

lemma map_of_rekey_none:
  assumes "\<And>k. \<not> (P k \<and> g k = q)"
  shows "map_of (map (\<lambda>(k, n). (g k, n)) (filter (\<lambda>(k, _). P k) d)) q = None"
proof (induction d)
  case (Cons x d)
  obtain k n where x: "x = (k, n)" by (cases x)
  show ?case using Cons assms [of k] unfolding x by (cases "P k") auto
qed simp

text \<open>A path at or below a directory, and the path it has after the directory.\<close>

definition at_or_below :: "string \<Rightarrow> string \<Rightarrow> bool" where
  "at_or_below p q \<longleftrightarrow> q = p \<or> below p q"

lemma at_or_below_iff: "at_or_below p q \<longleftrightarrow> (\<exists>r. q = p @ r \<and> (r = [] \<or> hd r = CHR ''/''))"
proof -
  have "(\<exists>r. q = p @ r \<and> (r = [] \<or> hd r = CHR ''/'')) \<longleftrightarrow> q = p \<or> (\<exists>rel. q = p @ CHR ''/'' # rel)"
    by (metis append_Nil2 hd_Cons_tl list.discI list.sel(1))
  then show ?thesis by (simp add: at_or_below_def below_iff path_join_def)
qed

lemma at_or_below_both:
  assumes "at_or_below p q" and "at_or_below p' q"
  shows "at_or_below p p' \<or> at_or_below p' p"
proof -
  obtain r where r: "q = p @ r" "r = [] \<or> hd r = CHR ''/''" using assms(1) unfolding at_or_below_iff by blast
  obtain r' where r': "q = p' @ r'" "r' = [] \<or> hd r' = CHR ''/''" using assms(2) unfolding at_or_below_iff by blast
  have "p @ r = p' @ r'" using r r' by simp
  then obtain u where "p = p' @ u \<and> u @ r = r' \<or> p @ u = p' \<and> r = u @ r'"
    by (auto simp: append_eq_append_conv2)
  then show ?thesis
  proof
    assume u: "p = p' @ u \<and> u @ r = r'"
    then have "u = [] \<or> hd u = CHR ''/''" using r' by (cases u) auto
    with u show ?thesis unfolding at_or_below_iff by blast
  next
    assume u: "p @ u = p' \<and> r = u @ r'"
    then have "u = [] \<or> hd u = CHR ''/''" using r by (cases u) auto
    with u show ?thesis unfolding at_or_below_iff by blast
  qed
qed

lemma lookup_rename:
  assumes "sys_rename old new d = Some d'" and "old \<noteq> new"
  shows "lookup d' q =
    (if at_or_below new q then lookup d (old @ drop (length new) q)
     else if at_or_below old q then None else lookup d q)"
proof -
  let ?P = "\<lambda>k. k \<noteq> new \<and> \<not> below new k"
  have P: "?P k \<longleftrightarrow> \<not> at_or_below new k" for k by (simp add: at_or_below_def)
  have g: "rekey old new k = (if at_or_below old k then new @ drop (length old) k else k)" for k
    by (simp add: rekey_def at_or_below_def)
  from assms have nb: "\<not> below old new" "\<not> below new old" and
    d': "d' = map (\<lambda>(k, n). (rekey old new k, n)) (filter (\<lambda>(k, _). ?P k) d)"
    by (auto simp: sys_rename_def split: option.splits if_splits fnode.splits)
  then have apart: "\<not> at_or_below old new" "\<not> at_or_below new old" using assms(2) by (auto simp: at_or_below_def)
  have moved: "at_or_below new (new @ drop (length old) k)" if "at_or_below old k" for k
    using that by (auto simp: at_or_below_iff)
  show ?thesis
  proof (cases "at_or_below new q")
    case True
    then obtain r where r: "q = new @ r" "r = [] \<or> hd r = CHR ''/''" unfolding at_or_below_iff by blast
    have k0: "at_or_below old (old @ r)" unfolding at_or_below_iff using r(2) by blast
    then have k0n: "\<not> at_or_below new (old @ r)" using at_or_below_both apart by blast
    have "(?P k \<and> rekey old new k = q) \<longleftrightarrow> k = old @ r" for k
    proof
      assume "?P k \<and> rekey old new k = q"
      then have k: "\<not> at_or_below new k" "rekey old new k = q" using P [of k] by blast+
      then have "at_or_below old k" using True g [of k] by metis
      then show "k = old @ r" using k(2) r(1) g [of k] unfolding at_or_below_iff by auto
    next
      assume "k = old @ r"
      then show "?P k \<and> rekey old new k = q" using k0 k0n g [of k] r(1) by (simp only: P) simp
    qed
    then have "lookup d' q = map_of d (old @ r)"
      unfolding d' lookup_def by (rule map_of_rekey)
    with True r show ?thesis by (simp add: lookup_def)
  next
    case out: False
    show ?thesis
    proof (cases "at_or_below old q")
      case True
      have "\<not> (?P k \<and> rekey old new k = q)" for k
        using True out moved [of k] g [of k] unfolding P by metis
      then have "lookup d' q = None" unfolding d' lookup_def by (rule map_of_rekey_none)
      with True out show ?thesis by simp
    next
      case False
      have "(?P k \<and> rekey old new k = q) \<longleftrightarrow> k = q" for k
        using False out moved [of k] g [of k] g [of q] unfolding P by metis
      then have "lookup d' q = map_of d q" unfolding d' lookup_def by (rule map_of_rekey)
      with False out show ?thesis by (simp add: lookup_def)
    qed
  qed
qed

section \<open>The directory a path is in\<close>

lemma parent_of_Some: "parent_of q = Some r \<longleftrightarrow> (\<exists>n. CHR ''/'' \<notin> set n \<and> q = path_join r n)"
proof
  assume a: "parent_of q = Some r"
  then have "CHR ''/'' \<in> set q" by (auto simp: parent_of_def split: if_splits)
  then obtain ys zs where q: "q = ys @ CHR ''/'' # zs" "CHR ''/'' \<notin> set zs"
    by (metis split_list_last)
  then have "q = path_join ys zs" by (simp add: path_join_def)
  with parent_of_join [OF q(2), of ys] a q(2) show "\<exists>n. CHR ''/'' \<notin> set n \<and> q = path_join r n" by auto
qed (auto simp: parent_of_join)

text \<open>The directory of a path below \<open>p\<close> is \<open>p\<close> or below it.\<close>

lemma parent_at_or_below:
  assumes "below p (path_join dir n)" and "CHR ''/'' \<notin> set n"
  shows "at_or_below p dir"
proof -
  obtain rel where "path_join dir n = path_join p rel" using assms(1) by (auto simp: below_iff)
  then have "dir @ ''/'' @ n = p @ ''/'' @ rel" by (simp add: path_join_def)
  then obtain u where "dir = p @ u \<and> u @ ''/'' @ n = ''/'' @ rel \<or> dir @ u = p \<and> ''/'' @ n = u @ ''/'' @ rel"
    by (auto simp: append_eq_append_conv2)
  then show ?thesis
  proof
    assume "dir = p @ u \<and> u @ ''/'' @ n = ''/'' @ rel"
    then show ?thesis unfolding at_or_below_iff by (cases u) auto
  next
    assume u: "dir @ u = p \<and> ''/'' @ n = u @ ''/'' @ rel"
    then have "u = []" using assms(2) by (cases u) auto
    with u show ?thesis by (simp add: at_or_below_def)
  qed
qed

lemma at_or_below_join: "at_or_below p dir \<Longrightarrow> at_or_below p (path_join dir n)"
  by (metis at_or_below_def below_path_join below_trans)

text \<open>Whether something can be created at a path below \<open>dir\<close> is decided at and below \<open>dir\<close>.\<close>

lemma parent_ok_below:
  assumes "\<And>q. at_or_below dir q \<Longrightarrow> lookup d' q = lookup d q"
  shows "parent_ok d' (path_join dir name) = parent_ok d (path_join dir name)"
proof (cases "parent_of (path_join dir name)")
  case (Some r)
  then obtain n where "CHR ''/'' \<notin> set n" "path_join dir name = path_join r n" by (auto simp: parent_of_Some)
  then have "at_or_below dir r" using parent_at_or_below [of dir r n] below_path_join [of dir name] by simp
  then show ?thesis using assms Some by (simp add: parent_ok_def)
qed (simp add: parent_ok_def)

lemma fopen_wb_decided:
  assumes "lookup d' p = lookup d p" and "parent_ok d' p = parent_ok d p" and "\<forall>t. lookup d p \<noteq> Some (SymLink t)"
  shows "fopen_wb p d' \<noteq> None \<longleftrightarrow> fopen_wb p d \<noteq> None"
  using assms resolve_not_link [of d p 39] resolve_not_link [of d' p 39]
  by (auto simp: fopen_wb_def MAX_LINKS_def split: option.split fnode.split)

end
