(* ===== verification/FsUtil.thy ===== *)
theory FsUtil
  imports Disk
begin

text \<open>
  \<open>src/extract/fs_util.c\<close> and the types of \<open>extract.h\<close> / \<open>extract_internal.h\<close>: the
  endian-explicit decoders, the entry-name filter, directory creation, output
  paths, the entry list, and the record-and-write step at the end of each
  directory-entry handler of the three extractors; with the laws of the decoders,
  the filter and the paths.
\<close>

section \<open>Types\<close>

datatype crimp_fs_type = CRIMP_FS_UNKNOWN | CRIMP_FS_SQUASHFS | CRIMP_FS_CRAMFS | CRIMP_FS_JFFS2

record crimp_fs_info =
  fi_type :: crimp_fs_type
  fi_inode_count :: u32
  fi_block_size :: u32
  fi_compression :: u16
  fi_bytes_used :: u64

record crimp_fs_entry =
  e_path :: string
  e_is_dir :: bool
  e_size :: u64

type_synonym crimp_fs_entry_list = "crimp_fs_entry vec"

text \<open>
  The decompressors the program links against. \<open>zlib_uncompress src cap\<close> is zlib's
  \<open>uncompress\<close>: the output on \<open>Z_OK\<close>. \<open>xz_decode src cap\<close> is
  \<open>lzma_stream_buffer_decode\<close> under the program's memory limit: on \<open>LZMA_OK\<close> the
  number of input bytes consumed and the output.
\<close>

record codec =
  zlib_uncompress :: "byte list \<Rightarrow> nat \<Rightarrow> byte list option"
  xz_decode :: "byte list \<Rightarrow> nat \<Rightarrow> (nat \<times> byte list) option"

text \<open>The documented contract both libraries share: output never exceeds the given capacity.\<close>

definition codec_bounded :: "codec \<Rightarrow> bool" where
  "codec_bounded cx \<longleftrightarrow>
     (\<forall>src cap out. zlib_uncompress cx src cap = Some out \<longrightarrow> length out \<le> cap) \<and>
     (\<forall>src cap n out. xz_decode cx src cap = Some (n, out) \<longrightarrow> length out \<le> cap)"

text \<open>A codec for the concrete runs: it knows one two-byte stream.\<close>

definition sample_codec :: codec where
  "sample_codec = \<lparr>zlib_uncompress = (\<lambda>src cap. if src = [7, 8] \<and> 3 \<le> cap then Some [1, 2, 3] else None),
                   xz_decode = (\<lambda>src cap. if src = [7, 8] \<and> 3 \<le> cap then Some (2, [1, 2, 3]) else None)\<rparr>"

section \<open>Decoding, seeking\<close>

definition crimp_fs_decode_u32 :: "byte list \<Rightarrow> bool \<Rightarrow> u32" where
  "crimp_fs_decode_u32 p big_endian =
     (if big_endian then
        push_bit 24 (ucast (p ! 0)) OR push_bit 16 (ucast (p ! 1)) OR push_bit 8 (ucast (p ! 2)) OR
        ucast (p ! 3)
      else
        push_bit 24 (ucast (p ! 3)) OR push_bit 16 (ucast (p ! 2)) OR push_bit 8 (ucast (p ! 1)) OR
        ucast (p ! 0))"

definition crimp_fs_decode_u16 :: "byte list \<Rightarrow> bool \<Rightarrow> u16" where
  "crimp_fs_decode_u16 p big_endian =
     (if big_endian then ucast (push_bit 8 (ucast (p ! 0) :: u32) OR ucast (p ! 1))
      else ucast (push_bit 8 (ucast (p ! 1) :: u32) OR ucast (p ! 0)))"

definition crimp_fs_seek64 :: "u64 \<Rightarrow> nat option" where
  "crimp_fs_seek64 offset = (if offset < 0x8000000000000000 then Some (unat offset) else None)"

text \<open>A seek followed by an exact read, the pair every on-disk access is made of.\<close>

definition read_at :: "byte list \<Rightarrow> u64 \<Rightarrow> nat \<Rightarrow> byte list option" where
  "read_at f offset n = do { pos \<leftarrow> crimp_fs_seek64 offset; file_read f pos n }"

lemma read_at_length: "read_at f off n = Some bs \<Longrightarrow> length bs = n"
  by (auto simp: read_at_def Option.bind_eq_Some_conv dest: file_read_length)

lemma read_at_bound: "read_at f off n = Some bs \<Longrightarrow> 0 < n \<Longrightarrow> unat off + n \<le> length f"
  by (auto simp: read_at_def crimp_fs_seek64_def Option.bind_eq_Some_conv split: if_splits
      dest: file_read_bound)

section \<open>Entry names\<close>

definition WINDOWS_RESERVED_NAMES :: "string list" where
  "WINDOWS_RESERVED_NAMES =
    [''con'', ''prn'', ''aux'', ''nul'', ''com1'', ''com2'', ''com3'', ''com4'', ''com5'',
     ''com6'', ''com7'', ''com8'', ''com9'', ''lpt1'', ''lpt2'', ''lpt3'', ''lpt4'', ''lpt5'',
     ''lpt6'', ''lpt7'', ''lpt8'', ''lpt9'']"

definition reserved_match :: "string \<Rightarrow> nat \<Rightarrow> string \<Rightarrow> bool" where
  "reserved_match name base_len reserved \<longleftrightarrow>
     length reserved = base_len \<and>
     list_all (\<lambda>i. ascii_lower (name ! i) = reserved ! i) [0..<base_len]"

definition is_windows_reserved_name :: "string \<Rightarrow> bool" where
  "is_windows_reserved_name name =
     (let base_len = length (takeWhile (\<lambda>c. c \<noteq> CHR ''.'') name)
      in if base_len = 0 \<or> base_len > 4 then False
         else list_ex (reserved_match name base_len) WINDOWS_RESERVED_NAMES)"

definition crimp_fs_path_component_is_safe :: "string \<Rightarrow> bool" where
  "crimp_fs_path_component_is_safe name =
     (if length name = 0 then False
      else if length name = 1 \<and> name ! 0 = CHR ''.'' then False
      else if length name = 2 \<and> name ! 0 = CHR ''.'' \<and> name ! 1 = CHR ''.'' then False
      else if list_ex (\<lambda>c. c = CHR ''/'' \<or> c = CHR 0x5C \<or> c = CHR '':'' \<or> c = CHR 0x00) name
        then False
      else if is_windows_reserved_name name then False
      else True)"

section \<open>Directories, output paths, the entry list\<close>

definition crimp_fs_path_is_existing_directory :: "disk \<Rightarrow> string \<Rightarrow> bool" where
  "crimp_fs_path_is_existing_directory d p \<longleftrightarrow> lookup d p = Some Directory"

definition crimp_fs_path_is_symlink :: "disk \<Rightarrow> string \<Rightarrow> bool" where
  "crimp_fs_path_is_symlink d p = (case lookup d p of Some (SymLink _) \<Rightarrow> True | _ \<Rightarrow> False)"

text \<open>\<open>errno\<close> is EEXIST exactly when something is already at the path.\<close>

definition crimp_fs_make_directory :: "string \<Rightarrow> disk \<Rightarrow> bool \<times> disk" where
  "crimp_fs_make_directory p d =
     (case sys_mkdir p d of
        Some d' \<Rightarrow> (True, d')
      | None \<Rightarrow> (lookup d p \<noteq> None \<and> crimp_fs_path_is_existing_directory d p, d))"

definition crimp_fs_join_output_path :: "string \<Rightarrow> string \<Rightarrow> nat \<Rightarrow> string option" where
  "crimp_fs_join_output_path output_dir rel_path out_cap =
     (let s = path_join output_dir rel_path in if length s \<ge> out_cap then None else Some s)"

definition crimp_fs_entry_list_init :: "crimp_fs_entry_list" where
  "crimp_fs_entry_list_init = vec_init"

definition crimp_fs_entry_list_add ::
  "crimp_fs_entry_list \<Rightarrow> string \<Rightarrow> bool \<Rightarrow> u64 \<Rightarrow> crimp_fs_entry_list" where
  "crimp_fs_entry_list_add list path is_dir sz =
     vec_add 16 list \<lparr>e_path = path, e_is_dir = is_dir, e_size = sz\<rparr>"

definition crimp_fs_entry_list_free :: "crimp_fs_entry_list \<Rightarrow> crimp_fs_entry_list" where
  "crimp_fs_entry_list_free list = vec_free list"

interpretation entry_list: growable crimp_fs_entry_list_init
  "\<lambda>l e. crimp_fs_entry_list_add l (e_path e) (e_is_dir e) (e_size e)"
  crimp_fs_entry_list_free v_items v_capacity
  by unfold_locales
    (auto simp: crimp_fs_entry_list_init_def crimp_fs_entry_list_add_def
      crimp_fs_entry_list_free_def vec_add_room vec_add_amortised)

lemma entry_list_free_init [simp]: "crimp_fs_entry_list_free l = crimp_fs_entry_list_init"
  by (simp add: crimp_fs_entry_list_free_def crimp_fs_entry_list_init_def vec_free_def)

section \<open>The child path buffer\<close>

text \<open>
  \<open>char child_path[1024]\<close>: the name alone at the root, \<open>parent/name\<close> below it,
  and a refusal (never a cut) when it does not fit.
\<close>

definition child_path_of :: "string \<Rightarrow> string \<Rightarrow> string option" where
  "child_path_of parent_path name =
     (let s = (if parent_path = [] then name else path_join parent_path name)
      in if length s \<ge> 1024 then None else Some s)"

section \<open>Walk state and the record-and-write step\<close>

record wstate =
  ws_entries :: "crimp_fs_entry_list"
  ws_disk :: disk

text \<open>The write itself: a directory, a regular file, or nothing for the other types.\<close>

definition publish_write ::
  "bool \<Rightarrow> bool \<Rightarrow> (string \<Rightarrow> disk \<Rightarrow> bool \<times> disk) \<Rightarrow> string \<Rightarrow> disk \<Rightarrow> bool \<times> disk" where
  "publish_write is_dir is_reg w p d =
     (if is_dir then crimp_fs_make_directory p d else if is_reg then w p d else (True, d))"

text \<open>
  The tail of \<open>process_dir_entry\<close> (squashfs.c, cramfs.c) and \<open>visit_child\<close>
  (jffs2.c): append the entry, then, when extracting, create the directory or
  write the regular file at \<open>output_dir/child_path\<close> (a 1280-byte buffer); other
  entry types are listed only.
\<close>

definition publish_entry ::
  "string option \<Rightarrow> string \<Rightarrow> bool \<Rightarrow> bool \<Rightarrow> u64 \<Rightarrow> (string \<Rightarrow> disk \<Rightarrow> bool \<times> disk) \<Rightarrow>
   wstate \<Rightarrow> unit option \<times> wstate" where
  "publish_entry output_dir child_path is_dir is_reg sz w st =
     (let st1 = st\<lparr>ws_entries :=
            crimp_fs_entry_list_add (ws_entries st) child_path is_dir (if is_dir then 0 else sz)\<rparr>
      in case output_dir of
           None \<Rightarrow> (Some (), st1)
         | Some od \<Rightarrow>
             (case crimp_fs_join_output_path od child_path 1280 of
                None \<Rightarrow> (None, st1)
              | Some disk_path \<Rightarrow>
                  (case publish_write is_dir is_reg w disk_path (ws_disk st1) of
                     (ok, d') \<Rightarrow> (if ok then Some () else None, st1\<lparr>ws_disk := d'\<rparr>))))"


section \<open>Laws of the decoders\<close>

definition encode_u32 :: "u32 \<Rightarrow> bool \<Rightarrow> byte list" where
  "encode_u32 w big_endian =
     (let le = [ucast w, ucast (drop_bit 8 w), ucast (drop_bit 16 w), ucast (drop_bit 24 w)]
      in if big_endian then rev le else le)"

definition encode_u16 :: "u16 \<Rightarrow> bool \<Rightarrow> byte list" where
  "encode_u16 w big_endian =
     (let le = [ucast w, ucast (drop_bit 8 w)] in if big_endian then rev le else le)"

lemma decode_encode_u32: "crimp_fs_decode_u32 (encode_u32 w be) be = w"
proof (rule bit_word_eqI)
  fix n :: nat
  assume "n < LENGTH(32)"
  then show "bit (crimp_fs_decode_u32 (encode_u32 w be) be) n = bit w n"
    by (cases "n < 8"; cases "n < 16"; cases "n < 24")
      (auto simp: crimp_fs_decode_u32_def encode_u32_def bit_simps)
qed

lemma decode_encode_u16: "crimp_fs_decode_u16 (encode_u16 w be) be = w"
  by (rule bit_word_eqI) (auto simp: crimp_fs_decode_u16_def encode_u16_def bit_simps)

lemma list4E: assumes "length p = 4" obtains a b c d where "p = [a, b, c, d]"
  using assms by (auto simp: length_Suc_conv numeral_eq_Suc)

lemma list2E: assumes "length p = 2" obtains a b where "p = [a, b]"
  using assms by (auto simp: length_Suc_conv numeral_eq_Suc)

lemma byte_bit_high [simp]: "8 \<le> n \<Longrightarrow> \<not> bit (b :: byte) n"
  by (auto dest: bit_imp_le_length)

lemma decode_u16_inverse: "length p = 2 \<Longrightarrow> encode_u16 (crimp_fs_decode_u16 p be) be = p"
  by (erule list2E; cases be)
   (auto simp: encode_u16_def crimp_fs_decode_u16_def Let_def bit_simps intro!: bit_word_eqI
    dest: bit_imp_le_length)

lemma decode_u32_inverse: "length p = 4 \<Longrightarrow> encode_u32 (crimp_fs_decode_u32 p be) be = p"
  by (erule list4E; cases be)
   (auto simp: encode_u32_def crimp_fs_decode_u32_def Let_def bit_simps intro!: bit_word_eqI
    dest: bit_imp_le_length)

lemma decode_u32_append: "length p = 4 \<Longrightarrow> crimp_fs_decode_u32 (p @ q) be = crimp_fs_decode_u32 p be"
  by (simp add: crimp_fs_decode_u32_def nth_append)

lemma length_encode_u32 [simp]: "length (encode_u32 w be) = 4"
  by (simp add: encode_u32_def Let_def)

lemma decode_u16_append: "length p = 2 \<Longrightarrow> crimp_fs_decode_u16 (p @ q) be = crimp_fs_decode_u16 p be"
  by (simp add: crimp_fs_decode_u16_def nth_append)

lemma length_encode_u16 [simp]: "length (encode_u16 w be) = 2"
  by (simp add: encode_u16_def Let_def)

lemma decode_u16_take: "2 \<le> n \<Longrightarrow> crimp_fs_decode_u16 (take n p) be = crimp_fs_decode_u16 p be"
  by (simp add: crimp_fs_decode_u16_def)

lemma decode_u32_take: "4 \<le> n \<Longrightarrow> crimp_fs_decode_u32 (take n p) be = crimp_fs_decode_u32 p be"
  by (simp add: crimp_fs_decode_u32_def)

section \<open>Laws of entry names and relative paths\<close>

text \<open>A relative path is safe when each of its components is.\<close>

fun split_slash :: "string \<Rightarrow> string list" where
  "split_slash [] = [[]]"
| "split_slash (c # cs) =
     (if c = CHR ''/'' then [] # split_slash cs
      else (case split_slash cs of [] \<Rightarrow> [[c]] | w # ws \<Rightarrow> (c # w) # ws))"

lemma split_slash_nonempty [simp]: "split_slash s \<noteq> []"
  by (induction s) (auto split: list.splits)

lemma split_slash_plain: "CHR ''/'' \<notin> set n \<Longrightarrow> split_slash n = [n]"
  by (induction n) auto

lemma split_slash_join: "split_slash (path_join p q) = split_slash p @ split_slash q"
  unfolding path_join_def by (induction p) (auto split: list.splits)

definition safe_rel :: "string \<Rightarrow> bool" where
  "safe_rel rel \<longleftrightarrow> list_all crimp_fs_path_component_is_safe (split_slash rel)"

lemma safe_component_iff:
  "crimp_fs_path_component_is_safe n \<longleftrightarrow>
     n \<noteq> [] \<and> n \<noteq> ''.'' \<and> n \<noteq> ''..'' \<and>
     {CHR ''/'', CHR 0x5C, CHR '':'', CHR 0x00} \<inter> set n = {} \<and>
     map ascii_lower (takeWhile (\<lambda>c. c \<noteq> CHR ''.'') n) \<notin> set WINDOWS_RESERVED_NAMES"

proof -
  have resv: "is_windows_reserved_name n \<longleftrightarrow>
      map ascii_lower (takeWhile (\<lambda>c. c \<noteq> CHR ''.'') n) \<in> set WINDOWS_RESERVED_NAMES"
    (is "_ \<longleftrightarrow> ?m \<in> _")
  proof -
    let ?b = "takeWhile (\<lambda>c. c \<noteq> CHR ''.'') n"
    have m: "reserved_match n (length ?b) r \<longleftrightarrow> ?m = r" for r
      unfolding list_eq_iff_nth_eq [of ?m r]
      by (auto simp: reserved_match_def list_all_iff takeWhile_nth)
    have "\<forall>r \<in> set WINDOWS_RESERVED_NAMES. 0 < length r \<and> length r \<le> 4"
      by (simp add: WINDOWS_RESERVED_NAMES_def)
    then have "?m \<in> set WINDOWS_RESERVED_NAMES \<Longrightarrow> 0 < length ?b \<and> length ?b \<le> 4"
      by (metis length_map)
    then show ?thesis
      by (auto simp: is_windows_reserved_name_def Let_def list_ex_iff m)
  qed
  have one: "length n = 1 \<and> n ! 0 = CHR ''.'' \<longleftrightarrow> n = ''.''"
    by (auto simp: length_Suc_conv)
  have two: "length n = 2 \<and> n ! 0 = CHR ''.'' \<and> n ! 1 = CHR ''.'' \<longleftrightarrow> n = ''..''"
    by (cases n rule: remdups_adj.cases) auto
  have bad: "list_ex (\<lambda>c. c = CHR ''/'' \<or> c = CHR 0x5C \<or> c = CHR '':'' \<or> c = CHR 0x00) n \<longleftrightarrow>
     {CHR ''/'', CHR 0x5C, CHR '':'', CHR 0x00} \<inter> set n \<noteq> {}"
    by (auto simp: list_ex_iff)
  show ?thesis
    unfolding crimp_fs_path_component_is_safe_def resv one two bad length_0_conv by argo
qed

text \<open>
  Where a path leads once \<open>.\<close>, \<open>..\<close> and empty components are resolved, starting
  from the components already walked.
\<close>

fun resolve_dots :: "string list \<Rightarrow> string list \<Rightarrow> string list" where
  "resolve_dots at [] = at"
| "resolve_dots at (c # cs) =
     (if c = [] \<or> c = ''.'' then resolve_dots at cs
      else if c = ''..'' then resolve_dots (butlast at) cs
      else resolve_dots (at @ [c]) cs)"

lemma resolve_dots_append: "resolve_dots at (xs @ ys) = resolve_dots (resolve_dots at xs) ys"
  by (induction at xs rule: resolve_dots.induct) auto

lemma resolve_dots_safe:
  "list_all crimp_fs_path_component_is_safe cs \<Longrightarrow> resolve_dots at cs = at @ cs"
  by (induction cs arbitrary: at) (auto simp: safe_component_iff)

lemma safe_rel_stays_inside:
  "safe_rel rel \<Longrightarrow>
     resolve_dots [] (split_slash (path_join od rel)) = resolve_dots [] (split_slash od) @ split_slash rel"
  by (simp add: split_slash_join resolve_dots_append resolve_dots_safe safe_rel_def)

lemma safe_component_no_slash: "crimp_fs_path_component_is_safe n \<Longrightarrow> CHR ''/'' \<notin> set n"
  by (auto simp: safe_component_iff)

lemma safe_rel_component: "crimp_fs_path_component_is_safe n \<Longrightarrow> safe_rel n"
  by (simp add: safe_rel_def split_slash_plain safe_component_no_slash)

lemma safe_rel_join:
  "safe_rel p \<Longrightarrow> crimp_fs_path_component_is_safe n \<Longrightarrow> safe_rel (path_join p n)"
  by (simp add: safe_rel_def split_slash_join split_slash_plain safe_component_no_slash)

text \<open>The parent argument of the walkers: empty at the root, a safe path below it.\<close>

definition safe_parent :: "string \<Rightarrow> bool" where
  "safe_parent p \<longleftrightarrow> p = [] \<or> safe_rel p"

lemma child_path_safe:
  "safe_parent parent \<Longrightarrow> crimp_fs_path_component_is_safe name \<Longrightarrow>
     child_path_of parent name = Some p \<Longrightarrow> safe_rel p \<and> length p < 1024"
  by (auto simp: child_path_of_def safe_parent_def Let_def safe_rel_component safe_rel_join
      split: if_splits)

end
