(* ===== verification/ImageTree.thy ===== *)
theory ImageTree
  imports FsUtil
begin

text \<open>
  What the three extractors share: how far a walk reaches into the disk
  (\<open>contained\<close>), that directories stay under directories (\<open>disk_wf\<close>), what tree a
  successful walk leaves (\<open>tree_built\<close>), the contract of the routine that writes one
  regular file (\<open>content_writer\<close>), the contract of a whole reader
  (\<open>fs_extractor\<close>) as the dispatcher relies on it, and how a reader that parses an
  image and walks it (\<open>walk_reader\<close>) comes to keep that contract.
\<close>

section \<open>Containment\<close>

text \<open>The paths at which two disks differ.\<close>

definition changed :: "disk \<Rightarrow> disk \<Rightarrow> string set" where
  "changed d d' = {p. lookup d' p \<noteq> lookup d p}"

definition inside :: "string \<Rightarrow> string set" where
  "inside od = {path_join od rel | rel. safe_rel rel}"

text \<open>
  The walk invariant: every listed path is safe, and nothing on the disk has
  changed but safe paths under the output directory (nothing at all when listing).
\<close>

definition contained :: "string option \<Rightarrow> disk \<Rightarrow> wstate \<Rightarrow> bool" where
  "contained output_dir d0 st \<longleftrightarrow>
     (\<forall>e \<in> set (v_items (ws_entries st)). safe_rel (e_path e)) \<and>
     (case output_dir of None \<Rightarrow> ws_disk st = d0
      | Some od \<Rightarrow> changed d0 (ws_disk st) \<subseteq> inside od)"

lemma changed_refl [simp]: "changed d d = {}"
  by (simp add: changed_def)

lemma changed_trans: "changed a b \<subseteq> S \<Longrightarrow> changed b c \<subseteq> S \<Longrightarrow> changed a c \<subseteq> S"
  unfolding changed_def subset_iff mem_Collect_eq by metis

lemma fwrite_changed: "changed d (sys_fwrite h bs d) \<subseteq> {h}"
  unfolding changed_def using lookup_fwrite_other by fastforce

lemma remove_changed: "changed d (sys_remove p d) \<subseteq> {p}"
  unfolding changed_def using lookup_remove_other by fastforce

lemma make_directory_changed: "changed d (snd (crimp_fs_make_directory p d)) \<subseteq> {p}"
  by (auto simp: crimp_fs_make_directory_def changed_def sys_mkdir_def split: option.splits if_splits)

lemma make_directory_True:
  "crimp_fs_make_directory p d = (True, d') \<Longrightarrow> lookup d' p = Some Directory"
  by (auto simp: crimp_fs_make_directory_def sys_mkdir_def crimp_fs_path_is_existing_directory_def
      split: option.splits if_splits)

lemma contained_root: "contained (Some od) d st \<Longrightarrow> lookup (ws_disk st) od = lookup d od"
  by (auto simp: contained_def changed_def inside_def)

lemma inside_below: "q \<in> inside od \<Longrightarrow> below od q"
  by (auto simp: inside_def)

lemma fopen_rb_plain: "lookup d p = Some (RegFile f) \<Longrightarrow> fopen_rb p d = Some f"
  by (simp add: fopen_rb_def stat_node_def MAX_LINKS_def resolve_not_link [of d p 39, simplified])

text \<open>What one record-and-write step does to the list and to the disk.\<close>

lemma publish_entries [simp]:
  "v_items (ws_entries (snd (publish_entry od child is_dir is_reg sz w st))) =
     v_items (ws_entries st) @
       [\<lparr>e_path = child, e_is_dir = is_dir, e_size = (if is_dir then 0 else sz)\<rparr>]"
  by (simp add: publish_entry_def Let_def crimp_fs_entry_list_add_def
      split: option.split prod.split)

lemma publish_disk:
  "ws_disk (snd (publish_entry None child is_dir is_reg sz w st)) = ws_disk st"
  "ws_disk (snd (publish_entry (Some od) child is_dir is_reg sz w st)) =
     (if 1280 \<le> length (path_join od child) then ws_disk st
      else snd (publish_write is_dir is_reg w (path_join od child) (ws_disk st)))"
  by (simp_all add: publish_entry_def publish_write_def Let_def crimp_fs_join_output_path_def
      split: prod.split)

lemma publish_result:
  "fst (publish_entry None child is_dir is_reg sz w st) = Some ()"
  "fst (publish_entry (Some od) child is_dir is_reg sz w st) =
     (if length (path_join od child) < 1280 \<and>
         fst (publish_write is_dir is_reg w (path_join od child) (ws_disk st))
      then Some () else None)"
  by (simp_all add: publish_entry_def publish_write_def Let_def crimp_fs_join_output_path_def
      split: prod.split)

section \<open>Directories stay under directories\<close>

text \<open>Every node of the disk is at a path where it could be created.\<close>

definition disk_wf :: "disk \<Rightarrow> bool" where
  "disk_wf d \<longleftrightarrow> (\<forall>q. lookup d q \<noteq> None \<longrightarrow> parent_ok d q)"

lemma parent_of_shorter: "parent_of p = Some q \<Longrightarrow> length q < length p"
proof -
  assume a: "parent_of p = Some q"
  then have i: "CHR ''/'' \<in> set p" and q: "q = rev (tl (dropWhile (\<lambda>c. c \<noteq> CHR ''/'') (rev p)))"
    by (auto simp: parent_of_def split: if_splits)
  have "dropWhile (\<lambda>c. c \<noteq> CHR ''/'') (rev p) \<noteq> []" using i by (auto simp: dropWhile_eq_Nil_conv)
  then have "length q < length (dropWhile (\<lambda>c. c \<noteq> CHR ''/'') (rev p))" unfolding q by (cases "dropWhile (\<lambda>c. c \<noteq> CHR ''/'') (rev p)") auto
  also have "\<dots> \<le> length p" using length_dropWhile_le [of _ "rev p"] by simp
  finally show ?thesis .
qed

text \<open>
  A change at one path keeps the disk well formed when it creates only under a directory
  and takes no directory away.
\<close>

lemma disk_wf_change:
  assumes "disk_wf d" and "changed d d' \<subseteq> {p}"
    and "lookup d p = Some Directory \<Longrightarrow> lookup d' p = Some Directory"
    and "lookup d' p \<noteq> None \<Longrightarrow> lookup d p = None \<Longrightarrow> parent_ok d p"
  shows "disk_wf d'"
proof -
  have same: "lookup d' q = lookup d q" if "q \<noteq> p" for q using assms(2) that by (auto simp: changed_def)
  have dirs: "lookup d' q = Some Directory" if "lookup d q = Some Directory" for q
    using assms(3) same [of q] that by (cases "q = p") auto
  have mono: "parent_ok d' q" if "parent_ok d q" for q
    using that dirs by (auto simp: parent_ok_def split: option.splits)
  have "parent_ok d q" if "lookup d' q \<noteq> None" for q
    using assms(1,4) same [of q] that unfolding disk_wf_def by (cases "q = p"; cases "lookup d q") auto
  then show ?thesis unfolding disk_wf_def using mono by blast
qed

lemma disk_wf_make_directory: "disk_wf d \<Longrightarrow> disk_wf (snd (crimp_fs_make_directory p d))"
  by (rule disk_wf_change [OF _ make_directory_changed])
    (auto simp: crimp_fs_make_directory_def sys_mkdir_def split: if_splits)

section \<open>The tree a walk builds\<close>

text \<open>
  What a directory entry of an image asks for: a directory, a regular file with its
  content (None when it cannot be decoded), or something that is listed only.
\<close>

datatype item_kind = DirItem | RegItem "byte list option" | OtherItem

record fs_item =
  it_path :: string
  it_size :: u64
  it_kind :: item_kind

definition walk_item :: "string \<Rightarrow> bool \<Rightarrow> bool \<Rightarrow> u64 \<Rightarrow> byte list option \<Rightarrow> fs_item" where
  "walk_item path is_dir is_reg sz content =
     \<lparr>it_path = path, it_size = sz,
      it_kind = (if is_dir then DirItem else if is_reg then RegItem content else OtherItem)\<rparr>"

definition item_entry :: "fs_item \<Rightarrow> crimp_fs_entry" where
  "item_entry it = \<lparr>e_path = it_path it, e_is_dir = (it_kind it = DirItem),
     e_size = (if it_kind it = DirItem then 0 else it_size it)\<rparr>"

text \<open>
  An item is on the disk: a directory as a directory, a regular file as a regular file
  with the content of an item of the same path (the last of them when an image names a
  file twice).
\<close>

definition item_on_disk :: "string \<Rightarrow> fs_item list \<Rightarrow> disk \<Rightarrow> fs_item \<Rightarrow> bool" where
  "item_on_disk od items d it =
     (case it_kind it of
        DirItem \<Rightarrow> lookup d (path_join od (it_path it)) = Some Directory
      | RegItem _ \<Rightarrow> (\<exists>it' bs. it' \<in> set items \<and> it_path it' = it_path it \<and> it_kind it' = RegItem (Some bs) \<and>
           lookup d (path_join od (it_path it)) = Some (RegFile bs))
      | OtherItem \<Rightarrow> True)"

definition tree_built :: "string \<Rightarrow> fs_item list \<Rightarrow> disk \<Rightarrow> disk \<Rightarrow> bool" where
  "tree_built od items d0 d \<longleftrightarrow>
     changed d0 d \<subseteq> {path_join od (it_path it) | it. it \<in> set items \<and> it_kind it \<noteq> OtherItem} \<and>
     (\<forall>it \<in> set items. item_on_disk od items d it \<and> length (path_join od (it_path it)) < 1280)"

text \<open>
  The invariants of a walk. \<open>walk_any\<close> holds also when the walk returns early, \<open>walk_ok\<close>
  as long as it goes on: the entries listed are those of items with \<open>P\<close>, and these have
  been built.
\<close>

definition walk_any :: "string option \<Rightarrow> disk \<Rightarrow> wstate \<Rightarrow> bool" where
  "walk_any output_dir d0 st \<longleftrightarrow>
     contained output_dir d0 st \<and> (disk_wf d0 \<longrightarrow> disk_wf (ws_disk st))"

definition walk_ok :: "(fs_item \<Rightarrow> bool) \<Rightarrow> string option \<Rightarrow> disk \<Rightarrow> wstate \<Rightarrow> bool" where
  "walk_ok P output_dir d0 st \<longleftrightarrow> walk_any output_dir d0 st \<and>
     (\<exists>items. v_items (ws_entries st) = map item_entry items \<and> list_all P items \<and>
        (case output_dir of None \<Rightarrow> True | Some od \<Rightarrow> tree_built od items d0 (ws_disk st)))"

lemma walk_ok_any: "walk_ok P output_dir d0 st \<Longrightarrow> walk_any output_dir d0 st"
  by (simp add: walk_ok_def)

lemma walk_ok_start: "walk_ok P output_dir d \<lparr>ws_entries = crimp_fs_entry_list_init, ws_disk = d\<rparr>"
  by (auto simp: walk_ok_def walk_any_def contained_def tree_built_def crimp_fs_entry_list_init_def split: option.split)

text \<open>The depth of a path in the image, and what one more component makes of it.\<close>

definition path_at :: "nat \<Rightarrow> string \<Rightarrow> bool" where
  "path_at n p \<longleftrightarrow> (if n = 0 then p = [] else safe_rel p \<and> length (split_slash p) = n)"

lemma path_at_0 [simp]: "path_at 0 []"
  by (simp add: path_at_def)

lemma child_path_at:
  assumes "path_at n parent" and "crimp_fs_path_component_is_safe name" and "child_path_of parent name = Some p"
  shows "path_at (Suc n) p" and "length p < 1024" and "safe_rel p"
proof -
  have p: "p = (if parent = [] then name else path_join parent name)" and l: "length p < 1024"
    using assms(3) by (auto simp: child_path_of_def Let_def split: if_splits)
  have ne: "parent = [] \<longleftrightarrow> n = 0"
    using assms(1) by (auto simp: path_at_def safe_rel_def safe_component_iff split: if_splits)
  have one: "split_slash name = [name]" using assms(2) by (simp add: split_slash_plain safe_component_no_slash)
  show s: "safe_rel p"
    using assms(1,2) ne by (auto simp: p path_at_def safe_rel_component safe_rel_join)
  show "path_at (Suc n) p"
    using assms(1) s ne one by (auto simp: p path_at_def split_slash_join)
  show "length p < 1024" by (rule l)
qed

text \<open>
  What is known of every item a walk lists. Directories are walked to depth 32, so a path
  has at most 33 components; the content of a regular file has the size the entry claims
  (for SquashFS this takes a decompressor that stays within the buffer it is given, which
  is \<open>sized\<close>).
\<close>

definition item_ok :: "bool \<Rightarrow> fs_item \<Rightarrow> bool" where
  "item_ok sized it \<longleftrightarrow>
     safe_rel (it_path it) \<and> length (it_path it) < 1024 \<and> length (split_slash (it_path it)) \<le> 33 \<and>
     (sized \<longrightarrow> (\<forall>bs. it_kind it = RegItem (Some bs) \<longrightarrow> length bs = unat (it_size it)))"

lemma item_ok_walk_item:
  assumes "path_at (Suc n) p" and "n \<le> 32" and "length p < 1024"
    and "\<And>bs. sized \<Longrightarrow> content = Some bs \<Longrightarrow> is_reg \<Longrightarrow> length bs = unat sz"
  shows "item_ok sized (walk_item p is_dir is_reg sz content)"
  using assms by (auto simp: item_ok_def walk_item_def path_at_def)

abbreviation walks :: "bool \<Rightarrow> string option \<Rightarrow> disk \<Rightarrow> (wstate \<Rightarrow> 'a option \<times> wstate) \<Rightarrow> bool" where
  "walks sized output_dir d0 \<equiv> keeps (walk_ok (item_ok sized) output_dir d0) (walk_any output_dir d0)"

text \<open>
  An extraction that made its output directory and walked the image: what it changed,
  and, when the walk went through, what it built.
\<close>

lemma walks_outcome:
  assumes "walks sized (Some od) d1 w" and "crimp_fs_make_directory od d = (True, d1)"
    and "w \<lparr>ws_entries = crimp_fs_entry_list_init, ws_disk = d1\<rparr> = (r, st)"
  shows "changed d (ws_disk st) \<subseteq> insert od (inside od)"
    and "lookup (ws_disk st) od = Some Directory"
    and "e_path ` set (v_items (ws_entries st)) \<subseteq> Collect safe_rel"
    and "disk_wf d \<Longrightarrow> disk_wf (ws_disk st)"
    and "r = Some a \<Longrightarrow> \<exists>items. v_items (ws_entries st) = map item_entry items \<and>
           list_all (item_ok sized) items \<and> tree_built od items d1 (ws_disk st)"
proof -
  note run = keepsD [OF assms(1) walk_ok_start]
  have any: "walk_any (Some od) d1 st"
    using run assms(3) walk_ok_any by (cases r) (blast, blast)
  then have c: "contained (Some od) d1 st" and wf: "disk_wf d1 \<longrightarrow> disk_wf (ws_disk st)"
    by (simp_all add: walk_any_def)
  have "changed d d1 \<subseteq> insert od (inside od)" using make_directory_changed [of d od] assms(2) by auto
  moreover have "changed d1 (ws_disk st) \<subseteq> insert od (inside od)" using c by (auto simp: contained_def)
  ultimately show "changed d (ws_disk st) \<subseteq> insert od (inside od)" by (rule changed_trans)
  show "lookup (ws_disk st) od = Some Directory"
    using contained_root [OF c] make_directory_True [OF assms(2)] by simp
  show "e_path ` set (v_items (ws_entries st)) \<subseteq> Collect safe_rel" using c by (auto simp: contained_def)
  show "disk_wf d \<Longrightarrow> disk_wf (ws_disk st)" using wf disk_wf_make_directory [of d od] assms(2) by simp
  show "r = Some a \<Longrightarrow> \<exists>items. v_items (ws_entries st) = map item_entry items \<and>
           list_all (item_ok sized) items \<and> tree_built od items d1 (ws_disk st)"
    using run(1) assms(3) by (auto simp: walk_ok_def)
qed

text \<open>
  What the record-and-write step needs of the routine that writes a regular file:
  it touches nothing but the path it is given, it leaves there a regular file with the
  content when it succeeds, and what was there or nothing when it fails; it creates
  only under a directory, never replaces a directory and never follows a link; where it
  can write, the content alone decides whether it succeeds.
\<close>

locale content_writer =
  fixes writer :: "string \<Rightarrow> disk \<Rightarrow> bool \<times> disk"
    and content :: "byte list option"
  assumes frame: "changed d (snd (writer p d)) \<subseteq> {p}"
    and written: "writer p d = (True, d') \<Longrightarrow>
          \<exists>bs. content = Some bs \<and> lookup d' p = Some (RegFile bs)"
    and opened: "writer p d = (True, d') \<Longrightarrow> fopen_wb p d \<noteq> None"
    and cleaned: "writer p d = (False, d') \<Longrightarrow>
          lookup d' p = lookup d p \<or> lookup d' p = None \<and> fopen_wb p d \<noteq> None"
    and no_link: "writer p d = (True, d') \<Longrightarrow> \<not> crimp_fs_path_is_symlink d p"
    and decided: "\<not> crimp_fs_path_is_symlink d p \<Longrightarrow> fopen_wb p d \<noteq> None \<Longrightarrow>
          fst (writer p d) = (content \<noteq> None)"
begin

lemma not_over_directory: "fopen_wb p d \<noteq> None \<Longrightarrow> lookup d p \<noteq> Some Directory"
  by (auto simp: fopen_wb_def MAX_LINKS_def resolve_not_link [of d p 39, simplified])

lemma created_under_directory: "fopen_wb p d \<noteq> None \<Longrightarrow> lookup d p = None \<Longrightarrow> parent_ok d p"
  by (auto simp: fopen_wb_def MAX_LINKS_def resolve_not_link [of d p 39, simplified] split: if_splits)

lemma directory_kept: "lookup d p = Some Directory \<Longrightarrow> lookup (snd (writer p d)) p = Some Directory"
  using opened [of p d] cleaned [of p d] not_over_directory [of p d] by (cases "writer p d"; cases "fst (writer p d)") auto

lemma writer_wf: "disk_wf d \<Longrightarrow> disk_wf (snd (writer p d))"
proof (rule disk_wf_change [OF _ frame])
  show "lookup (snd (writer p d)) p = Some Directory" if "lookup d p = Some Directory"
    using that by (rule directory_kept)
  show "parent_ok d p" if "lookup (snd (writer p d)) p \<noteq> None" "lookup d p = None"
    using that opened [of p d] cleaned [of p d] created_under_directory [of p d]
    by (cases "writer p d"; cases "fst (writer p d)") auto
qed

lemma publish_write_frame: "changed d (snd (publish_write is_dir is_reg writer p d)) \<subseteq> {p}"
  using make_directory_changed frame by (simp add: publish_write_def)

lemma publish_write_wf: "disk_wf d \<Longrightarrow> disk_wf (snd (publish_write is_dir is_reg writer p d))"
  using disk_wf_make_directory writer_wf by (simp add: publish_write_def)

lemma publish_any:
  assumes "safe_rel child" and "walk_any output_dir d0 st"
  shows "walk_any output_dir d0 (snd (publish_entry output_dir child is_dir is_reg sz writer st))"
proof -
  let ?st = "snd (publish_entry output_dir child is_dir is_reg sz writer st)"
  have entries: "\<forall>e \<in> set (v_items (ws_entries ?st)). safe_rel (e_path e)"
    using assms by (auto simp: contained_def walk_any_def)
  show ?thesis
  proof (cases output_dir)
    case None
    with assms entries show ?thesis by (simp add: walk_any_def contained_def publish_disk)
  next
    case (Some od)
    have here: "changed d0 (ws_disk st) \<subseteq> inside od"
      using assms Some by (simp add: contained_def walk_any_def)
    have "changed (ws_disk st) (ws_disk ?st) \<subseteq> inside od"
      using publish_write_frame [of "ws_disk st" is_dir is_reg "path_join od child"] assms
      by (auto simp: Some publish_disk inside_def)
    then have "changed d0 (ws_disk ?st) \<subseteq> inside od"
      by (rule changed_trans [OF here])
    moreover have "disk_wf (ws_disk ?st)" if "disk_wf (ws_disk st)"
      using that publish_write_wf by (simp add: Some publish_disk)
    ultimately show ?thesis using assms(2) entries Some by (simp add: walk_any_def contained_def)
  qed
qed

text \<open>A step that succeeds adds its item to what is built.\<close>

lemma publish_built:
  assumes "tree_built od items d0 d" and "length (path_join od child) < 1280"
    and "publish_write is_dir is_reg writer (path_join od child) d = (True, d')"
  shows "tree_built od (items @ [walk_item child is_dir is_reg sz content]) d0 d'"
proof -
  let ?p = "path_join od child" and ?it = "walk_item child is_dir is_reg sz content"
  have fr: "changed d d' \<subseteq> {?p}"
    using publish_write_frame [of d is_dir is_reg ?p] assms(3) by simp
  have new: "item_on_disk od (items @ [?it]) d' ?it"
    using assms(3) make_directory_True written
    by (fastforce simp: item_on_disk_def walk_item_def publish_write_def split: if_splits)
  have same: "d' = d" if "\<not> is_dir" "\<not> is_reg" using assms(3) that by (simp add: publish_write_def)
  have old: "item_on_disk od (items @ [?it]) d' it" if it: "it \<in> set items" "item_on_disk od items d it" for it
  proof (cases "it_path it = child \<and> (is_dir \<or> is_reg)")
    case False
    then have "lookup d' (path_join od (it_path it)) = lookup d (path_join od (it_path it))"
      using fr same by (cases "is_dir \<or> is_reg") (auto simp: changed_def)
    with it show ?thesis by (auto simp: item_on_disk_def split: item_kind.splits)
  next
    case True
    show ?thesis
    proof (cases is_dir)
      case d: True
      then have dir: "lookup d' ?p = Some Directory"
        using assms(3) make_directory_True by (simp add: publish_write_def)
      moreover have "\<not> (\<exists>bs. lookup d ?p = Some (RegFile bs))"
        using assms(3) d by (auto simp: publish_write_def crimp_fs_make_directory_def sys_mkdir_def
            crimp_fs_path_is_existing_directory_def)
      ultimately show ?thesis using True it(2) by (auto simp: item_on_disk_def split: item_kind.splits)
    next
      case nd: False
      then have w: "writer ?p d = (True, d')" "is_reg" using assms(3) True by (simp_all add: publish_write_def)
      then have "lookup d ?p \<noteq> Some Directory" using opened not_over_directory by blast
      moreover obtain bs where "content = Some bs" "lookup d' ?p = Some (RegFile bs)" using written [OF w(1)] by blast
      ultimately show ?thesis
        using True it(2) nd w(2) by (auto simp: item_on_disk_def walk_item_def split: item_kind.splits)
    qed
  qed
  have "changed d0 d' \<subseteq> {path_join od (it_path it) | it. it \<in> set (items @ [?it]) \<and> it_kind it \<noteq> OtherItem}"
  proof (rule changed_trans)
    show "changed d0 d \<subseteq> {path_join od (it_path it) | it. it \<in> set (items @ [?it]) \<and> it_kind it \<noteq> OtherItem}"
      using assms(1) by (auto simp: tree_built_def)
    show "changed d d' \<subseteq> {path_join od (it_path it) | it. it \<in> set (items @ [?it]) \<and> it_kind it \<noteq> OtherItem}"
    proof (cases "is_dir \<or> is_reg")
      case True
      then have "?p = path_join od (it_path ?it) \<and> ?it \<in> set (items @ [?it]) \<and> it_kind ?it \<noteq> OtherItem"
        by (auto simp: walk_item_def)
      with fr show ?thesis by blast
    qed (use same in simp)
  qed
  with assms(1,2) new old show ?thesis by (auto simp: tree_built_def) (simp_all add: walk_item_def)
qed

lemma publish_walk:
  assumes "safe_rel child" and "P (walk_item child is_dir is_reg sz content)"
  shows "keeps (walk_ok P output_dir d0) (walk_any output_dir d0)
    (publish_entry output_dir child is_dir is_reg sz writer)"
proof (rule keepsI)
  let ?m = "publish_entry output_dir child is_dir is_reg sz writer"
  fix st st' assume I: "walk_ok P output_dir d0 st"
  from publish_any [OF assms(1) walk_ok_any [OF I]] have any: "walk_any output_dir d0 (snd (?m st))" .
  then show "?m st = (None, st') \<Longrightarrow> walk_any output_dir d0 st'" by simp
  fix a assume r: "?m st = (Some a, st')"
  obtain items where items: "v_items (ws_entries st) = map item_entry items" "list_all P items"
    "case output_dir of None \<Rightarrow> True | Some od \<Rightarrow> tree_built od items d0 (ws_disk st)"
    using I unfolding walk_ok_def by blast
  let ?it = "walk_item child is_dir is_reg sz content"
  have "v_items (ws_entries st') = map item_entry (items @ [?it])"
    using publish_entries [of output_dir child is_dir is_reg sz writer st] r items(1)
    by (simp add: item_entry_def walk_item_def)
  moreover have "case output_dir of None \<Rightarrow> True | Some od \<Rightarrow> tree_built od (items @ [?it]) d0 (ws_disk st')"
  proof (cases output_dir)
    case (Some od)
    then have ok: "length (path_join od child) < 1280" "fst (publish_write is_dir is_reg writer (path_join od child) (ws_disk st))"
      and d: "ws_disk st' = snd (publish_write is_dir is_reg writer (path_join od child) (ws_disk st))"
      using publish_result(2) [of od child is_dir is_reg sz writer st]
        publish_disk(2) [of od child is_dir is_reg sz writer st] r by (auto split: if_splits)
    then have "publish_write is_dir is_reg writer (path_join od child) (ws_disk st) = (True, ws_disk st')"
      by (metis (full_types) prod.collapse)
    with publish_built [OF _ ok(1) this] items(3) Some show ?thesis by simp
  qed simp
  ultimately show "walk_ok P output_dir d0 st'"
    using any r items(2) assms(2) unfolding walk_ok_def by (intro conjI exI [of _ "items @ [?it]"]) simp_all
qed

end

section \<open>Two runs of a walk\<close>

text \<open>
  When the first run goes on, so does the second, with the same value, and the two
  states stay related. Listing visits what extraction visits (the same entries), and a
  second extraction does what the first did (the same entries, and the same nodes in the
  output directory).
\<close>

definition runs_as :: "(wstate \<Rightarrow> wstate \<Rightarrow> bool) \<Rightarrow> ('a option \<times> wstate) \<Rightarrow> ('a option \<times> wstate) \<Rightarrow> bool" where
  "runs_as R x y \<longleftrightarrow> (fst x \<noteq> None \<longrightarrow> fst y = fst x \<and> R (snd x) (snd y))"

lemma runs_as_sbind:
  assumes "runs_as R (m s) (n t)"
    and "\<And>a s' t'. m s = (Some a, s') \<Longrightarrow> R s' t' \<Longrightarrow> runs_as R (k a s') (l a t')"
  shows "runs_as R (sbind m k s) (sbind n l t)"
  using assms by (fastforce simp: runs_as_def sbind_def split: prod.splits option.splits)

lemma runs_as_slift: "R s t \<Longrightarrow> runs_as R (slift r s) (slift r t)"
  by (simp add: runs_as_def slift_def)

lemma runs_as_stop [simp]: "runs_as R (None, s) y"
  by (simp add: runs_as_def)

definition same_entries :: "wstate \<Rightarrow> wstate \<Rightarrow> bool" where
  "same_entries s t \<longleftrightarrow> ws_entries t = ws_entries s"

lemma publish_lists:
  "same_entries s t \<Longrightarrow> runs_as same_entries (publish_entry (Some od) child is_dir is_reg sz w s)
     (publish_entry None child is_dir is_reg sz w' t)"
  by (auto simp: runs_as_def same_entries_def publish_entry_def Let_def split: option.split prod.split)

definition same_under :: "string \<Rightarrow> wstate \<Rightarrow> wstate \<Rightarrow> bool" where
  "same_under od s t \<longleftrightarrow> ws_entries t = ws_entries s \<and>
     (\<forall>q. at_or_below od q \<longrightarrow> lookup (ws_disk t) q = lookup (ws_disk s) q)"

lemma make_directory_again:
  assumes "crimp_fs_make_directory p d = (True, d1)" and "lookup d2 p = lookup d p" and "parent_ok d2 p = parent_ok d p"
  obtains d2' where "crimp_fs_make_directory p d2 = (True, d2')" and "lookup d2' p = lookup d1 p"
    and "\<And>q. q \<noteq> p \<Longrightarrow> lookup d2' q = lookup d2 q"
  using assms
  by (auto simp: crimp_fs_make_directory_def sys_mkdir_def crimp_fs_path_is_existing_directory_def split: if_splits)

context content_writer begin

lemma writes_again:
  assumes "writer p d = (True, d1)" and "lookup d2 p = lookup d p" and "parent_ok d2 p = parent_ok d p"
  obtains d2' where "writer p d2 = (True, d2')" and "lookup d2' p = lookup d1 p"
    and "\<And>q. q \<noteq> p \<Longrightarrow> lookup d2' q = lookup d2 q"
proof -
  have plain: "\<not> crimp_fs_path_is_symlink d p" and c: "content \<noteq> None"
    using no_link [OF assms(1)] written [OF assms(1)] by auto
  then have plain2: "\<not> crimp_fs_path_is_symlink d2 p"
    using assms(2) by (simp add: crimp_fs_path_is_symlink_def)
  have "\<forall>t. lookup d p \<noteq> Some (SymLink t)" using plain by (auto simp: crimp_fs_path_is_symlink_def)
  from fopen_wb_decided [OF assms(2,3) this] have "fopen_wb p d2 \<noteq> None" using opened [OF assms(1)] by simp
  with decided [OF plain2] c have "fst (writer p d2)" by simp
  then obtain d2' where w: "writer p d2 = (True, d2')" by (cases "writer p d2") auto
  have "lookup d2' p = lookup d1 p" using written [OF w] written [OF assms(1)] by auto
  moreover have "lookup d2' q = lookup d2 q" if "q \<noteq> p" for q
    using frame [of d2 p] w that by (auto simp: changed_def)
  ultimately show ?thesis using w that by blast
qed

lemma publish_again:
  assumes "same_under od s t"
  shows "runs_as (same_under od) (publish_entry (Some od) child is_dir is_reg sz writer s)
    (publish_entry (Some od) child is_dir is_reg sz writer t)"
proof (cases "fst (publish_entry (Some od) child is_dir is_reg sz writer s) = None")
  case False
  let ?p = "path_join od child"
  have region: "\<And>q. at_or_below od q \<Longrightarrow> lookup (ws_disk t) q = lookup (ws_disk s) q"
    using assms by (simp add: same_under_def)
  have len: "length ?p < 1280" and ok: "fst (publish_write is_dir is_reg writer ?p (ws_disk s))"
    using False publish_result(2) [of od child is_dir is_reg sz writer s] by (auto split: if_splits)
  then obtain d1 where d1: "publish_write is_dir is_reg writer ?p (ws_disk s) = (True, d1)"
    by (cases "publish_write is_dir is_reg writer ?p (ws_disk s)") auto
  have here: "lookup (ws_disk t) ?p = lookup (ws_disk s) ?p" using region by (simp add: at_or_below_def)
  have par: "parent_ok (ws_disk t) ?p = parent_ok (ws_disk s) ?p" by (rule parent_ok_below [OF region])
  have fr: "changed (ws_disk s) d1 \<subseteq> {?p}" using publish_write_frame [of "ws_disk s" is_dir is_reg ?p] d1 by simp
  have "\<exists>d2. publish_write is_dir is_reg writer ?p (ws_disk t) = (True, d2) \<and> lookup d2 ?p = lookup d1 ?p \<and>
      (\<forall>q. q \<noteq> ?p \<longrightarrow> lookup d2 q = lookup (ws_disk t) q)"
  proof (cases "is_dir \<or> is_reg")
    case True
    then show ?thesis
      using d1 make_directory_again [OF _ here par, of d1] writes_again [OF _ here par, of d1]
      by (cases is_dir) (simp_all add: publish_write_def, blast+)
  qed (use d1 here in \<open>auto simp: publish_write_def\<close>)
  then obtain d2 where d2: "publish_write is_dir is_reg writer ?p (ws_disk t) = (True, d2)" "lookup d2 ?p = lookup d1 ?p"
      "\<And>q. q \<noteq> ?p \<Longrightarrow> lookup d2 q = lookup (ws_disk t) q" by blast
  have same: "lookup d2 q = lookup d1 q" if "at_or_below od q" for q
  proof (cases "q = ?p")
    case False
    then have "lookup d1 q = lookup (ws_disk s) q" using fr unfolding changed_def by blast
    with d2(3) [OF False] region [OF that] show ?thesis by simp
  qed (use d2(2) in simp)
  have e: "ws_entries (snd (publish_entry (Some od) child is_dir is_reg sz writer t)) =
      ws_entries (snd (publish_entry (Some od) child is_dir is_reg sz writer s))"
    using assms by (auto simp: same_under_def publish_entry_def Let_def split: option.split prod.split)
  show ?thesis
    using same e len d1 d2(1) publish_result(2) [of od child is_dir is_reg sz writer]
      publish_disk(2) [of od child is_dir is_reg sz writer]
    by (simp add: runs_as_def same_under_def)
qed (simp add: runs_as_def)

end

lemma symlink_False: "\<not> crimp_fs_path_is_symlink d p \<Longrightarrow> \<forall>t. lookup d p \<noteq> Some (SymLink t)"
  by (auto simp: crimp_fs_path_is_symlink_def)

text \<open>Two extractions that walk the same way from their output directories.\<close>

lemma extract_again:
  assumes "crimp_fs_make_directory od d = (True, d1)" and "w \<lparr>ws_entries = out0, ws_disk = d1\<rparr> = (Some a, st)"
    and region: "\<And>q. at_or_below od q \<Longrightarrow> lookup d2 q = lookup d q" and "parent_ok d2 od = parent_ok d od"
    and walk: "\<And>s t. same_under od s t \<Longrightarrow> runs_as (same_under od) (w s) (w t)"
  obtains e st' where "crimp_fs_make_directory od d2 = (True, e)" and "w \<lparr>ws_entries = out0, ws_disk = e\<rparr> = (Some a, st')"
    and "ws_entries st' = ws_entries st" and "\<And>q. at_or_below od q \<Longrightarrow> lookup (ws_disk st') q = lookup (ws_disk st) q"
proof -
  obtain e where e: "crimp_fs_make_directory od d2 = (True, e)" "lookup e od = lookup d1 od"
      "\<And>q. q \<noteq> od \<Longrightarrow> lookup e q = lookup d2 q"
    using make_directory_again [OF assms(1) _ assms(4)] region by (auto simp: at_or_below_def)
  have fr: "changed d d1 \<subseteq> {od}" using make_directory_changed [of d od] assms(1) by simp
  have "lookup e q = lookup d1 q" if "at_or_below od q" for q
  proof (cases "q = od")
    case False
    then have "lookup d1 q = lookup d q" using fr unfolding changed_def by blast
    with e(3) [OF False] region [OF that] show ?thesis by simp
  qed (use e(2) in simp)
  then have "same_under od \<lparr>ws_entries = out0, ws_disk = d1\<rparr> \<lparr>ws_entries = out0, ws_disk = e\<rparr>"
    by (simp add: same_under_def)
  from walk [OF this] assms(2) obtain st' where "w \<lparr>ws_entries = out0, ws_disk = e\<rparr> = (Some a, st')" "same_under od st st'"
    by (cases "w \<lparr>ws_entries = out0, ws_disk = e\<rparr>") (auto simp: runs_as_def)
  with e(1) show ?thesis by (intro that [of e st']) (simp_all add: same_under_def)
qed

section \<open>The contract of a reader\<close>

text \<open>
  The contract of a filesystem reader, as the dispatcher relies on it: it writes only
  into the directory it is given, leaves a directory there when it succeeds, and does
  nothing at all for an image it does not identify; identification looks at nothing but
  the image; what a successful extraction reports is what it built and what listing
  the image reports, and on another disk with the same output directory it would have
  done the same.
\<close>

locale fs_extractor =
  fixes reader :: "string \<Rightarrow> string \<Rightarrow> disk \<Rightarrow> bool \<times> crimp_fs_entry_list \<times> disk"
    and info :: "disk \<Rightarrow> string \<Rightarrow> crimp_fs_info option"
    and lister :: "disk \<Rightarrow> string \<Rightarrow> crimp_fs_entry_list \<Rightarrow> bool \<times> crimp_fs_entry_list"
    and sized :: bool
  assumes writes_inside: "changed d (snd (snd (reader path od d))) \<subseteq> insert od (inside od)"
    and reports_safe: "e_path ` set (v_items (fst (snd (reader path od d)))) \<subseteq> Collect safe_rel"
    and leaves_directory: "fst (reader path od d) \<Longrightarrow> lookup (snd (snd (reader path od d))) od = Some Directory"
    and inert: "info d path = None \<Longrightarrow> fst (reader path od d) = False \<and> snd (snd (reader path od d)) = d"
    and identifies_bytes: "lookup d path = Some (RegFile f) \<Longrightarrow> lookup d' path = Some (RegFile f) \<Longrightarrow>
          info d path = info d' path"
    and keeps_wf: "disk_wf d \<Longrightarrow> disk_wf (snd (snd (reader path od d)))"
    and builds: "reader path od d = (True, out, d') \<Longrightarrow>
          \<exists>items. v_items out = map item_entry items \<and> list_all (item_ok sized) items \<and>
            tree_built od items (snd (crimp_fs_make_directory od d)) d'"
    and lists: "reader path od d = (True, out, d') \<Longrightarrow> fopen_rb path d2 = fopen_rb path d \<Longrightarrow>
          lister d2 path l0 = (True, out)"
    and again: "reader path od d = (True, out, d') \<Longrightarrow> fopen_rb path d2 = fopen_rb path d \<Longrightarrow>
          (\<And>q. at_or_below od q \<Longrightarrow> lookup d2 q = lookup d q) \<Longrightarrow> parent_ok d2 od = parent_ok d od \<Longrightarrow>
          \<exists>d2'. reader path od d2 = (True, out, d2') \<and> (\<forall>q. at_or_below od q \<longrightarrow> lookup d2' q = lookup d' q)"
begin

lemma writes_below: "changed d (snd (snd (reader path od d))) \<subseteq> {q. at_or_below od q}"
  using writes_inside [of d path od] inside_below by (auto simp: at_or_below_def)

lemma keeps_image:
  assumes "lookup d path = Some (RegFile f)" and "\<not> at_or_below od path"
  shows "lookup (snd (snd (reader path' od d))) path = Some (RegFile f)"
  using writes_below [of d path' od] assms unfolding changed_def subset_iff mem_Collect_eq by metis

lemma success_identified: "fst (reader path od d) \<Longrightarrow> info d path \<noteq> None"
  using inert by blast

end

text \<open>
  A reader whose sizes are always right keeps the weaker contract too, and the list a
  listing starts from may be fixed.
\<close>

lemma items_weaken: "list_all (item_ok True) items \<Longrightarrow> list_all (item_ok sized) items"
  by (induction items) (auto simp: item_ok_def)

lemma fs_extractor_weaken:
  assumes a: "fs_extractor reader info lister sized" and "sized' \<Longrightarrow> sized"
  shows "fs_extractor reader info (\<lambda>d path l0. lister d path l1) sized'"
proof
  fix path od d out d'
  assume "reader path od d = (True, out, d')"
  from fs_extractor.builds [OF a this] items_weaken [of _ sized'] assms(2)
  show "\<exists>items. v_items out = map item_entry items \<and> list_all (item_ok sized') items \<and>
      tree_built od items (snd (crimp_fs_make_directory od d)) d'"
    by (cases sized; cases sized') auto
qed (rule fs_extractor.writes_inside [OF a] fs_extractor.reports_safe [OF a] fs_extractor.leaves_directory [OF a]
    fs_extractor.inert [OF a] fs_extractor.identifies_bytes [OF a] fs_extractor.keeps_wf [OF a]
    fs_extractor.lists [OF a] fs_extractor.again [OF a]; (assumption | simp))+

section \<open>How an extraction can run\<close>

text \<open>
  The outcomes of the three extraction functions: stopped before the disk is touched, no
  output directory, a walk that stopped, a walk that went through.
\<close>

inductive extract_runs :: "bool \<Rightarrow> string \<Rightarrow> disk \<Rightarrow> bool \<times> crimp_fs_entry_list \<times> disk \<Rightarrow> bool"
  for sized od d where
  refused: "extract_runs sized od d (False, crimp_fs_entry_list_init, d)"
| no_directory: "crimp_fs_make_directory od d = (False, d1) \<Longrightarrow>
     extract_runs sized od d (False, crimp_fs_entry_list_init, d1)"
| stopped: "crimp_fs_make_directory od d = (True, d1) \<Longrightarrow> walks sized (Some od) d1 w \<Longrightarrow>
     w \<lparr>ws_entries = crimp_fs_entry_list_init, ws_disk = d1\<rparr> = (None :: unit option, st) \<Longrightarrow>
     extract_runs sized od d (False, crimp_fs_entry_list_init, ws_disk st)"
| finished: "crimp_fs_make_directory od d = (True, d1) \<Longrightarrow> walks sized (Some od) d1 w \<Longrightarrow>
     w \<lparr>ws_entries = crimp_fs_entry_list_init, ws_disk = d1\<rparr> = (Some (), st) \<Longrightarrow>
     extract_runs sized od d (True, ws_entries st, ws_disk st)"

lemma extract_runs_outcome:
  assumes "extract_runs sized od d (ok, out, d')"
  shows "changed d d' \<subseteq> insert od (inside od)"
    and "e_path ` set (v_items out) \<subseteq> Collect safe_rel"
    and "ok \<Longrightarrow> lookup d' od = Some Directory"
    and "disk_wf d \<Longrightarrow> disk_wf d'"
    and "ok \<Longrightarrow> \<exists>items. v_items out = map item_entry items \<and> list_all (item_ok sized) items \<and>
            tree_built od items (snd (crimp_fs_make_directory od d)) d'"
proof -
  have init: "v_items crimp_fs_entry_list_init = []" by (simp add: crimp_fs_entry_list_init_def)
  have made: "changed d (snd (crimp_fs_make_directory od d)) \<subseteq> insert od (inside od)"
    using make_directory_changed by blast
  show "changed d d' \<subseteq> insert od (inside od)"
    using assms by cases (use made in \<open>simp_all add: walks_outcome(1)\<close>)
  show "e_path ` set (v_items out) \<subseteq> Collect safe_rel"
    using assms by cases (use init walks_outcome(3) in \<open>simp_all\<close>)
  show "ok \<Longrightarrow> lookup d' od = Some Directory"
    using assms by cases (simp_all add: walks_outcome(2))
  show "disk_wf d \<Longrightarrow> disk_wf d'"
    using assms by cases (use disk_wf_make_directory [of d od] in \<open>simp_all add: walks_outcome(4)\<close>)
  show "\<exists>items. v_items out = map item_entry items \<and> list_all (item_ok sized) items \<and>
            tree_built od items (snd (crimp_fs_make_directory od d)) d'" if ok
    using assms that by cases (auto dest: walks_outcome(5) [OF _ _ _ refl])
qed

text \<open>
  A reader that works as all three do: the image is parsed from its bytes (None: not
  accepted), the output directory is made, and one walk over the parsed image lists every
  entry and, given an output directory, writes it. Such a reader is an \<open>fs_extractor\<close>.
\<close>

locale walk_reader =
  fixes reader :: "string \<Rightarrow> string \<Rightarrow> disk \<Rightarrow> bool \<times> crimp_fs_entry_list \<times> disk"
    and info :: "disk \<Rightarrow> string \<Rightarrow> crimp_fs_info option"
    and lister :: "disk \<Rightarrow> string \<Rightarrow> crimp_fs_entry_list \<Rightarrow> bool \<times> crimp_fs_entry_list"
    and sized :: bool
    and parse :: "byte list \<Rightarrow> 'i option"
    and walk :: "'i \<Rightarrow> string option \<Rightarrow> wstate \<Rightarrow> unit option \<times> wstate"
  assumes reads: "reader path od d =
      (case Option.bind (fopen_rb path d) parse of None \<Rightarrow> (False, crimp_fs_entry_list_init, d)
       | Some i \<Rightarrow>
           (case crimp_fs_make_directory od d of
              (False, d1) \<Rightarrow> (False, crimp_fs_entry_list_init, d1)
            | (True, d1) \<Rightarrow>
                (case walk i (Some od) \<lparr>ws_entries = crimp_fs_entry_list_init, ws_disk = d1\<rparr> of
                   (None, st) \<Rightarrow> (False, crimp_fs_entry_list_init, ws_disk st)
                 | (Some _, st) \<Rightarrow> (True, ws_entries st, ws_disk st))))"
    and walks_listing: "Option.bind (fopen_rb path d) parse = Some i \<Longrightarrow>
          walk i None \<lparr>ws_entries = crimp_fs_entry_list_init, ws_disk = d\<rparr> = (Some (), st) \<Longrightarrow>
          lister d path l0 = (True, ws_entries st)"
    and walks_image: "parse f = Some i \<Longrightarrow> walks sized (Some od) d1 (walk i (Some od))"
    and walks_alike: "parse f = Some i \<Longrightarrow> same_entries s t \<Longrightarrow>
          runs_as same_entries (walk i (Some od) s) (walk i None t)"
    and walks_again: "parse f = Some i \<Longrightarrow> same_under od s t \<Longrightarrow>
          runs_as (same_under od) (walk i (Some od) s) (walk i (Some od) t)"
    and unidentified: "info d path = None \<Longrightarrow> Option.bind (fopen_rb path d) parse = None"
    and info_of_bytes: "lookup d path = Some (RegFile f) \<Longrightarrow> lookup d' path = Some (RegFile f) \<Longrightarrow>
          info d path = info d' path"
begin

lemma reader_runs: "extract_runs sized od d (reader path od d)"
proof (cases "Option.bind (fopen_rb path d) parse")
  case (Some i)
  then obtain f where "parse f = Some i" by (auto simp: bind_eq_Some_conv)
  from walks_image [OF this] have "walks sized (Some od) d1 (walk i (Some od))" for d1 .
  then show ?thesis
    unfolding reads Some by (auto split: prod.split bool.split option.split intro: extract_runs.intros)
qed (simp add: reads extract_runs.refused)

lemma reader_Some:
  assumes "reader path od d = (True, out, d')"
  obtains f i d1 st where "Option.bind (fopen_rb path d) parse = Some i" and "parse f = Some i"
    and "crimp_fs_make_directory od d = (True, d1)"
    and "walk i (Some od) \<lparr>ws_entries = crimp_fs_entry_list_init, ws_disk = d1\<rparr> = (Some (), st)"
    and "out = ws_entries st" and "d' = ws_disk st"
  using assms by (auto simp: reads bind_eq_Some_conv split: option.splits prod.splits bool.splits)

lemma reader_lists:
  assumes "reader path od d = (True, out, d')" and "fopen_rb path d2 = fopen_rb path d"
  shows "lister d2 path l0 = (True, out)"
  using assms(1)
proof (rule reader_Some)
  fix f i d1 st
  let ?s = "\<lambda>d. \<lparr>ws_entries = crimp_fs_entry_list_init, ws_disk = d\<rparr>"
  assume i: "Option.bind (fopen_rb path d) parse = Some i" "parse f = Some i"
    and w: "walk i (Some od) (?s d1) = (Some (), st)" and out: "out = ws_entries st"
  have "same_entries (?s d1) (?s d2)" by (simp add: same_entries_def)
  from walks_alike [OF i(2) this, of od] w obtain st' where "walk i None (?s d2) = (Some (), st')"
    and "ws_entries st' = ws_entries st"
    by (cases "walk i None (?s d2)") (auto simp: runs_as_def same_entries_def)
  with walks_listing [of path d2 i st' l0] i(1) assms(2) out show ?thesis by simp
qed

lemma reader_again:
  assumes "reader path od d = (True, out, d')" and "fopen_rb path d2 = fopen_rb path d"
    and region: "\<And>q. at_or_below od q \<Longrightarrow> lookup d2 q = lookup d q" and parent: "parent_ok d2 od = parent_ok d od"
  shows "\<exists>d2'. reader path od d2 = (True, out, d2') \<and> (\<forall>q. at_or_below od q \<longrightarrow> lookup d2' q = lookup d' q)"
  using assms(1)
proof (rule reader_Some)
  fix f i d1 st
  assume i: "Option.bind (fopen_rb path d) parse = Some i" "parse f = Some i"
    and m: "crimp_fs_make_directory od d = (True, d1)"
    and w: "walk i (Some od) \<lparr>ws_entries = crimp_fs_entry_list_init, ws_disk = d1\<rparr> = (Some (), st)"
    and out: "out = ws_entries st" "d' = ws_disk st"
  from extract_again [where w = "walk i (Some od)", OF m w region parent walks_again [OF i(2)]]
  obtain e st' where "crimp_fs_make_directory od d2 = (True, e)"
    "walk i (Some od) \<lparr>ws_entries = crimp_fs_entry_list_init, ws_disk = e\<rparr> = (Some (), st')"
    "ws_entries st' = ws_entries st" "\<And>q. at_or_below od q \<Longrightarrow> lookup (ws_disk st') q = lookup (ws_disk st) q" by blast
  with i(1) out assms(2) show ?thesis by (simp add: reads)
qed

end

sublocale walk_reader \<subseteq> fs_extractor reader info lister sized
proof
  fix path od d
  obtain ok out d' where r: "reader path od d = (ok, out, d')" by (metis surj_pair)
  note o = extract_runs_outcome [OF reader_runs [of od d path, unfolded r]]
  show "changed d (snd (snd (reader path od d))) \<subseteq> insert od (inside od)"
    "e_path ` set (v_items (fst (snd (reader path od d)))) \<subseteq> Collect safe_rel"
    "disk_wf d \<Longrightarrow> disk_wf (snd (snd (reader path od d)))"
    "fst (reader path od d) \<Longrightarrow> lookup (snd (snd (reader path od d))) od = Some Directory"
    using o(1-4) r by auto
  show "\<exists>items. v_items out = map item_entry items \<and> list_all (item_ok sized) items \<and>
      tree_built od items (snd (crimp_fs_make_directory od d)) d'"
    if "reader path od d = (True, out, d')" for out d'
    using extract_runs_outcome(5) [OF reader_runs [of od d path, unfolded that]] by simp
  show "info d path = None \<Longrightarrow> fst (reader path od d) = False \<and> snd (snd (reader path od d)) = d"
    using unidentified by (simp add: reads)
  show "lookup d path = Some (RegFile f) \<Longrightarrow> lookup d' path = Some (RegFile f) \<Longrightarrow> info d path = info d' path"
    for f d' by (rule info_of_bytes)
  show "reader path od d = (True, out, d') \<Longrightarrow> fopen_rb path d2 = fopen_rb path d \<Longrightarrow> lister d2 path l0 = (True, out)"
    for out d' d2 l0
    by (rule reader_lists)
  show "\<exists>d2'. reader path od d2 = (True, out, d2') \<and> (\<forall>q. at_or_below od q \<longrightarrow> lookup d2' q = lookup d' q)"
    if "reader path od d = (True, out, d')" "fopen_rb path d2 = fopen_rb path d"
      "\<And>q. at_or_below od q \<Longrightarrow> lookup d2 q = lookup d q" "parent_ok d2 od = parent_ok d od" for out d' d2
    by (rule reader_again [OF that])
qed

end
