(* ===== verification/SquashfsMeta.thy ===== *)
theory SquashfsMeta
  imports ImageTree
begin

text \<open>
  The metadata of \<open>src/extract/squashfs.c\<close>: the superblock, the cursor that presents a
  chain of (possibly compressed) blocks as one stream, and the inodes; and that the
  cursor is that stream. The C code reads its structures in host byte order; the model is
  a little-endian host, the byte order of the format. The image is its byte content.
\<close>

section \<open>Superblock\<close>

record squashfs_superblock =
  sb_magic :: u32
  sb_inodes :: u32
  sb_mkfs_time :: u32
  sb_block_size :: u32
  sb_fragments :: u32
  sb_compression :: u16
  sb_block_log :: u16
  sb_flags :: u16
  sb_no_ids :: u16
  sb_s_major :: u16
  sb_s_minor :: u16
  sb_root_inode :: u64
  sb_bytes_used :: u64
  sb_id_table_start :: u64
  sb_xattr_id_table_start :: u64
  sb_inode_table_start :: u64
  sb_directory_table_start :: u64
  sb_fragment_table_start :: u64
  sb_lookup_table_start :: u64

definition le_u16 :: "byte list \<Rightarrow> u16" where
  "le_u16 bs = crimp_fs_decode_u16 bs False"

definition le_u32 :: "byte list \<Rightarrow> u32" where
  "le_u32 bs = crimp_fs_decode_u32 bs False"

definition le_u64 :: "byte list \<Rightarrow> u64" where
  "le_u64 bs = ucast (le_u32 bs) OR push_bit 32 (ucast (le_u32 (drop 4 bs)))"

definition squashfs_decode_superblock :: "byte list \<Rightarrow> squashfs_superblock" where
  "squashfs_decode_superblock raw =
     \<lparr>sb_magic = le_u32 raw, sb_inodes = le_u32 (drop 4 raw), sb_mkfs_time = le_u32 (drop 8 raw),
      sb_block_size = le_u32 (drop 12 raw), sb_fragments = le_u32 (drop 16 raw),
      sb_compression = le_u16 (drop 20 raw), sb_block_log = le_u16 (drop 22 raw),
      sb_flags = le_u16 (drop 24 raw), sb_no_ids = le_u16 (drop 26 raw),
      sb_s_major = le_u16 (drop 28 raw), sb_s_minor = le_u16 (drop 30 raw),
      sb_root_inode = le_u64 (drop 32 raw), sb_bytes_used = le_u64 (drop 40 raw),
      sb_id_table_start = le_u64 (drop 48 raw), sb_xattr_id_table_start = le_u64 (drop 56 raw),
      sb_inode_table_start = le_u64 (drop 64 raw), sb_directory_table_start = le_u64 (drop 72 raw),
      sb_fragment_table_start = le_u64 (drop 80 raw), sb_lookup_table_start = le_u64 (drop 88 raw)\<rparr>"

definition squashfs_read_superblock :: "byte list \<Rightarrow> squashfs_superblock option" where
  "squashfs_read_superblock f =
     do { raw \<leftarrow> file_read f 0 96;
          if take 4 raw \<noteq> map byte_of_chr ''hsqs'' then None
          else Some (squashfs_decode_superblock raw) }"

definition crimp_squashfs_identify :: "disk \<Rightarrow> string \<Rightarrow> crimp_fs_info option" where
  "crimp_squashfs_identify d path =
     do { f \<leftarrow> fopen_rb path d;
          sb \<leftarrow> squashfs_read_superblock f;
          Some \<lparr>fi_type = CRIMP_FS_SQUASHFS, fi_inode_count = sb_inodes sb,
                fi_block_size = sb_block_size sb, fi_compression = sb_compression sb,
                fi_bytes_used = sb_bytes_used sb\<rparr> }"

definition crimp_squashfs_compression_name :: "u16 \<Rightarrow> string" where
  "crimp_squashfs_compression_name cid =
     (if cid = 1 then ''gzip'' else if cid = 2 then ''lzma'' else if cid = 3 then ''lzo''
      else if cid = 4 then ''xz'' else if cid = 5 then ''lz4'' else if cid = 6 then ''zstd''
      else ''unknown'')"

section \<open>The metadata cursor\<close>

definition METADATA_BLOCK_SIZE :: nat where "METADATA_BLOCK_SIZE = 8192"

text \<open>The buffer is the part of \<open>buf\<close> that the last load filled.\<close>

record metadata_cursor =
  mc_next_block_offset :: u64
  mc_compression :: u16
  mc_buf :: "byte list"
  mc_buf_len :: u16
  mc_buf_pos :: u16

definition decompress_block :: "codec \<Rightarrow> u16 \<Rightarrow> nat \<Rightarrow> byte list \<Rightarrow> byte list option" where
  "decompress_block cx compression dest_cap src =
     (if compression = 1 then zlib_uncompress cx src dest_cap
      else if compression = 4 then
        (case xz_decode cx src dest_cap of None \<Rightarrow> None
         | Some (in_pos, out) \<Rightarrow> if in_pos \<noteq> length src then None else Some out)
      else None)"

definition cursor_load_next_block ::
  "codec \<Rightarrow> byte list \<Rightarrow> metadata_cursor \<Rightarrow> metadata_cursor option" where
  "cursor_load_next_block cx f c =
     do { off \<leftarrow> crimp_fs_seek64 (mc_next_block_offset c);
          raw \<leftarrow> file_read f off 2;
          let hdr = le_u16 raw;
          let sz = hdr AND 0x7FFF;
          let compressed = (hdr AND 0x8000 = 0);
          if unat sz > METADATA_BLOCK_SIZE \<or> sz = 0 then None
          else do {
            data \<leftarrow> file_read f (off + 2) (unat sz);
            buf \<leftarrow> (if compressed then decompress_block cx (mc_compression c) METADATA_BLOCK_SIZE data
                     else Some data);
            Some (c\<lparr>mc_buf := buf, mc_buf_len := of_nat (length buf), mc_buf_pos := 0,
                    mc_next_block_offset := mc_next_block_offset c + (2 + ucast sz)\<rparr>) } }"

definition cursor_init ::
  "codec \<Rightarrow> byte list \<Rightarrow> u64 \<Rightarrow> u16 \<Rightarrow> u16 \<Rightarrow> metadata_cursor option" where
  "cursor_init cx f start_block_offset start_in_block_offset compression =
     do { c \<leftarrow> cursor_load_next_block cx f
                \<lparr>mc_next_block_offset = start_block_offset, mc_compression = compression,
                 mc_buf = [], mc_buf_len = 0, mc_buf_pos = 0\<rparr>;
          if start_in_block_offset > mc_buf_len c then None
          else Some (c\<lparr>mc_buf_pos := start_in_block_offset\<rparr>) }"

text \<open>A load moves the next block's offset up, and that offset was inside the file.\<close>

lemma cursor_load_next:
  assumes "cursor_load_next_block cx f c = Some c'"
  shows "unat (mc_next_block_offset c) < length f"
    and "unat (mc_next_block_offset c) + 2 < unat (mc_next_block_offset c')"
proof -
  from assms obtain sz :: u16 where off: "unat (mc_next_block_offset c) < 9223372036854775808"
    and rd: "file_read f (unat (mc_next_block_offset c)) 2 \<noteq> None" and sz: "sz \<noteq> 0"
    and n: "mc_next_block_offset c' = mc_next_block_offset c + (2 + ucast sz)"
    by (auto simp: cursor_load_next_block_def Let_def Option.bind_eq_Some_conv crimp_fs_seek64_def
        word_less_nat_alt split: if_splits)
  from rd show "unat (mc_next_block_offset c) < length f" by (auto simp: file_read_def split: if_splits)
  have "unat (2 + ucast sz :: u64) = 2 + unat sz"
    using unat_plus_small(1) [of 2 "ucast sz"] unat_u16_bound [of sz] by simp
  moreover have "unat (mc_next_block_offset c') = unat (mc_next_block_offset c) + unat (2 + ucast sz :: u64)"
    unfolding n using off calculation unat_u16_bound [of sz] by (intro unat_plus_small) linarith
  moreover have "0 < unat sz" using sz by (simp add: unat_gt_0)
  ultimately show "unat (mc_next_block_offset c) + 2 < unat (mc_next_block_offset c')" by linarith
qed

function cursor_read ::
  "codec \<Rightarrow> byte list \<Rightarrow> metadata_cursor \<Rightarrow> nat \<Rightarrow> (byte list \<times> metadata_cursor) option" where
  "cursor_read cx f c n =
     (if n > 0 then
        (case (if mc_buf_pos c \<ge> mc_buf_len c then cursor_load_next_block cx f c else Some c) of
           None \<Rightarrow> None
         | Some c1 \<Rightarrow>
             (let avail = unat (mc_buf_len c1 - mc_buf_pos c1);
                  k = (if n < avail then n else avail);
                  chunk = take k (drop (unat (mc_buf_pos c1)) (mc_buf c1))
              in case cursor_read cx f (c1\<lparr>mc_buf_pos := mc_buf_pos c1 + of_nat k\<rparr>) (n - k) of
                   None \<Rightarrow> None
                 | Some (rest, c2) \<Rightarrow> Some (chunk @ rest, c2)))
      else Some ([], c))"
  by pat_completeness auto
termination
proof (relation "measures [\<lambda>(cx, f, c, n). length f - unat (mc_next_block_offset c), \<lambda>(cx, f, c, n). n]",
    goal_cases)
  case (2 cx f c n c1 avail k chunk)
  show ?case
  proof (cases "mc_buf_pos c \<ge> mc_buf_len c")
    case True
    then have "cursor_load_next_block cx f c = Some c1" using 2(2) by simp
    from cursor_load_next [OF this] show ?thesis by (simp add: diff_less_mono2)
  next
    case False
    then have "c1 = c" "0 < unat (mc_buf_len c - mc_buf_pos c)" using 2(2) by (simp_all add: unat_gt_0)
    with 2 show ?thesis by auto
  qed
qed simp

declare cursor_read.simps [simp del]

definition cursor_u16 :: "codec \<Rightarrow> byte list \<Rightarrow> metadata_cursor \<Rightarrow> (u16 \<times> metadata_cursor) option" where
  "cursor_u16 cx f c = map_option (\<lambda>(bs, c'). (le_u16 bs, c')) (cursor_read cx f c 2)"

definition cursor_u32 :: "codec \<Rightarrow> byte list \<Rightarrow> metadata_cursor \<Rightarrow> (u32 \<times> metadata_cursor) option" where
  "cursor_u32 cx f c = map_option (\<lambda>(bs, c'). (le_u32 bs, c')) (cursor_read cx f c 4)"

definition cursor_u64 :: "codec \<Rightarrow> byte list \<Rightarrow> metadata_cursor \<Rightarrow> (u64 \<times> metadata_cursor) option" where
  "cursor_u64 cx f c = map_option (\<lambda>(bs, c'). (le_u64 bs, c')) (cursor_read cx f c 8)"

section \<open>Inodes\<close>

definition SQUASHFS_INVALID_FRAG :: u32 where "SQUASHFS_INVALID_FRAG = 0xFFFFFFFF"

definition MAX_BLOCKS_PER_FILE :: u64 where "MAX_BLOCKS_PER_FILE = push_bit 20 1"

definition MAX_EXTRACTED_FILE_SIZE :: u64 where "MAX_EXTRACTED_FILE_SIZE = push_bit 30 4"

record squashfs_inode =
  si_type :: u16
  si_inode_number :: u32
  si_dir_block_index :: u64
  si_dir_block_offset :: u16
  si_dir_size :: u64
  si_file_size :: u64
  si_content_blocks_start :: u64
  si_frag_index :: u32
  si_frag_block_offset :: u32
  si_block_sizes :: "u32 list"

fun read_sizes ::
  "codec \<Rightarrow> byte list \<Rightarrow> metadata_cursor \<Rightarrow> nat \<Rightarrow> u32 list option" where
  "read_sizes cx f c 0 = Some []"
| "read_sizes cx f c (Suc n) =
     do { (w, c') \<leftarrow> cursor_u32 cx f c; ws \<leftarrow> read_sizes cx f c' n; Some (w # ws) }"

definition read_block_sizes ::
  "codec \<Rightarrow> byte list \<Rightarrow> metadata_cursor \<Rightarrow> u64 \<Rightarrow> u64 \<Rightarrow> u32 \<Rightarrow> squashfs_inode \<Rightarrow> squashfs_inode option" where
  "read_block_sizes cx f c file_size block_size frag_index out =
     (if file_size > MAX_EXTRACTED_FILE_SIZE then None
      else if frag_index = SQUASHFS_INVALID_FRAG \<and> file_size > - 1 - (block_size - 1) then None
      else
        (let nblocks64 = (if frag_index = SQUASHFS_INVALID_FRAG
                          then (file_size + block_size - 1) div block_size
                          else file_size div block_size)
         in if nblocks64 > MAX_BLOCKS_PER_FILE then None
            else (let nblocks = (ucast nblocks64 :: u32)
                  in if nblocks = 0 then Some (out\<lparr>si_block_sizes := []\<rparr>)
                     else do { sizes \<leftarrow> read_sizes cx f c (unat nblocks);
                               Some (out\<lparr>si_block_sizes := sizes\<rparr>) })))"

definition read_basic_dir_fields ::
  "codec \<Rightarrow> byte list \<Rightarrow> metadata_cursor \<Rightarrow> squashfs_inode \<Rightarrow> squashfs_inode option" where
  "read_basic_dir_fields cx f c0 out =
     do { (block_index, c1) \<leftarrow> cursor_u32 cx f c0;
          (link_count, c2) \<leftarrow> cursor_u32 cx f c1;
          (file_size, c3) \<leftarrow> cursor_u16 cx f c2;
          (blk_offset, c4) \<leftarrow> cursor_u16 cx f c3;
          (parent_inode, c5) \<leftarrow> cursor_u32 cx f c4;
          Some (out\<lparr>si_dir_block_index := ucast block_index, si_dir_block_offset := blk_offset,
                    si_dir_size := ucast file_size\<rparr>) }"

definition read_extended_dir_fields ::
  "codec \<Rightarrow> byte list \<Rightarrow> metadata_cursor \<Rightarrow> squashfs_inode \<Rightarrow> squashfs_inode option" where
  "read_extended_dir_fields cx f c0 out =
     do { (link_count, c1) \<leftarrow> cursor_u32 cx f c0;
          (file_size, c2) \<leftarrow> cursor_u32 cx f c1;
          (block_index, c3) \<leftarrow> cursor_u32 cx f c2;
          (parent_inode, c4) \<leftarrow> cursor_u32 cx f c3;
          (index_count, c5) \<leftarrow> cursor_u16 cx f c4;
          (blk_offset, c6) \<leftarrow> cursor_u16 cx f c5;
          (xattr_index, c7) \<leftarrow> cursor_u32 cx f c6;
          Some (out\<lparr>si_dir_block_index := ucast block_index, si_dir_block_offset := blk_offset,
                    si_dir_size := ucast file_size\<rparr>) }"

definition with_content ::
  "codec \<Rightarrow> byte list \<Rightarrow> metadata_cursor \<Rightarrow> u64 \<Rightarrow> bool \<Rightarrow> squashfs_inode \<Rightarrow> squashfs_inode option" where
  "with_content cx f c block_size want_content out =
     (if want_content
      then read_block_sizes cx f c (si_file_size out) block_size (si_frag_index out) out
      else Some out)"

definition read_basic_file_fields ::
  "codec \<Rightarrow> byte list \<Rightarrow> metadata_cursor \<Rightarrow> u64 \<Rightarrow> bool \<Rightarrow> squashfs_inode \<Rightarrow> squashfs_inode option" where
  "read_basic_file_fields cx f c0 block_size want_content out =
     do { (blocks_start, c1) \<leftarrow> cursor_u32 cx f c0;
          (frag_index, c2) \<leftarrow> cursor_u32 cx f c1;
          (block_offset_f, c3) \<leftarrow> cursor_u32 cx f c2;
          (file_size, c4) \<leftarrow> cursor_u32 cx f c3;
          with_content cx f c4 block_size want_content
            (out\<lparr>si_file_size := ucast file_size, si_content_blocks_start := ucast blocks_start,
                 si_frag_index := frag_index, si_frag_block_offset := block_offset_f\<rparr>) }"

definition read_extended_file_fields ::
  "codec \<Rightarrow> byte list \<Rightarrow> metadata_cursor \<Rightarrow> u64 \<Rightarrow> bool \<Rightarrow> squashfs_inode \<Rightarrow> squashfs_inode option" where
  "read_extended_file_fields cx f c0 block_size want_content out =
     do { (blocks_start, c1) \<leftarrow> cursor_u64 cx f c0;
          (file_size, c2) \<leftarrow> cursor_u64 cx f c1;
          (sparse, c3) \<leftarrow> cursor_u64 cx f c2;
          (link_count, c4) \<leftarrow> cursor_u32 cx f c3;
          (frag_index, c5) \<leftarrow> cursor_u32 cx f c4;
          (block_offset_f, c6) \<leftarrow> cursor_u32 cx f c5;
          (xattr_index, c7) \<leftarrow> cursor_u32 cx f c6;
          with_content cx f c7 block_size want_content
            (out\<lparr>si_file_size := file_size, si_content_blocks_start := blocks_start,
                 si_frag_index := frag_index, si_frag_block_offset := block_offset_f\<rparr>) }"

definition read_symlink_fields ::
  "codec \<Rightarrow> byte list \<Rightarrow> metadata_cursor \<Rightarrow> squashfs_inode \<Rightarrow> squashfs_inode option" where
  "read_symlink_fields cx f c0 out =
     do { (link_count, c1) \<leftarrow> cursor_u32 cx f c0;
          (target_size, c2) \<leftarrow> cursor_u32 cx f c1;
          Some (out\<lparr>si_file_size := ucast target_size\<rparr>) }"

definition squashfs_inode_zero :: squashfs_inode where
  "squashfs_inode_zero =
     \<lparr>si_type = 0, si_inode_number = 0, si_dir_block_index = 0, si_dir_block_offset = 0,
      si_dir_size = 0, si_file_size = 0, si_content_blocks_start = 0, si_frag_index = 0,
      si_frag_block_offset = 0, si_block_sizes = []\<rparr>"

text \<open>The switch on the inode type; types without content or entries need nothing more.\<close>

definition read_type_fields ::
  "codec \<Rightarrow> byte list \<Rightarrow> squashfs_superblock \<Rightarrow> metadata_cursor \<Rightarrow> bool \<Rightarrow> squashfs_inode \<Rightarrow> squashfs_inode option" where
  "read_type_fields cx f sb c want_content out =
     (let type = si_type out
      in if type = 1 then read_basic_dir_fields cx f c out
         else if type = 8 then read_extended_dir_fields cx f c out
         else if type = 2 then read_basic_file_fields cx f c (ucast (sb_block_size sb)) want_content out
         else if type = 9 then read_extended_file_fields cx f c (ucast (sb_block_size sb)) want_content out
         else if type = 3 \<or> type = 10 then read_symlink_fields cx f c out
         else Some out)"

definition read_inode ::
  "codec \<Rightarrow> byte list \<Rightarrow> squashfs_superblock \<Rightarrow> u64 \<Rightarrow> u16 \<Rightarrow> bool \<Rightarrow> squashfs_inode option" where
  "read_inode cx f sb block_offset in_block_offset want_content =
     do { c0 \<leftarrow> cursor_init cx f (sb_inode_table_start sb + block_offset) in_block_offset (sb_compression sb);
          (type, c1) \<leftarrow> cursor_u16 cx f c0;
          (perm, c2) \<leftarrow> cursor_u16 cx f c1;
          (uid_idx, c3) \<leftarrow> cursor_u16 cx f c2;
          (gid_idx, c4) \<leftarrow> cursor_u16 cx f c3;
          (mtime, c5) \<leftarrow> cursor_u32 cx f c4;
          (inode_number, c6) \<leftarrow> cursor_u32 cx f c5;
          read_type_fields cx f sb c6 want_content
            (squashfs_inode_zero\<lparr>si_type := type, si_inode_number := inode_number\<rparr>) }"

section \<open>The cursor is a stream\<close>

text \<open>
  The specification of the cursor: the blocks of the chain from an offset on, up to the
  first that cannot be read, and the bytes still ahead of a cursor.
\<close>

definition cursor_at :: "u64 \<Rightarrow> u16 \<Rightarrow> metadata_cursor" where
  "cursor_at off compression =
     \<lparr>mc_next_block_offset = off, mc_compression = compression, mc_buf = [], mc_buf_len = 0, mc_buf_pos = 0\<rparr>"

function meta_blocks :: "codec \<Rightarrow> byte list \<Rightarrow> u16 \<Rightarrow> u64 \<Rightarrow> byte list list" where
  "meta_blocks cx f compression off =
     (case cursor_load_next_block cx f (cursor_at off compression) of
        None \<Rightarrow> []
      | Some c \<Rightarrow> mc_buf c # meta_blocks cx f compression (mc_next_block_offset c))"
  by pat_completeness auto
termination
proof (relation "measure (\<lambda>(cx, f, compression, off). length f - unat off)", goal_cases)
  case (2 cx f compression off c)
  from cursor_load_next [OF 2] show ?case by (simp add: cursor_at_def diff_less_mono2)
qed simp

declare meta_blocks.simps [simp del]

definition cursor_stream :: "codec \<Rightarrow> byte list \<Rightarrow> metadata_cursor \<Rightarrow> byte list" where
  "cursor_stream cx f c =
     drop (unat (mc_buf_pos c)) (mc_buf c) @
     concat (meta_blocks cx f (mc_compression c) (mc_next_block_offset c))"

definition cursor_wf :: "metadata_cursor \<Rightarrow> bool" where
  "cursor_wf c \<longleftrightarrow> mc_buf_pos c \<le> mc_buf_len c \<and> unat (mc_buf_len c) = length (mc_buf c)"

lemma decompress_block_bound:
  "codec_bounded cx \<Longrightarrow> decompress_block cx cmpr cap src = Some out \<Longrightarrow> length out \<le> cap"
  by (auto simp: decompress_block_def codec_bounded_def split: if_splits option.splits prod.splits)

lemma cursor_load_cong:
  "cursor_load_next_block cx f c =
     cursor_load_next_block cx f (cursor_at (mc_next_block_offset c) (mc_compression c))"
  by (cases c) (simp add: cursor_load_next_block_def cursor_at_def Let_def cong: if_cong)

lemma cursor_load_fields:
  assumes "cursor_load_next_block cx f c = Some c'" and "codec_bounded cx"
  shows "mc_compression c' = mc_compression c" and "mc_buf_pos c' = 0"
    and "length (mc_buf c') \<le> METADATA_BLOCK_SIZE" and "cursor_wf c'"
proof -
  from assms(1) obtain buf where b: "mc_buf c' = buf" "mc_buf_len c' = of_nat (length buf)"
    "mc_buf_pos c' = 0" "mc_compression c' = mc_compression c" "length buf \<le> METADATA_BLOCK_SIZE"
    using decompress_block_bound [OF assms(2)]
    by (auto simp: cursor_load_next_block_def Let_def Option.bind_eq_Some_conv
        split: if_splits dest: file_read_length)
  moreover have "unat (of_nat (length buf) :: u16) = length buf"
    using b(5) unfolding unat_of_nat METADATA_BLOCK_SIZE_def by simp
  ultimately show "mc_compression c' = mc_compression c" "mc_buf_pos c' = 0"
    "length (mc_buf c') \<le> METADATA_BLOCK_SIZE" "cursor_wf c'"
    by (simp_all add: cursor_wf_def)
qed

lemma cursor_load_stream:
  assumes "codec_bounded cx" and "cursor_wf c" and "mc_buf_pos c \<ge> mc_buf_len c"
  shows "case cursor_load_next_block cx f c of None \<Rightarrow> cursor_stream cx f c = []
    | Some c' \<Rightarrow> cursor_stream cx f c' = cursor_stream cx f c"
proof -
  have "unat (mc_buf_len c) \<le> unat (mc_buf_pos c)" using assms(3) by (simp add: word_le_nat_alt)
  then have e: "drop (unat (mc_buf_pos c)) (mc_buf c) = []"
    using assms(2) by (simp add: cursor_wf_def)
  show ?thesis
  proof (cases "cursor_load_next_block cx f c")
    case None
    then show ?thesis
      using e cursor_load_cong [of cx f c] meta_blocks.simps [of cx f "mc_compression c"]
      by (simp add: cursor_stream_def)
  next
    case (Some c')
    then show ?thesis
      using e cursor_load_cong [of cx f c] cursor_load_fields [OF Some assms(1)]
        meta_blocks.simps [of cx f "mc_compression c" "mc_next_block_offset c"]
      by (simp add: cursor_stream_def)
  qed
qed

lemma cursor_advance:
  assumes "cursor_wf c" and "k \<le> unat (mc_buf_len c - mc_buf_pos c)"
  shows "cursor_wf (c\<lparr>mc_buf_pos := mc_buf_pos c + of_nat k\<rparr>)"
    and "cursor_stream cx f c = take k (drop (unat (mc_buf_pos c)) (mc_buf c)) @
           cursor_stream cx f (c\<lparr>mc_buf_pos := mc_buf_pos c + of_nat k\<rparr>)"
    and "length (take k (drop (unat (mc_buf_pos c)) (mc_buf c))) = k"
proof -
  have le: "unat (mc_buf_pos c) \<le> unat (mc_buf_len c)" using assms(1) by (simp add: cursor_wf_def word_le_nat_alt)
  have k: "k \<le> unat (mc_buf_len c) - unat (mc_buf_pos c)"
    using assms by (simp add: cursor_wf_def unat_minus_small)
  have "unat (mc_buf_len c) < 65536" by simp
  with k le have "unat (mc_buf_pos c) + k < 65536" by linarith
  then have p: "unat (mc_buf_pos c + of_nat k) = unat (mc_buf_pos c) + k"
    by (simp add: unat_word_ariths unat_of_nat mod_add_right_eq)
  show "cursor_wf (c\<lparr>mc_buf_pos := mc_buf_pos c + of_nat k\<rparr>)"
    using assms(1) k le p by (simp add: cursor_wf_def word_le_nat_alt)
  show "cursor_stream cx f c = take k (drop (unat (mc_buf_pos c)) (mc_buf c)) @
           cursor_stream cx f (c\<lparr>mc_buf_pos := mc_buf_pos c + of_nat k\<rparr>)"
    by (simp add: cursor_stream_def p) (metis add.commute append_take_drop_id drop_drop)
  show "length (take k (drop (unat (mc_buf_pos c)) (mc_buf c))) = k"
    using assms(1) k by (simp add: cursor_wf_def)
qed

lemma cursor_read_stream:
  assumes "codec_bounded cx" and "cursor_wf c"
  shows "case cursor_read cx f c n of
      None \<Rightarrow> length (cursor_stream cx f c) < n
    | Some (bs, c') \<Rightarrow> cursor_stream cx f c = bs @ cursor_stream cx f c' \<and> length bs = n \<and> cursor_wf c'"
  using assms
proof (induction cx f c n rule: cursor_read.induct)
  case (1 cx f c n)
  show ?case
  proof (cases "n = 0")
    case True
    with 1 show ?thesis by (simp add: cursor_read.simps)
  next
    case False
    then have n: "n > 0" by simp
    let ?src = "if mc_buf_pos c \<ge> mc_buf_len c then cursor_load_next_block cx f c else Some c"
    show ?thesis
    proof (cases ?src)
      case None
      then have "mc_buf_pos c \<ge> mc_buf_len c" "cursor_load_next_block cx f c = None"
        by (auto split: if_splits)
      with cursor_load_stream [OF "1.prems" this(1), of f] None n show ?thesis
        by (simp add: cursor_read.simps [of cx f c n])
    next
      case (Some c1)
      have wf1: "cursor_wf c1" and s1: "cursor_stream cx f c1 = cursor_stream cx f c"
        using Some "1.prems" cursor_load_fields(4) [of cx f c c1] cursor_load_stream [OF "1.prems", of f]
        by (auto split: if_splits)
      define avail where "avail = unat (mc_buf_len c1 - mc_buf_pos c1)"
      define k where "k = (if n < avail then n else avail)"
      define chunk where "chunk = take k (drop (unat (mc_buf_pos c1)) (mc_buf c1))"
      define c1' where "c1' = c1\<lparr>mc_buf_pos := mc_buf_pos c1 + of_nat k\<rparr>"
      have k: "k \<le> unat (mc_buf_len c1 - mc_buf_pos c1)" "k \<le> n" by (auto simp: k_def avail_def)
      note adv = cursor_advance [OF wf1 k(1), folded chunk_def c1'_def]
      have IH: "case cursor_read cx f c1' (n - k) of
          None \<Rightarrow> length (cursor_stream cx f c1') < n - k
        | Some (bs, c') \<Rightarrow> cursor_stream cx f c1' = bs @ cursor_stream cx f c' \<and> length bs = n - k \<and> cursor_wf c'"
        using "1.IH" [OF n Some avail_def k_def chunk_def "1.prems"(1)] adv(1) unfolding c1'_def by blast
      have "cursor_read cx f c n = (case cursor_read cx f c1' (n - k) of
          None \<Rightarrow> None | Some (rest, c2) \<Rightarrow> Some (chunk @ rest, c2))"
        unfolding chunk_def c1'_def k_def avail_def
        by (subst cursor_read.simps) (simp only: n Some if_True option.case Let_def)
      with IH adv(2) [of cx f] adv(3) s1 [symmetric] k(2) show ?thesis
        by (auto split: option.splits)
    qed
  qed
qed

section \<open>Inodes with and without their block list\<close>

lemma read_block_sizes_fields:
  "read_block_sizes cx f c sz bsz frag out = Some i \<Longrightarrow> i\<lparr>si_block_sizes := []\<rparr> = out\<lparr>si_block_sizes := []\<rparr>"
  by (auto simp: read_block_sizes_def Let_def Option.bind_eq_Some_conv split: if_splits)

lemma with_content_list:
  "with_content cx f c bsz w out = Some i \<Longrightarrow> si_block_sizes out = [] \<Longrightarrow>
     i\<lparr>si_block_sizes := []\<rparr> = out"
  by (cases out) (auto simp: with_content_def dest: read_block_sizes_fields split: if_splits)

lemma read_type_fields_list:
  assumes "read_type_fields cx f sb c w out = Some i" and nil: "si_block_sizes out = []"
  shows "read_type_fields cx f sb c False out = Some (i\<lparr>si_block_sizes := []\<rparr>)"
proof -
  have r: "r\<lparr>si_block_sizes := []\<rparr> = r" if "si_block_sizes r = []" for r :: squashfs_inode
    using that by (cases r) simp
  have basic: "read_basic_file_fields cx f c bsz False out = Some (j\<lparr>si_block_sizes := []\<rparr>)"
    if "read_basic_file_fields cx f c bsz w out = Some j" for bsz j
    using that nil by (auto simp: read_basic_file_fields_def Option.bind_eq_Some_conv with_content_def [of _ _ _ _ False]
        dest!: with_content_list split: prod.splits)
  have ext: "read_extended_file_fields cx f c bsz False out = Some (j\<lparr>si_block_sizes := []\<rparr>)"
    if "read_extended_file_fields cx f c bsz w out = Some j" for bsz j
    using that nil by (auto simp: read_extended_file_fields_def Option.bind_eq_Some_conv with_content_def [of _ _ _ _ False]
        dest!: with_content_list split: prod.splits)
  have dir: "read_basic_dir_fields cx f c out = Some j \<Longrightarrow> si_block_sizes j = []"
    "read_extended_dir_fields cx f c out = Some j \<Longrightarrow> si_block_sizes j = []"
    "read_symlink_fields cx f c out = Some j \<Longrightarrow> si_block_sizes j = []" for j
    using nil by (auto simp: read_basic_dir_fields_def read_extended_dir_fields_def read_symlink_fields_def
        Option.bind_eq_Some_conv split: prod.splits)
  show ?thesis
  proof (cases "si_type out \<in> {1, 8, 2, 9, 3, 10}")
    case True
    with assms(1) show ?thesis
      unfolding read_type_fields_def Let_def by (auto simp: basic ext r dir split: if_splits)
  next
    case False
    with assms(1) have "i = out" by (simp add: read_type_fields_def)
    with False r [OF nil] show ?thesis by (simp add: read_type_fields_def)
  qed
qed

lemma read_inode_list:
  assumes "read_inode cx f sb off pos w = Some i"
  shows "read_inode cx f sb off pos False = Some (i\<lparr>si_block_sizes := []\<rparr>)"
  using assms unfolding read_inode_def
  by (auto simp: Option.bind_eq_Some_conv squashfs_inode_zero_def read_type_fields_list split: prod.splits)

section \<open>A sample image\<close>

text \<open>
  A superblock, one inode block (the root directory and a file of three bytes), one
  directory block, and a fragment table of one entry that holds the file's bytes.
\<close>

definition encode_u64 :: "u64 \<Rightarrow> byte list" where
  "encode_u64 w = encode_u32 (ucast w) False @ encode_u32 (ucast (drop_bit 32 w)) False"

definition squashfs_encode_superblock :: "squashfs_superblock \<Rightarrow> byte list" where
  "squashfs_encode_superblock sb =
     (let a = (\<lambda>w. encode_u32 w False); b = (\<lambda>w. encode_u16 w False)
      in a (sb_magic sb) @ a (sb_inodes sb) @ a (sb_mkfs_time sb) @ a (sb_block_size sb) @
         a (sb_fragments sb) @ b (sb_compression sb) @ b (sb_block_log sb) @ b (sb_flags sb) @
         b (sb_no_ids sb) @ b (sb_s_major sb) @ b (sb_s_minor sb) @ encode_u64 (sb_root_inode sb) @
         encode_u64 (sb_bytes_used sb) @ encode_u64 (sb_id_table_start sb) @
         encode_u64 (sb_xattr_id_table_start sb) @ encode_u64 (sb_inode_table_start sb) @
         encode_u64 (sb_directory_table_start sb) @ encode_u64 (sb_fragment_table_start sb) @
         encode_u64 (sb_lookup_table_start sb))"

lemma le_u64_encode: "le_u64 (encode_u64 w @ rest) = w"
proof -
  have "le_u32 (encode_u64 w @ rest) = ucast w" "le_u32 (drop 4 (encode_u64 w @ rest)) = ucast (drop_bit 32 w)"
    by (simp_all add: le_u32_def encode_u64_def decode_u32_append decode_encode_u32)
  then have "le_u64 (encode_u64 w @ rest) = ucast (ucast w :: u32) OR push_bit 32 (ucast (ucast (drop_bit 32 w) :: u32))"
    by (simp add: le_u64_def)
  also have "\<dots> = w"
  proof (rule bit_word_eqI)
    fix n assume "n < LENGTH(64)"
    then show "bit (ucast (ucast w :: u32) OR push_bit 32 (ucast (ucast (drop_bit 32 w) :: u32)) :: u64) n = bit w n"
      by (cases "n < 32") (auto simp: bit_simps)
  qed
  finally show ?thesis .
qed

lemma length_encode_u64 [simp]: "length (encode_u64 w) = 8"
  by (simp add: encode_u64_def)

lemma le_encode:
  "le_u32 (encode_u32 w False @ rest) = w" "le_u16 (encode_u16 h False @ rest) = h"
  by (simp_all add: le_u32_def le_u16_def decode_u32_append decode_u16_append decode_encode_u32 decode_encode_u16)

lemma squashfs_decode_encode:
  "squashfs_decode_superblock (squashfs_encode_superblock sb) = sb"
  unfolding squashfs_decode_superblock_def squashfs_encode_superblock_def Let_def
  by (cases sb) (simp add: le_encode le_u64_encode le_u64_encode [where rest = "[]", simplified]
      le_encode(1) [where rest = "[]", simplified])

definition squashfs_sample_super :: squashfs_superblock where
  "squashfs_sample_super =
     \<lparr>sb_magic = 0x73717368, sb_inodes = 2, sb_mkfs_time = 0, sb_block_size = 4096, sb_fragments = 1,
      sb_compression = 1, sb_block_log = 12, sb_flags = 0, sb_no_ids = 1, sb_s_major = 4, sb_s_minor = 0,
      sb_root_inode = 0, sb_bytes_used = 213, sb_id_table_start = 0, sb_xattr_id_table_start = 0,
      sb_inode_table_start = 96, sb_directory_table_start = 162, sb_fragment_table_start = 203,
      sb_lookup_table_start = 0\<rparr>"

definition squashfs_sample_image :: "byte list" where
  "squashfs_sample_image =
     (let a = (\<lambda>w. encode_u32 w False); b = (\<lambda>w. encode_u16 w False)
      in squashfs_encode_superblock squashfs_sample_super @
         b (0x8000 + 64) @
           (b 1 @ b 0x1ED @ b 0 @ b 0 @ a 0 @ a 1 @ a 0 @ a 2 @ b 24 @ b 0 @ a 1) @
           (b 2 @ b 0x1A4 @ b 0 @ b 0 @ a 0 @ a 2 @ a 0 @ a 0 @ a 0 @ a 3) @
         b (0x8000 + 21) @ a 0 @ a 0 @ a 1 @ b 32 @ b 1 @ b 2 @ b 0 @ map byte_of_chr ''a'' @
         b (0x8000 + 16) @ encode_u64 211 @ a 2 @ a 0 @
         encode_u64 185 @ [7, 8])"

lemma cursor_u32_stream:
  assumes "codec_bounded cx" and "cursor_wf c" and "4 \<le> length (cursor_stream cx f c)"
  obtains c' where "cursor_u32 cx f c = Some (le_u32 (take 4 (cursor_stream cx f c)), c')"
    and "cursor_wf c'" and "cursor_stream cx f c' = drop 4 (cursor_stream cx f c)"
proof -
  from cursor_read_stream [OF assms(1,2), of f 4] assms(3) obtain bs c' where
    r: "cursor_read cx f c 4 = Some (bs, c')" "cursor_stream cx f c = bs @ cursor_stream cx f c'"
      "length bs = 4" "cursor_wf c'"
    by (auto split: option.splits prod.splits)
  then show ?thesis by (intro that [of c']) (simp_all add: cursor_u32_def)
qed

lemma sample_codec_bounded: "codec_bounded sample_codec"
  by (auto simp: codec_bounded_def sample_codec_def split: if_splits)

section \<open>Properties\<close>

text \<open>
  C9: The metadata cursor is a byte stream: a read of n bytes fails exactly when fewer
  than n bytes are left before the first block that cannot be read, and otherwise
  returns the next n bytes of the concatenated decompressed blocks, however many block
  boundaries the read crosses, and leaves the rest.
\<close>

theorem squashfs_cursor_is_stream:
  assumes "codec_bounded cx" and "cursor_wf c"
  shows "map_option (\<lambda>(bs, c'). (bs, cursor_stream cx f c', cursor_wf c')) (cursor_read cx f c n) =
    (if n \<le> length (cursor_stream cx f c)
     then Some (take n (cursor_stream cx f c), drop n (cursor_stream cx f c), True) else None)"
  using cursor_read_stream [OF assms, of f n] by (auto split: option.splits)

theorem squashfs_cursor_is_stream_witness:
  "map_option (\<lambda>(bs, c'). (bs, cursor_stream sample_codec [2, 0x80, 9, 8, 2, 0, 7, 8] c', cursor_wf c'))
     (cursor_read sample_codec [2, 0x80, 9, 8, 2, 0, 7, 8] (cursor_at 0 1) 3) = Some ([9, 8, 1], [2, 3], True)"
proof -
  have w: "cursor_wf (cursor_at 0 1)"
    and s: "cursor_stream sample_codec [2, 0x80, 9, 8, 2, 0, 7, 8] (cursor_at 0 1) = [9, 8, 1, 2, 3]"
    by code_simp+
  show ?thesis
    unfolding squashfs_cursor_is_stream [OF sample_codec_bounded w] s by simp
qed

text \<open>
  A superblock written in the on-disk layout under the \<open>hsqs\<close> magic is read back
  with every field intact, whatever follows it in the image.
\<close>

lemma squashfs_superblock_roundtrip:
  assumes "sb_magic sb = 0x73717368"
  shows "squashfs_read_superblock (squashfs_encode_superblock sb @ rest) = Some sb"
proof -
  have len: "length (squashfs_encode_superblock sb) = 96"
    by (simp add: squashfs_encode_superblock_def Let_def)
  have "take 4 (squashfs_encode_superblock sb) = encode_u32 0x73717368 False"
    using assms by (simp add: squashfs_encode_superblock_def Let_def)
  also have "\<dots> = map byte_of_chr ''hsqs''" by code_simp
  finally show ?thesis
    using len by (simp add: squashfs_read_superblock_def file_read_def squashfs_decode_encode)
qed

lemma squashfs_superblock_roundtrip_witness:
  "squashfs_read_superblock squashfs_sample_image = Some squashfs_sample_super"
  unfolding squashfs_sample_image_def Let_def
  by (rule squashfs_superblock_roundtrip) (simp add: squashfs_sample_super_def)

end
