(* ===== verification/SquashfsFile.thy ===== *)
theory SquashfsFile
  imports SquashfsMeta
begin

text \<open>
  Regular files of a SquashFS image: the block list and the fragment table, the data
  blocks and the tail; and that what is written is exactly the blocks of the inode.
\<close>

section \<open>Blocks, fragments, file content\<close>

definition MAX_SQUASHFS_BLOCK_SIZE :: u32 where "MAX_SQUASHFS_BLOCK_SIZE = push_bit 20 1"

definition MIN_SQUASHFS_BLOCK_SIZE :: u32 where "MIN_SQUASHFS_BLOCK_SIZE = 4096"

definition validate_block_size :: "u32 \<Rightarrow> bool" where
  "validate_block_size block_size =
     (if block_size < MIN_SQUASHFS_BLOCK_SIZE \<or> block_size > MAX_SQUASHFS_BLOCK_SIZE then False
      else if block_size AND (block_size - 1) \<noteq> 0 then False else True)"

definition FRAGMENTS_PER_METADATA_BLOCK :: u32 where "FRAGMENTS_PER_METADATA_BLOCK = 512"

text \<open>Start, size and whether compressed.\<close>

definition read_fragment_entry ::
  "codec \<Rightarrow> byte list \<Rightarrow> squashfs_superblock \<Rightarrow> u32 \<Rightarrow> (u64 \<times> u32 \<times> bool) option" where
  "read_fragment_entry cx f sb frag_index =
     (if frag_index \<ge> sb_fragments sb then None
      else do {
        let block_idx = frag_index div FRAGMENTS_PER_METADATA_BLOCK;
        let entry_idx = frag_index mod FRAGMENTS_PER_METADATA_BLOCK;
        raw \<leftarrow> read_at f (sb_fragment_table_start sb + ucast block_idx * 8) 8;
        c0 \<leftarrow> cursor_init cx f (le_u64 raw) (ucast (entry_idx * 16)) (sb_compression sb);
        (start, c1) \<leftarrow> cursor_u64 cx f c0;
        (size_field, c2) \<leftarrow> cursor_u32 cx f c1;
        (unused, c3) \<leftarrow> cursor_u32 cx f c2;
        Some (start, size_field AND 0xFFFFFF, size_field AND push_bit 24 1 = 0) })"

definition read_and_inflate_block ::
  "codec \<Rightarrow> byte list \<Rightarrow> squashfs_superblock \<Rightarrow> u64 \<Rightarrow> u32 \<Rightarrow> bool \<Rightarrow> u32 \<Rightarrow> byte list option" where
  "read_and_inflate_block cx f sb offset sz compressed dest_cap =
     (if sz > dest_cap then None
      else do { data \<leftarrow> read_at f offset (unat sz);
                if compressed then decompress_block cx (sb_compression sb) (unat dest_cap) data
                else Some data })"

text \<open>The bytes \<open>write_data_block\<close> writes.\<close>

definition data_block ::
  "codec \<Rightarrow> byte list \<Rightarrow> squashfs_superblock \<Rightarrow> u64 \<Rightarrow> u32 \<Rightarrow> u64 \<Rightarrow> byte list option" where
  "data_block cx f sb block_offset raw expected_len =
     (let sz = raw AND 0xFFFFFF;
          compressed = (raw AND push_bit 24 1 = 0)
      in do { buf \<leftarrow> (if sz = 0 then Some (replicate (unat expected_len) 0)
                      else read_and_inflate_block cx f sb block_offset sz compressed (sb_block_size sb));
              if length buf \<noteq> unat expected_len then None else Some buf })"

definition write_data_block ::
  "codec \<Rightarrow> byte list \<Rightarrow> squashfs_superblock \<Rightarrow> string \<Rightarrow> u64 \<Rightarrow> u32 \<Rightarrow> u64 \<Rightarrow> disk \<Rightarrow> bool \<times> disk" where
  "write_data_block cx f sb h block_offset raw expected_len d =
     (case data_block cx f sb block_offset raw expected_len of
        None \<Rightarrow> (False, d) | Some buf \<Rightarrow> (True, sys_fwrite h buf d))"

definition squashfs_expected_len :: "squashfs_superblock \<Rightarrow> u64 \<Rightarrow> u64 \<Rightarrow> u64" where
  "squashfs_expected_len sb file_size bytes_before =
     (if bytes_before + ucast (sb_block_size sb) > file_size
      then file_size - bytes_before else ucast (sb_block_size sb))"

text \<open>The block loop, then the bytes written by it.\<close>

fun write_blocks ::
  "codec \<Rightarrow> byte list \<Rightarrow> squashfs_superblock \<Rightarrow> u64 \<Rightarrow> string \<Rightarrow> u32 list \<Rightarrow> u64 \<Rightarrow> u64 \<Rightarrow> disk \<Rightarrow>
   (bool \<times> u64) \<times> disk" where
  "write_blocks cx f sb file_size h [] block_offset bytes_before d = ((True, bytes_before), d)"
| "write_blocks cx f sb file_size h (raw # raws) block_offset bytes_before d =
     (let expected_len = squashfs_expected_len sb file_size bytes_before
      in case write_data_block cx f sb h block_offset raw expected_len d of
           (False, d') \<Rightarrow> ((False, bytes_before), d')
         | (True, d') \<Rightarrow>
             write_blocks cx f sb file_size h raws (block_offset + ucast (raw AND 0xFFFFFF))
               (bytes_before + expected_len) d')"

definition fragment_tail ::
  "codec \<Rightarrow> byte list \<Rightarrow> squashfs_superblock \<Rightarrow> squashfs_inode \<Rightarrow> u64 \<Rightarrow> byte list option" where
  "fragment_tail cx f sb inode bytes_before =
     (let tail_len = si_file_size inode - bytes_before
      in do { (frag_start, frag_size, frag_compressed) \<leftarrow> read_fragment_entry cx f sb (si_frag_index inode);
              buf \<leftarrow> read_and_inflate_block cx f sb frag_start frag_size frag_compressed (sb_block_size sb);
              if ucast (si_frag_block_offset inode) + tail_len > of_nat (length buf) then None
              else Some (take (unat tail_len) (drop (unat (si_frag_block_offset inode)) buf)) })"

definition squashfs_extract_regular_file ::
  "codec \<Rightarrow> byte list \<Rightarrow> squashfs_superblock \<Rightarrow> squashfs_inode \<Rightarrow> string \<Rightarrow> disk \<Rightarrow> bool \<times> disk" where
  "squashfs_extract_regular_file cx f sb inode disk_path d =
     (if crimp_fs_path_is_symlink d disk_path then (False, d)
      else case fopen_wb disk_path d of
             None \<Rightarrow> (False, d)
           | Some (h, d1) \<Rightarrow>
               (case write_blocks cx f sb (si_file_size inode) h (si_block_sizes inode)
                       (si_content_blocks_start inode) 0 d1 of
                  ((False, _), d2) \<Rightarrow> (False, sys_remove disk_path d2)
                | ((True, bytes_before), d2) \<Rightarrow>
                    if si_frag_index inode = SQUASHFS_INVALID_FRAG then (True, d2)
                    else (case fragment_tail cx f sb inode bytes_before of
                            None \<Rightarrow> (False, sys_remove disk_path d2)
                          | Some bs \<Rightarrow> (True, sys_fwrite h bs d2))))"

section \<open>Block sizes\<close>

lemma validate_block_size_bounds:
  "validate_block_size bs \<Longrightarrow> 4096 \<le> unat bs \<and> unat bs \<le> 1048576"
  by (simp add: validate_block_size_def MIN_SQUASHFS_BLOCK_SIZE_def MAX_SQUASHFS_BLOCK_SIZE_def
      word_less_nat_alt not_less split: if_splits)

text \<open>A word and its predecessor have no bit in common exactly when it is zero or a power of two.\<close>

lemma and_pred_zero:
  fixes w :: "'a::len word"
  assumes "w \<noteq> 0"
  shows "w AND (w - 1) = 0 \<longleftrightarrow> (\<exists>k < LENGTH('a). w = push_bit k 1)"
proof
  assume "\<exists>k < LENGTH('a). w = push_bit k 1"
  then obtain k where k: "k < LENGTH('a)" "w = push_bit k 1" by blast
  then have "w - 1 = mask k" by (simp add: mask_eq_exp_minus_1 push_bit_of_1)
  then show "w AND (w - 1) = 0" using k by (auto intro!: bit_word_eqI simp: bit_simps simp del: push_bit_Suc)
next
  assume z: "w AND (w - 1) = 0"
  obtain n where n: "bit w n" using assms by (metis bit_eq_iff bit_0_eq bot_apply bot_bool_def)
  define k where "k = (LEAST n. bit w n)"
  have k: "bit w k" "k < LENGTH('a)" and low: "\<And>m. m < k \<Longrightarrow> \<not> bit w m"
    using n LeastI [of "bit w" n] not_less_Least [of _ "bit w"] bit_imp_le_length unfolding k_def by blast+
  define v where "v = drop_bit (Suc k) w"
  have split: "w = push_bit (Suc k) v + push_bit k 1"
  proof -
    have "push_bit (Suc k) v AND push_bit k 1 = (0 :: 'a word)"
      by (rule bit_word_eqI) (auto simp only: bit_and_iff bit_push_bit_iff bit_1_iff bit_0_eq bot_apply bot_bool_def simp_thms; simp)
    then have "push_bit (Suc k) v + push_bit k 1 = push_bit (Suc k) v OR push_bit k (1 :: 'a word)"
      by (rule disjunctive_add_eq_or)
    moreover have "w = push_bit (Suc k) v OR push_bit k 1"
    proof (rule bit_word_eqI)
      fix m assume m: "m < LENGTH('a)"
      show "bit w m = bit (push_bit (Suc k) v OR push_bit k 1) m"
        using m k(1) low [of m] by (cases m k rule: linorder_cases) (auto simp: bit_simps v_def simp del: push_bit_Suc)
    qed
    ultimately show ?thesis by simp
  qed
  have "push_bit (Suc k) v AND mask k = (0 :: 'a word)" by (auto intro!: bit_word_eqI simp: bit_simps simp del: push_bit_Suc)
  then have "w - 1 = push_bit (Suc k) v OR mask k"
    by (subst split) (simp add: disjunctive_add_eq_or [symmetric] mask_eq_exp_minus_1 push_bit_of_1)
  moreover have "w = push_bit (Suc k) v OR push_bit k 1"
  proof (subst split, rule disjunctive_add_eq_or)
    show "push_bit (Suc k) v AND push_bit k 1 = (0 :: 'a word)" by (auto intro!: bit_word_eqI simp: bit_simps simp del: push_bit_Suc)
  qed
  ultimately have "bit (w AND (w - 1)) m = bit (push_bit (Suc k) v) m" if "k < m" "m < LENGTH('a)" for m
    using that by (auto simp: bit_simps)
  then have hi: "\<not> bit (push_bit (Suc k) v) m" if "k < m" "m < LENGTH('a)" for m using z that by auto
  have "push_bit (Suc k) v = 0"
  proof (rule bit_word_eqI)
    fix m assume "m < LENGTH('a)"
    then show "bit (push_bit (Suc k) v) m = bit (0 :: 'a word) m"
      using hi [of m] by (cases "k < m") (auto simp: bit_simps simp del: push_bit_Suc)
  qed
  with split k(2) show "\<exists>k < LENGTH('a). w = push_bit k 1" by auto
qed

lemma unat_push_bit_1: "k < 32 \<Longrightarrow> unat (push_bit k 1 :: u32) = 2 ^ k"
  unfolding unsigned_push_bit_eq
  using power_strict_increasing_iff [of "2::nat" k 32] by (simp add: take_bit_eq_mod push_bit_eq_mult)

lemma validate_block_size_power:
  "validate_block_size bs \<longleftrightarrow> (\<exists>k. 12 \<le> k \<and> k \<le> 20 \<and> bs = push_bit k 1)"
proof
  assume v: "validate_block_size bs"
  then have b: "4096 \<le> unat bs" "unat bs \<le> 1048576" using validate_block_size_bounds by auto
  then have "bs \<noteq> 0" by auto
  moreover have "bs AND (bs - 1) = 0" using v by (simp add: validate_block_size_def split: if_splits)
  ultimately obtain k where k: "k < 32" "bs = push_bit k 1" using and_pred_zero [of bs] by auto
  then have u: "unat bs = 2 ^ k" using unat_push_bit_1 by blast
  have "12 \<le> k" "k \<le> 20"
    using b unfolding u
    using power_strict_increasing_iff [of "2::nat" k 12] power_strict_increasing_iff [of "2::nat" 20 k] by auto
  with k show "\<exists>k. 12 \<le> k \<and> k \<le> 20 \<and> bs = push_bit k 1" by blast
next
  assume "\<exists>k. 12 \<le> k \<and> k \<le> 20 \<and> bs = push_bit k 1"
  then obtain k where k: "12 \<le> k" "k \<le> 20" "bs = push_bit k 1" by blast
  have u: "unat bs = 2 ^ k" unfolding k(3) using k by (intro unat_push_bit_1) simp
  have "(2::nat) ^ 12 \<le> 2 ^ k" "(2::nat) ^ k \<le> 2 ^ 20" using k(1,2) by (intro power_increasing; simp)+
  then have "4096 \<le> unat bs" "unat bs \<le> 1048576" using u by simp_all
  moreover have "bs AND (bs - 1) = 0"
  proof -
    have "\<exists>j < LENGTH(32). bs = push_bit j 1" using k by (intro exI [of _ k]) simp
    moreover have "bs \<noteq> 0" using \<open>4096 \<le> unat bs\<close> by auto
    ultimately show ?thesis using and_pred_zero by blast
  qed
  ultimately show "validate_block_size bs"
    by (simp add: validate_block_size_def MIN_SQUASHFS_BLOCK_SIZE_def MAX_SQUASHFS_BLOCK_SIZE_def
        word_less_nat_alt not_less)
qed

section \<open>File content\<close>

text \<open>The blocks of a file, each read where the sizes of those before it put it.\<close>

fun data_blocks ::
  "codec \<Rightarrow> byte list \<Rightarrow> squashfs_superblock \<Rightarrow> u64 \<Rightarrow> u32 list \<Rightarrow> u64 \<Rightarrow> u64 \<Rightarrow> byte list list option" where
  "data_blocks cx f sb file_size [] block_offset bytes_before = Some []"
| "data_blocks cx f sb file_size (raw # raws) block_offset bytes_before =
     (let len = squashfs_expected_len sb file_size bytes_before
      in do { b \<leftarrow> data_block cx f sb block_offset raw len;
              bs \<leftarrow> data_blocks cx f sb file_size raws (block_offset + ucast (raw AND 0xFFFFFF))
                     (bytes_before + len);
              Some (b # bs) })"

definition squashfs_content ::
  "codec \<Rightarrow> byte list \<Rightarrow> squashfs_superblock \<Rightarrow> squashfs_inode \<Rightarrow> byte list option" where
  "squashfs_content cx f sb i =
     do { bs \<leftarrow> data_blocks cx f sb (si_file_size i) (si_block_sizes i) (si_content_blocks_start i) 0;
          tail \<leftarrow> (if si_frag_index i = SQUASHFS_INVALID_FRAG then Some []
                  else fragment_tail cx f sb i (of_nat (length (concat bs))));
          Some (concat bs @ tail) }"

text \<open>What \<open>read_block_sizes\<close> guarantees of the number of blocks.\<close>

definition block_list_ok :: "squashfs_superblock \<Rightarrow> squashfs_inode \<Rightarrow> bool" where
  "block_list_ok sb i \<longleftrightarrow>
     unat (si_file_size i) \<le> 4294967296 \<and>
     length (si_block_sizes i) =
       (if si_frag_index i = SQUASHFS_INVALID_FRAG
        then (unat (si_file_size i) + unat (sb_block_size sb) - 1) div unat (sb_block_size sb)
        else unat (si_file_size i) div unat (sb_block_size sb))"

lemma read_sizes_length: "read_sizes cx f c n = Some ws \<Longrightarrow> length ws = n"
  by (induction n arbitrary: c ws) (auto simp: Option.bind_eq_Some_conv)

lemma read_block_sizes_ok:
  assumes "read_block_sizes cx f c (si_file_size out) (ucast (sb_block_size sb)) (si_frag_index out) out = Some i"
    and "validate_block_size (sb_block_size sb)"
  shows "block_list_ok sb i"
proof -
  let ?b = "sb_block_size sb"
  have b: "4096 \<le> unat ?b" "unat ?b \<le> 1048576" using validate_block_size_bounds [OF assms(2)] by auto
  have same: "si_file_size i = si_file_size out" "si_frag_index i = si_frag_index out"
    using read_block_sizes_fields [OF assms(1)] by (cases i; cases out; simp)+
  have fs: "unat (si_file_size out) \<le> 4294967296"
    using assms(1) by (auto simp: read_block_sizes_def MAX_EXTRACTED_FILE_SIZE_def word_less_nat_alt split: if_splits)
  define n where "n = (if si_frag_index out = SQUASHFS_INVALID_FRAG
      then (si_file_size out + ucast ?b - 1) div ucast ?b else si_file_size out div (ucast ?b :: u64))"
  have "unat (si_file_size out + ucast ?b) = unat (si_file_size out) + unat ?b"
    using fs b by (subst unat_plus_small) (simp_all)
  then have "unat (si_file_size out + ucast ?b - 1) = unat (si_file_size out) + unat ?b - 1"
    using b by (subst unat_minus_small) (simp_all add: word_le_nat_alt)
  then have un: "unat n = (if si_frag_index out = SQUASHFS_INVALID_FRAG
      then (unat (si_file_size out) + unat ?b - 1) div unat ?b else unat (si_file_size out) div unat ?b)"
    by (simp add: n_def unat_div_distrib)
  have lim: "unat n \<le> 1048576"
    using assms(1) unfolding read_block_sizes_def n_def [symmetric] Let_def
    by (auto simp: MAX_BLOCKS_PER_FILE_def word_less_nat_alt not_less split: if_splits)
  then have un32: "unat (ucast n :: u32) = unat n" by (simp add: unat_narrow)
  have "length (si_block_sizes i) = unat n"
  proof (cases "(ucast n :: u32) = 0")
    case True
    then have "unat n = 0" using un32 by simp
    then show ?thesis
      using assms(1) True unfolding read_block_sizes_def n_def [symmetric] Let_def
      by (auto split: if_splits)
  next
    case False
    then show ?thesis
      using assms(1) un32 unfolding read_block_sizes_def n_def [symmetric] Let_def
      by (auto simp: Option.bind_eq_Some_conv dest: read_sizes_length split: if_splits)
  qed
  with un same fs show ?thesis by (simp add: block_list_ok_def)
qed

lemma with_content_ok:
  "with_content cx f c (ucast (sb_block_size sb)) True out = Some i \<Longrightarrow>
     validate_block_size (sb_block_size sb) \<Longrightarrow> block_list_ok sb i"
  by (auto simp: with_content_def intro: read_block_sizes_ok)

lemma read_type_fields_ok:
  assumes "read_type_fields cx f sb c True out = Some i" and "si_type out = 2 \<or> si_type out = 9"
    and "validate_block_size (sb_block_size sb)"
  shows "block_list_ok sb i"
  using assms
  by (auto simp: read_type_fields_def Option.bind_eq_Some_conv read_basic_file_fields_def
      read_extended_file_fields_def intro: with_content_ok split: prod.splits)

lemma read_type_fields_type: "read_type_fields cx f sb c w out = Some i \<Longrightarrow> si_type i = si_type out"
proof -
  have wc: "with_content cx f c' bsz w out' = Some i \<Longrightarrow> si_type i = si_type out'" for c' bsz out'
    using read_block_sizes_fields by (cases i; cases out') (fastforce simp: with_content_def split: if_splits)
  assume "read_type_fields cx f sb c w out = Some i"
  then show ?thesis
    by (auto simp: read_type_fields_def Let_def Option.bind_eq_Some_conv read_basic_dir_fields_def
        read_extended_dir_fields_def read_symlink_fields_def read_basic_file_fields_def
        read_extended_file_fields_def dest!: wc split: if_splits prod.splits)
qed

lemma read_inode_block_list:
  assumes "read_inode cx f sb off pos True = Some i" and "si_type i = 2 \<or> si_type i = 9"
    and "validate_block_size (sb_block_size sb)"
  shows "block_list_ok sb i"
  using assms read_type_fields_type
  by (fastforce simp: read_inode_def Option.bind_eq_Some_conv intro: read_type_fields_ok split: prod.splits)

lemma data_block_length:
  "data_block cx f sb off raw len = Some b \<Longrightarrow> length b = unat len"
  by (auto simp: data_block_def Let_def Option.bind_eq_Some_conv split: if_splits)

lemma expected_len_unat:
  assumes "unat before \<le> unat sz" and "unat sz \<le> 4294967296" and "unat (sb_block_size sb) \<le> 1048576"
  shows "unat (squashfs_expected_len sb sz before) = min (unat (sb_block_size sb)) (unat sz - unat before)"
proof -
  have "unat (before + ucast (sb_block_size sb)) = unat before + unat (sb_block_size sb)"
    using assms by (subst unat_plus_small) simp_all
  moreover have "unat (sz - before) = unat sz - unat before"
    using assms(1) by (intro unat_minus_small) (simp add: word_le_nat_alt)
  ultimately show ?thesis
    by (auto simp: squashfs_expected_len_def word_less_nat_alt)
qed

lemma min_chunk: "min a r + min x (r - min a r) = min (a + x) (r :: nat)"
  by (auto simp: min_def)

lemma data_blocks_length:
  assumes "data_blocks cx f sb sz raws off before = Some bs"
    and "unat before \<le> unat sz" and "unat sz \<le> 4294967296" and "unat (sb_block_size sb) \<le> 1048576"
  shows "length (concat bs) = min (length raws * unat (sb_block_size sb)) (unat sz - unat before)"
  using assms
proof (induction raws arbitrary: off before bs)
  case (Cons raw raws)
  let ?len = "squashfs_expected_len sb sz before"
  note len = expected_len_unat [OF Cons.prems(2,3,4)]
  have b: "unat (before + ?len) = unat before + unat ?len"
    using Cons.prems(2,3) len by (subst unat_plus_small) simp_all
  from Cons.prems(1) obtain b bs' where bs: "bs = b # bs'" "data_block cx f sb off raw ?len = Some b"
    "data_blocks cx f sb sz raws (off + ucast (raw AND 0xFFFFFF)) (before + ?len) = Some bs'"
    by (auto simp: Let_def Option.bind_eq_Some_conv)
  have "length (concat bs') = min (length raws * unat (sb_block_size sb)) (unat sz - unat (before + ?len))"
    by (rule Cons.IH [OF bs(3)]) (use Cons.prems len b in auto)
  then show ?case
    using data_block_length [OF bs(2)] len b min_chunk [of "unat (sb_block_size sb)" "unat sz - unat before"]
    by (simp add: bs(1))
qed simp

text \<open>The loop writes the blocks of the specification, or stops at the first it cannot read.\<close>

lemma write_blocks_spec:
  assumes "lookup d h = Some (RegFile old)"
  shows "case data_blocks cx f sb sz raws off before of
      None \<Rightarrow> \<exists>b d' bs'. write_blocks cx f sb sz h raws off before d = ((False, b), d') \<and>
                lookup d' h = Some (RegFile bs') \<and> changed d d' \<subseteq> {h}
    | Some bs \<Rightarrow> \<exists>d'. write_blocks cx f sb sz h raws off before d =
                  ((True, before + of_nat (length (concat bs))), d') \<and>
                lookup d' h = Some (RegFile (old @ concat bs)) \<and> changed d d' \<subseteq> {h}"
  using assms
proof (induction raws arbitrary: off before d old)
  case Nil
  then show ?case by simp
next
  case (Cons raw raws)
  let ?len = "squashfs_expected_len sb sz before"
  show ?case
  proof (cases "data_block cx f sb off raw ?len")
    case None
    with Cons.prems show ?thesis by (simp add: Let_def write_data_block_def)
  next
    case (Some b)
    let ?d = "sys_fwrite h b d"
    have l: "lookup ?d h = Some (RegFile (old @ b))" using Cons.prems by (rule lookup_fwrite_file)
    have fr: "changed d d' \<subseteq> {h}" if "changed ?d d' \<subseteq> {h}" for d'
      by (rule changed_trans [OF fwrite_changed that])
    have step: "write_blocks cx f sb sz h (raw # raws) off before d =
        write_blocks cx f sb sz h raws (off + ucast (raw AND 0xFFFFFF)) (before + ?len) ?d"
      using Some by (simp add: Let_def write_data_block_def)
    have n: "of_nat (length b) = ?len" using data_block_length [OF Some] by simp
    show ?thesis
      unfolding step using Cons.IH [OF l, of "off + ucast (raw AND 0xFFFFFF)" "before + ?len"] Some fr n
      by (auto simp: Let_def add.assoc split: option.splits)
  qed
qed

lemma fragment_tail_length:
  assumes "fragment_tail cx f sb i before = Some bs" and "codec_bounded cx"
    and "unat (sb_block_size sb) \<le> 1048576" and "unat (si_file_size i - before) \<le> 1048576"
  shows "length bs = unat (si_file_size i - before)"
proof -
  let ?tail = "si_file_size i - before" and ?o = "si_frag_block_offset i"
  from assms(1) obtain st sz c buf where b: "read_and_inflate_block cx f sb st sz c (sb_block_size sb) = Some buf"
    and fit: "\<not> ucast ?o + ?tail > of_nat (length buf)"
    and bs: "bs = take (unat ?tail) (drop (unat ?o) buf)"
    by (auto simp: fragment_tail_def Let_def Option.bind_eq_Some_conv split: if_splits prod.splits)
  have "length buf \<le> unat (sb_block_size sb)"
    using b decompress_block_bound [OF assms(2)]
    by (auto simp: read_and_inflate_block_def Option.bind_eq_Some_conv word_less_nat_alt not_less
        split: if_splits dest: read_at_length)
  then have "unat (of_nat (length buf) :: u64) = length buf"
    using assms(3) unfolding unat_of_nat by simp
  moreover have "unat (ucast ?o + ?tail) = unat ?o + unat ?tail"
    using assms(4) unat_u32_bound [of ?o] unat_plus_small(1) [of "ucast ?o" ?tail, unfolded unat_widen]
    by linarith
  ultimately have "unat ?o + unat ?tail \<le> length buf"
    using fit by (simp add: word_less_nat_alt not_less)
  then show ?thesis by (simp add: bs)
qed

lemma mod_via_div: "(b::nat) > 0 \<Longrightarrow> n - n div b * b = n mod b"
  by (simp add: modulo_nat_def mult.commute)

lemma squashfs_content_length:
  assumes "squashfs_content cx f sb i = Some bs" and "codec_bounded cx"
    and "block_list_ok sb i" and "validate_block_size (sb_block_size sb)"
  shows "length bs = unat (si_file_size i)"
proof -
  let ?b = "unat (sb_block_size sb)" and ?n = "length (si_block_sizes i)" and ?s = "unat (si_file_size i)"
  have b: "4096 \<le> ?b" "?b \<le> 1048576" using validate_block_size_bounds [OF assms(4)] by auto
  have s: "?s \<le> 4294967296" using assms(3) by (simp add: block_list_ok_def)
  from assms(1) obtain blks tail where
    d: "data_blocks cx f sb (si_file_size i) (si_block_sizes i) (si_content_blocks_start i) 0 = Some blks"
    and t: "(if si_frag_index i = SQUASHFS_INVALID_FRAG then Some []
             else fragment_tail cx f sb i (of_nat (length (concat blks)))) = Some tail"
    and bs: "bs = concat blks @ tail"
    by (auto simp: squashfs_content_def Option.bind_eq_Some_conv)
  have len: "length (concat blks) = min (?n * ?b) ?s"
    using data_blocks_length [OF d _ s b(2)] by simp
  show ?thesis
  proof (cases "si_frag_index i = SQUASHFS_INVALID_FRAG")
    case True
    then have "?n = (?s + ?b - 1) div ?b" using assms(3) by (simp add: block_list_ok_def)
    moreover have "?s \<le> (?s + ?b - 1) div ?b * ?b"
    proof -
      have "?s + ?b - 1 < (?s + ?b - 1) div ?b * ?b + ?b"
        using dividend_less_div_times [of ?b "?s + ?b - 1"] b(1) by linarith
      then show ?thesis by linarith
    qed
    ultimately show ?thesis using len t True bs by simp
  next
    case False
    then have n: "?n = ?s div ?b" using assms(3) by (simp add: block_list_ok_def)
    then have l: "length (concat blks) = ?s div ?b * ?b" using len by simp
    then have le: "length (concat blks) \<le> ?s" by simp
    then have u: "unat (of_nat (length (concat blks)) :: u64) = length (concat blks)"
      using s unfolding unat_of_nat by simp
    have m: "unat (si_file_size i - of_nat (length (concat blks))) = ?s - length (concat blks)"
      using le u by (subst unat_minus_small) (simp_all add: word_le_nat_alt)
    have "?s - length (concat blks) = ?s mod ?b" using b l by (simp add: mod_via_div)
    moreover have "?s mod ?b < ?b" using b by simp
    ultimately have "unat (si_file_size i - of_nat (length (concat blks))) \<le> 1048576"
      using m b by linarith
    from fragment_tail_length [OF _ assms(2) b(2) this] t False
    have "length tail = ?s - length (concat blks)" using m by simp
    then show ?thesis using bs le by simp
  qed
qed

section \<open>The regular-file writer\<close>

lemma squashfs_extract_file_spec:
  assumes "\<not> crimp_fs_path_is_symlink d p" and "fopen_wb p d = Some (h, d1)"
  shows "\<exists>d2. squashfs_extract_regular_file cx f sb i p d = (squashfs_content cx f sb i \<noteq> None, d2) \<and>
    lookup d2 p = map_option RegFile (squashfs_content cx f sb i) \<and> changed d d2 \<subseteq> {p}"
proof -
  have h: "h = p" "d1 = put p (RegFile []) d"
    using fopen_wb_plain [OF symlink_False [OF assms(1)] assms(2)] by auto
  have opened: "changed d d1 \<subseteq> {p}" by (auto simp: changed_def h)
  have l: "lookup d1 p = Some (RegFile [])" by (simp add: h)
  note w = write_blocks_spec [OF l, of cx f sb "si_file_size i" "si_block_sizes i" "si_content_blocks_start i" 0]
  have gone: "lookup (sys_remove p d2) p = None \<and> changed d (sys_remove p d2) \<subseteq> {p}"
    if "lookup d2 p = Some (RegFile bs')" "changed d1 d2 \<subseteq> {p}" for d2 bs'
    using that lookup_remove_file [of d2 p] changed_trans [OF opened changed_trans [OF that(2) remove_changed]]
    by simp
  show ?thesis
  proof (cases "data_blocks cx f sb (si_file_size i) (si_block_sizes i) (si_content_blocks_start i) 0")
    case None
    with w obtain b d2 bs' where d2: "write_blocks cx f sb (si_file_size i) p (si_block_sizes i)
          (si_content_blocks_start i) 0 d1 = ((False, b), d2)"
        "lookup d2 p = Some (RegFile bs')" "changed d1 d2 \<subseteq> {p}" by auto
    have "squashfs_extract_regular_file cx f sb i p d = (False, sys_remove p d2)"
      using assms d2(1) by (simp add: squashfs_extract_regular_file_def h)
    with None gone [OF d2(2,3)] show ?thesis by (simp add: squashfs_content_def)
  next
    case (Some bs)
    with w obtain d2 where d2: "write_blocks cx f sb (si_file_size i) p (si_block_sizes i)
          (si_content_blocks_start i) 0 d1 = ((True, of_nat (length (concat bs))), d2)"
        "lookup d2 p = Some (RegFile (concat bs))" "changed d1 d2 \<subseteq> {p}" by auto
    have x: "squashfs_extract_regular_file cx f sb i p d =
        (if si_frag_index i = SQUASHFS_INVALID_FRAG then (True, d2)
         else (case fragment_tail cx f sb i (of_nat (length (concat bs))) of
                 None \<Rightarrow> (False, sys_remove p d2) | Some t \<Rightarrow> (True, sys_fwrite p t d2)))"
      using assms d2(1) by (simp add: squashfs_extract_regular_file_def h)
    have c: "squashfs_content cx f sb i = (if si_frag_index i = SQUASHFS_INVALID_FRAG then Some (concat bs)
        else map_option (\<lambda>t. concat bs @ t) (fragment_tail cx f sb i (of_nat (length (concat bs)))))"
      using Some by (cases "fragment_tail cx f sb i (of_nat (length (concat bs)))") (auto simp: squashfs_content_def)
    have fr: "changed d d2 \<subseteq> {p}" by (rule changed_trans [OF opened d2(3)])
    have app: "changed d (sys_fwrite p t d2) \<subseteq> {p}" for t
      by (rule changed_trans [OF fr fwrite_changed])
    show ?thesis
      unfolding x c using d2(2) fr app gone [OF d2(2,3)] lookup_fwrite_file [OF d2(2)]
      by (auto split: option.split)
  qed
qed

interpretation squashfs_writer: content_writer
  "squashfs_extract_regular_file cx f sb i" "squashfs_content cx f sb i" for cx f sb i
proof
  fix p d d'
  let ?w = "squashfs_extract_regular_file cx f sb i p d"
  have "?w = (False, d) \<or> fopen_wb p d \<noteq> None \<and> (\<exists>d2. ?w = (squashfs_content cx f sb i \<noteq> None, d2) \<and>
      lookup d2 p = map_option RegFile (squashfs_content cx f sb i) \<and> changed d d2 \<subseteq> {p})"
  proof (cases "crimp_fs_path_is_symlink d p \<or> fopen_wb p d = None")
    case True
    then show ?thesis by (auto simp: squashfs_extract_regular_file_def)
  next
    case False
    then obtain h d1 where "fopen_wb p d = Some (h, d1)" by auto
    with squashfs_extract_file_spec [of d p h d1 cx f sb i] False show ?thesis by auto
  qed
  then show "changed d (snd ?w) \<subseteq> {p}"
    and "?w = (True, d') \<Longrightarrow> \<exists>bs. squashfs_content cx f sb i = Some bs \<and> lookup d' p = Some (RegFile bs)"
    and "?w = (True, d') \<Longrightarrow> fopen_wb p d \<noteq> None"
    and "?w = (False, d') \<Longrightarrow> lookup d' p = lookup d p \<or> lookup d' p = None \<and> fopen_wb p d \<noteq> None"
    by auto
  show "\<not> crimp_fs_path_is_symlink d p" if "?w = (True, d')"
    using that by (auto simp: squashfs_extract_regular_file_def)
  show "fst ?w = (squashfs_content cx f sb i \<noteq> None)" if plain: "\<not> crimp_fs_path_is_symlink d p" and opens: "fopen_wb p d \<noteq> None"
  proof -
    obtain h d1 where "fopen_wb p d = Some (h, d1)" using opens by auto
    from squashfs_extract_file_spec [OF plain this, of cx f sb i] show ?thesis by auto
  qed
qed

section \<open>Properties\<close>

text \<open>
  C12: With the block list of a regular file read from the image, writing the file (at a
  path that is no link and that can be opened) succeeds exactly when every block and
  the fragment tail can be read, and the file then holds them in order, as many bytes
  as the inode claims; when it fails nothing is left at the path.
\<close>

theorem squashfs_file_content:
  assumes "codec_bounded cx" and "validate_block_size (sb_block_size sb)"
    and "read_inode cx f sb off pos True = Some i" and "si_type i = 2 \<or> si_type i = 9"
    and "\<not> crimp_fs_path_is_symlink d p" and "fopen_wb p d = Some (h, d1)"
    and "squashfs_extract_regular_file cx f sb i p d = (ok, d')"
  shows "ok = (squashfs_content cx f sb i \<noteq> None) \<and>
    lookup d' p = map_option RegFile (squashfs_content cx f sb i) \<and>
    pred_option (\<lambda>bs. length bs = unat (si_file_size i)) (squashfs_content cx f sb i)"
  using squashfs_extract_file_spec [OF assms(5,6), of cx f sb i] assms(7)
    squashfs_content_length [OF _ assms(1) read_inode_block_list [OF assms(3,4,2)] assms(2)]
  by (auto simp: pred_option_def)

theorem squashfs_file_content_witness:
  "\<exists>i. read_inode sample_codec squashfs_sample_image squashfs_sample_super 0 32 True = Some i \<and>
     lookup (snd (squashfs_extract_regular_file sample_codec squashfs_sample_image squashfs_sample_super
        i ''f'' [])) ''f'' = Some (RegFile [1, 2, 3])"
proof -
  let ?i = "squashfs_inode_zero\<lparr>si_type := 2, si_inode_number := 2, si_file_size := 3\<rparr>"
  have v: "validate_block_size (sb_block_size squashfs_sample_super)"
    and i: "read_inode sample_codec squashfs_sample_image squashfs_sample_super 0 32 True = Some ?i"
    and t: "si_type ?i = 2 \<or> si_type ?i = 9"
    and s: "\<not> crimp_fs_path_is_symlink [] ''f''" and o: "fopen_wb ''f'' [] = Some (''f'', [(''f'', RegFile [])])"
    and c: "squashfs_content sample_codec squashfs_sample_image squashfs_sample_super ?i = Some [1, 2, 3]"
    by code_simp+
  obtain ok d' where r: "squashfs_extract_regular_file sample_codec squashfs_sample_image
      squashfs_sample_super ?i ''f'' [] = (ok, d')" by fastforce
  from squashfs_file_content [OF sample_codec_bounded v i t s o r] c i r show ?thesis by auto
qed

end
