(* ===== verification/Squashfs.thy ===== *)
theory Squashfs
  imports SquashfsFile
begin

text \<open>
  The directory walk of \<open>src/extract/squashfs.c\<close> over groups of entries, bounded by a
  depth, and on it listing and extraction; and that they keep the contract of a reader.
\<close>

section \<open>Directory walk\<close>

definition MAX_DIR_DEPTH :: nat where "MAX_DIR_DEPTH = 32"

record walk_context =
  wc_codec :: codec
  wc_f :: "byte list"
  wc_sb :: squashfs_superblock
  wc_output_dir :: "string option"

text \<open>
  One entry of the directory table: the offset of its inode in its block, its name,
  the cursor behind it and the bytes left in the listing.
\<close>

definition read_dir_entry ::
  "codec \<Rightarrow> byte list \<Rightarrow> metadata_cursor \<Rightarrow> u64 \<Rightarrow> (u16 \<times> string \<times> metadata_cursor \<times> u64) option" where
  "read_dir_entry cx f c0 remaining =
     (if remaining < 8 then None
      else do {
        (offset, c1) \<leftarrow> cursor_u16 cx f c0;
        (inode_offset, c2) \<leftarrow> cursor_u16 cx f c1;
        (type, c3) \<leftarrow> cursor_u16 cx f c2;
        (name_size, c4) \<leftarrow> cursor_u16 cx f c3;
        let remaining1 = remaining - 8;
        let name_len = (ucast name_size + 1 :: u32);
        if remaining1 < ucast name_len \<or> name_len > 256 then None
        else do {
          (name, c5) \<leftarrow> cursor_read cx f c4 (unat name_len);
          Some (offset, text_of name, c5, remaining1 - ucast name_len) } })"

definition process_dir_entry ::
  "walk_context \<Rightarrow> (u64 \<Rightarrow> u16 \<Rightarrow> u64 \<Rightarrow> string \<Rightarrow> wstate \<Rightarrow> unit option \<times> wstate) \<Rightarrow>
   metadata_cursor \<Rightarrow> u64 \<Rightarrow> u32 \<Rightarrow> string \<Rightarrow> wstate \<Rightarrow> (metadata_cursor \<times> u64) option \<times> wstate" where
  "process_dir_entry ctx walk c remaining start parent_path =
     sbind (slift (read_dir_entry (wc_codec ctx) (wc_f ctx) c remaining))
       (\<lambda>(offset, name, c', remaining').
          if \<not> crimp_fs_path_component_is_safe name then slift None
          else sbind (slift (child_path_of parent_path name)) (\<lambda>child_path.
            sbind (slift (read_inode (wc_codec ctx) (wc_f ctx) (wc_sb ctx) (ucast start) offset
                            (wc_output_dir ctx \<noteq> None))) (\<lambda>child.
              let is_dir = (si_type child = 1 \<or> si_type child = 8);
                  is_reg = (si_type child = 2 \<or> si_type child = 9)
              in sbind (publish_entry (wc_output_dir ctx) child_path is_dir is_reg (si_file_size child)
                          (squashfs_extract_regular_file (wc_codec ctx) (wc_f ctx) (wc_sb ctx) child))
                   (\<lambda>_. sbind (if is_dir then walk (si_dir_block_index child) (si_dir_block_offset child)
                                               (si_dir_size child) child_path
                                else slift (Some ()))
                     (\<lambda>_. slift (Some (c', remaining')))))))"

text \<open>The inner loop: \<open>n\<close> entries of one header group.\<close>

fun walk_group ::
  "walk_context \<Rightarrow> (u64 \<Rightarrow> u16 \<Rightarrow> u64 \<Rightarrow> string \<Rightarrow> wstate \<Rightarrow> unit option \<times> wstate) \<Rightarrow>
   u32 \<Rightarrow> string \<Rightarrow> nat \<Rightarrow> metadata_cursor \<Rightarrow> u64 \<Rightarrow> wstate \<Rightarrow> (metadata_cursor \<times> u64) option \<times> wstate" where
  "walk_group ctx walk start parent_path 0 c remaining = slift (Some (c, remaining))"
| "walk_group ctx walk start parent_path (Suc n) c remaining =
     sbind (process_dir_entry ctx walk c remaining start parent_path)
       (\<lambda>(c', remaining'). walk_group ctx walk start parent_path n c' remaining')"

text \<open>The header of a group: its entry count, the inode block, the cursor behind it.\<close>

definition read_group_header ::
  "codec \<Rightarrow> byte list \<Rightarrow> metadata_cursor \<Rightarrow> u64 \<Rightarrow> (nat \<times> u32 \<times> metadata_cursor \<times> u64) option" where
  "read_group_header cx f c0 remaining =
     (if remaining < 12 then None
      else do {
        (count, c1) \<leftarrow> cursor_u32 cx f c0;
        (start, c2) \<leftarrow> cursor_u32 cx f c1;
        (inode_number_base, c3) \<leftarrow> cursor_u32 cx f c2;
        let entry_count = count + 1;
        if entry_count > 256 then None
        else Some (unat entry_count, start, c3, remaining - 12) })"

text \<open>No entry gives bytes back and every group consumes its header: the walk of one directory ends.\<close>

lemma read_dir_entry_remaining:
  "read_dir_entry cx f c remaining = Some (offset, name, c', remaining') \<Longrightarrow>
     unat remaining' \<le> unat remaining"
proof -
  assume a: "read_dir_entry cx f c remaining = Some (offset, name, c', remaining')"
  then obtain name_len :: u32 where r: "remaining' = remaining - 8 - ucast name_len"
    "8 \<le> remaining" "ucast name_len \<le> remaining - 8"
    by (auto simp: read_dir_entry_def Let_def Option.bind_eq_Some_conv not_less split: if_splits prod.splits)
  then have "unat remaining' = unat (remaining - 8) - unat name_len"
    by (simp add: unat_minus_small)
  moreover have "unat (remaining - 8) = unat remaining - 8" using r(2) by (simp add: unat_minus_small)
  ultimately show ?thesis by simp
qed

lemma process_dir_entry_remaining:
  "process_dir_entry ctx walk c remaining start parent st = (Some (c', remaining'), st') \<Longrightarrow>
     unat remaining' \<le> unat remaining"
  by (auto simp: process_dir_entry_def sbind_Some Let_def split: if_splits
      dest!: read_dir_entry_remaining)

lemma walk_group_remaining:
  "walk_group ctx walk start parent n c remaining st = (Some (c', remaining'), st') \<Longrightarrow>
     unat remaining' \<le> unat remaining"
proof (induction n arbitrary: c remaining st)
  case (Suc n)
  then obtain c1 r1 st1 where p: "process_dir_entry ctx walk c remaining start parent st = (Some (c1, r1), st1)"
    and g: "walk_group ctx walk start parent n c1 r1 st1 = (Some (c', remaining'), st')"
    by (auto simp: sbind_Some)
  from process_dir_entry_remaining [OF p] Suc.IH [OF g] show ?case by simp
qed simp

lemma read_group_header_remaining:
  "read_group_header cx f c remaining = Some (n, start, c', remaining') \<Longrightarrow>
     unat remaining' < unat remaining"
proof -
  assume "read_group_header cx f c remaining = Some (n, start, c', remaining')"
  then have r: "remaining' = remaining - 12" "12 \<le> remaining"
    by (auto simp: read_group_header_def Let_def Option.bind_eq_Some_conv not_less split: if_splits prod.splits)
  from r(2) have "12 \<le> unat remaining" by (simp add: word_le_nat_alt)
  then show ?thesis using r by (simp add: unat_minus_small)
qed

function walk_groups ::
  "walk_context \<Rightarrow> (u64 \<Rightarrow> u16 \<Rightarrow> u64 \<Rightarrow> string \<Rightarrow> wstate \<Rightarrow> unit option \<times> wstate) \<Rightarrow>
   string \<Rightarrow> metadata_cursor \<Rightarrow> u64 \<Rightarrow> wstate \<Rightarrow> unit option \<times> wstate" where
  "walk_groups ctx walk parent_path c remaining st =
     (if remaining > 0 then
        (case read_group_header (wc_codec ctx) (wc_f ctx) c remaining of
           None \<Rightarrow> (None, st)
         | Some (entry_count, start, c1, remaining1) \<Rightarrow>
             (case walk_group ctx walk start parent_path entry_count c1 remaining1 st of
                (None, st') \<Rightarrow> (None, st')
              | (Some (c2, remaining2), st') \<Rightarrow> walk_groups ctx walk parent_path c2 remaining2 st'))
      else (Some (), st))"
  by pat_completeness auto
termination
proof (relation "measure (\<lambda>(ctx, walk, parent, c, remaining, st). unat remaining)", goal_cases)
  case (2 ctx walk parent c remaining st hdr n y start z c1 remaining1 q st' q' c2 remaining2)
  then show ?case
    using read_group_header_remaining [of "wc_codec ctx" "wc_f ctx" c remaining n start c1 remaining1]
      walk_group_remaining [of ctx walk start parent n c1 remaining1 st c2 remaining2 st'] by simp
qed simp

declare walk_groups.simps [simp del]

function squashfs_walk_directory ::
  "walk_context \<Rightarrow> u64 \<Rightarrow> u16 \<Rightarrow> u64 \<Rightarrow> string \<Rightarrow> nat \<Rightarrow> wstate \<Rightarrow> unit option \<times> wstate" where
  "squashfs_walk_directory ctx dir_block_index dir_block_offset dir_size parent_path depth st =
     (if depth > MAX_DIR_DEPTH then (None, st)
      else if dir_size < 4 then (Some (), st)
      else case cursor_init (wc_codec ctx) (wc_f ctx)
                  (sb_directory_table_start (wc_sb ctx) + dir_block_index) dir_block_offset
                  (sb_compression (wc_sb ctx)) of
             None \<Rightarrow> (None, st)
           | Some c \<Rightarrow>
               walk_groups ctx
                 (\<lambda>bi bo ds path st'. squashfs_walk_directory ctx bi bo ds path (depth + 1) st')
                 parent_path c (dir_size - 3) st)"
  by pat_completeness auto
termination
  by (relation "measure (\<lambda>(ctx, bi, bo, ds, parent, depth, st). MAX_DIR_DEPTH + 1 - depth)") auto

declare squashfs_walk_directory.simps [simp del]

section \<open>Listing and extraction\<close>

text \<open>From the root inode on: the part \<open>crimp_squashfs_list\<close> and \<open>crimp_squashfs_extract\<close> share.\<close>

definition squashfs_walk_root ::
  "walk_context \<Rightarrow> wstate \<Rightarrow> unit option \<times> wstate" where
  "squashfs_walk_root ctx st =
     (let sb = wc_sb ctx;
          root_block = drop_bit 16 (sb_root_inode sb);
          root_offset = ucast (sb_root_inode sb AND 0xFFFF)
      in case read_inode (wc_codec ctx) (wc_f ctx) sb root_block root_offset False of
           None \<Rightarrow> (None, st)
         | Some root \<Rightarrow>
             squashfs_walk_directory ctx (si_dir_block_index root) (si_dir_block_offset root)
               (si_dir_size root) [] 0 st)"

definition crimp_squashfs_list ::
  "codec \<Rightarrow> disk \<Rightarrow> string \<Rightarrow> crimp_fs_entry_list \<Rightarrow> bool \<times> crimp_fs_entry_list" where
  "crimp_squashfs_list cx d path out =
     (case fopen_rb path d of None \<Rightarrow> (False, out)
      | Some f \<Rightarrow>
          (case squashfs_read_superblock f of None \<Rightarrow> (False, out)
           | Some sb \<Rightarrow>
               (case squashfs_walk_root
                       \<lparr>wc_codec = cx, wc_f = f, wc_sb = sb, wc_output_dir = None\<rparr>
                       \<lparr>ws_entries = crimp_fs_entry_list_init, ws_disk = d\<rparr> of
                  (None, st) \<Rightarrow> (False, crimp_fs_entry_list_free (ws_entries st))
                | (Some _, st) \<Rightarrow> (True, ws_entries st))))"

definition crimp_squashfs_extract ::
  "codec \<Rightarrow> string \<Rightarrow> string \<Rightarrow> disk \<Rightarrow> bool \<times> crimp_fs_entry_list \<times> disk" where
  "crimp_squashfs_extract cx path output_dir d =
     (let out = crimp_fs_entry_list_init
      in case fopen_rb path d of None \<Rightarrow> (False, out, d)
         | Some f \<Rightarrow>
             (case squashfs_read_superblock f of None \<Rightarrow> (False, out, d)
              | Some sb \<Rightarrow>
                  if \<not> validate_block_size (sb_block_size sb) then (False, out, d)
                  else (case crimp_fs_make_directory output_dir d of
                          (False, d1) \<Rightarrow> (False, out, d1)
                        | (True, d1) \<Rightarrow>
                            (case squashfs_walk_root
                                    \<lparr>wc_codec = cx, wc_f = f, wc_sb = sb, wc_output_dir = Some output_dir\<rparr>
                                    \<lparr>ws_entries = out, ws_disk = d1\<rparr> of
                               (None, st) \<Rightarrow> (False, crimp_fs_entry_list_free (ws_entries st), ws_disk st)
                             | (Some _, st) \<Rightarrow> (True, ws_entries st, ws_disk st)))))"

section \<open>The walk\<close>

text \<open>
  What an extracting walk needs of its context, and what it then keeps. The sizes of
  the files are right as long as the decompressor stays within the buffer.
\<close>

definition squashfs_extracts :: "walk_context \<Rightarrow> bool" where
  "squashfs_extracts ctx \<longleftrightarrow> wc_output_dir ctx \<noteq> None \<and> validate_block_size (sb_block_size (wc_sb ctx))"

abbreviation squashfs_walks :: "walk_context \<Rightarrow> disk \<Rightarrow> (wstate \<Rightarrow> 'a option \<times> wstate) \<Rightarrow> bool" where
  "squashfs_walks ctx d0 \<equiv> walks (codec_bounded (wc_codec ctx)) (wc_output_dir ctx) d0"

lemma squashfs_process_walks:
  assumes "path_at n parent" and "n \<le> 32" and "squashfs_extracts ctx"
    and "\<And>bi bo ds path. path_at (Suc n) path \<Longrightarrow> squashfs_walks ctx d0 (walk bi bo ds path)"
  shows "squashfs_walks ctx d0 (process_dir_entry ctx walk c remaining start parent)"
proof -
  obtain od where od: "wc_output_dir ctx = Some od" and size: "validate_block_size (sb_block_size (wc_sb ctx))"
    using assms(3) by (auto simp: squashfs_extracts_def)
  have publish: "walks (codec_bounded (wc_codec ctx)) (Some od) d0
      (publish_entry (Some od) path is_dir is_reg (si_file_size i)
        (squashfs_extract_regular_file (wc_codec ctx) (wc_f ctx) (wc_sb ctx) i))"
    if reg: "is_reg \<Longrightarrow> si_type i = 2 \<or> si_type i = 9" and safe: "crimp_fs_path_component_is_safe name" and path: "child_path_of parent name = Some path"
      and i: "read_inode (wc_codec ctx) (wc_f ctx) (wc_sb ctx) off pos True = Some i"
    for name path is_dir is_reg i off pos
  proof -
    note p = child_path_at [OF assms(1) safe path]
    show ?thesis
      by (rule squashfs_writer.publish_walk [OF p(3)], rule item_ok_walk_item [OF p(1) assms(2) p(2)])
        (rule squashfs_content_length [OF _ _ read_inode_block_list [OF i reg size] size])
  qed
  show ?thesis
    unfolding process_dir_entry_def
    using assms(4) child_path_at(1) [OF assms(1)] walk_ok_any
    by (auto intro!: keeps_intros publish simp: Let_def od split: prod.split)
qed

lemma walk_group_walks:
  assumes "path_at n parent" and "n \<le> 32" and "squashfs_extracts ctx"
    and "\<And>bi bo ds path. path_at (Suc n) path \<Longrightarrow> squashfs_walks ctx d0 (walk bi bo ds path)"
  shows "squashfs_walks ctx d0 (walk_group ctx walk start parent k c remaining)"
proof (induction k arbitrary: c remaining)
  case (Suc k)
  then show ?case
    using squashfs_process_walks [OF assms]
    by (auto intro!: keeps_intros split: prod.split)
qed (simp add: keeps_intros)

lemma walk_groups_walks:
  assumes "path_at n parent" and "n \<le> 32" and "squashfs_extracts ctx"
    and "\<And>bi bo ds path. path_at (Suc n) path \<Longrightarrow> squashfs_walks ctx d0 (walk bi bo ds path)"
  shows "squashfs_walks ctx d0 (walk_groups ctx walk parent c remaining)"
proof -
  let ?I = "walk_ok (item_ok (codec_bounded (wc_codec ctx))) (wc_output_dir ctx) d0"
  let ?J = "walk_any (wc_output_dir ctx) d0"
  have "?I st \<Longrightarrow> (case walk_groups ctx walk parent c remaining st of
      (Some _, st') \<Rightarrow> ?I st' | (None, st') \<Rightarrow> ?J st')" for st
  proof (induction remaining arbitrary: c st rule: measure_induct_rule [of unat])
    case (less remaining)
    note unfold = walk_groups.simps [of ctx walk parent c remaining st]
    show ?case
    proof (cases "remaining > 0 \<and> read_group_header (wc_codec ctx) (wc_f ctx) c remaining \<noteq> None")
      case False
      with less.prems walk_ok_any show ?thesis
        by (cases "read_group_header (wc_codec ctx) (wc_f ctx) c remaining") (auto simp: unfold)
    next
      case True
      then obtain k start c1 r1 where pos: "remaining > 0"
        and h: "read_group_header (wc_codec ctx) (wc_f ctx) c remaining = Some (k, start, c1, r1)" by auto
      obtain q st' where g: "walk_group ctx walk start parent k c1 r1 st = (q, st')" by fastforce
      note now = keepsD [OF walk_group_walks [OF assms] less.prems]
      show ?thesis
      proof (cases q)
        case None
        with pos h g now(2) show ?thesis by (simp add: unfold)
      next
        case (Some p)
        obtain c2 r2 where p: "p = (c2, r2)" by (cases p)
        have "unat r2 < unat remaining"
          using walk_group_remaining [of ctx walk start parent k c1 r1 st] read_group_header_remaining [OF h] g Some p
          by fastforce
        from less.IH [OF this now(1)] pos h g Some p show ?thesis by (simp add: unfold)
      qed
    qed
  qed
  then show ?thesis by (simp add: keeps_def)
qed

lemma squashfs_walk_directory_walks:
  assumes "squashfs_extracts ctx"
  shows "path_at depth parent \<Longrightarrow> squashfs_walks ctx d0 (squashfs_walk_directory ctx bi bo ds parent depth)"
proof (induction "33 - depth" arbitrary: depth bi bo ds parent rule: less_induct)
  case less
  show ?case
  proof (cases "depth > MAX_DIR_DEPTH")
    case True
    then show ?thesis using walk_ok_any by (auto simp: keeps_def squashfs_walk_directory.simps [of ctx bi])
  next
    case False
    have "squashfs_walks ctx d0 (walk_groups ctx
        (\<lambda>bi bo ds path st'. squashfs_walk_directory ctx bi bo ds path (depth + 1) st') parent c (ds - 3))" for c
      using less False assms by (intro walk_groups_walks) (auto simp: MAX_DIR_DEPTH_def)
    with False walk_ok_any show ?thesis
      by (auto simp: keeps_def squashfs_walk_directory.simps [of ctx bi bo ds parent depth] split: option.split)
  qed
qed

lemma squashfs_walk_root_walks: "squashfs_extracts ctx \<Longrightarrow> squashfs_walks ctx d0 (squashfs_walk_root ctx)"
  using squashfs_walk_directory_walks [of ctx 0 "[]" d0] walk_ok_any
  by (auto simp: keeps_def squashfs_walk_root_def Let_def split: option.split)

text \<open>
  Two runs of the walk, the second with an output directory of its own or with none, stay
  related when recording and writing one entry keeps them so. A run that only lists sees
  the inodes without their block lists.
\<close>

definition inode_seen :: "string option \<Rightarrow> squashfs_inode \<Rightarrow> squashfs_inode" where
  "inode_seen output_dir i = (if output_dir = None then i\<lparr>si_block_sizes := []\<rparr> else i)"

lemma inode_seen_fields [simp]:
  "si_type (inode_seen od i) = si_type i" "si_file_size (inode_seen od i) = si_file_size i"
  "si_dir_block_index (inode_seen od i) = si_dir_block_index i" "si_dir_block_offset (inode_seen od i) = si_dir_block_offset i"
  "si_dir_size (inode_seen od i) = si_dir_size i"
  by (simp_all add: inode_seen_def)

lemma squashfs_process_runs_as:
  assumes "R s t"
    and "\<And>child is_dir is_reg sz i s t. R s t \<Longrightarrow> runs_as R
       (publish_entry (Some od) child is_dir is_reg sz (squashfs_extract_regular_file (wc_codec ctx) (wc_f ctx) (wc_sb ctx) i) s)
       (publish_entry od' child is_dir is_reg sz (squashfs_extract_regular_file (wc_codec ctx) (wc_f ctx) (wc_sb ctx) (inode_seen od' i)) t)"
    and "\<And>bi bo ds path s t. R s t \<Longrightarrow> runs_as R (walk bi bo ds path s) (walk' bi bo ds path t)"
  shows "runs_as R (process_dir_entry (ctx\<lparr>wc_output_dir := Some od\<rparr>) walk c remaining start parent s)
                  (process_dir_entry (ctx\<lparr>wc_output_dir := od'\<rparr>) walk' c remaining start parent t)"
proof -
  have inode: "runs_as R (sbind (slift (read_inode cx f sb off pos True)) k s')
      (sbind (slift (read_inode cx f sb off pos (\<exists>y. od' = Some y))) l t')"
    if "R s' t'" "\<And>i. runs_as R (k i s') (l (inode_seen od' i) t')" for cx f sb off pos k l s' t'
    using that read_inode_list [of cx f sb off pos True]
    by (cases "read_inode cx f sb off pos True"; cases od') (auto simp: sbind_def slift_def runs_as_def inode_seen_def)
  show ?thesis
    unfolding process_dir_entry_def
    by (auto intro!: runs_as_sbind runs_as_slift inode assms simp: Let_def split: prod.split)
qed

lemma walk_group_runs_as:
  assumes "R s t"
    and "\<And>child is_dir is_reg sz i s t. R s t \<Longrightarrow> runs_as R
       (publish_entry (Some od) child is_dir is_reg sz (squashfs_extract_regular_file (wc_codec ctx) (wc_f ctx) (wc_sb ctx) i) s)
       (publish_entry od' child is_dir is_reg sz (squashfs_extract_regular_file (wc_codec ctx) (wc_f ctx) (wc_sb ctx) (inode_seen od' i)) t)"
    and "\<And>bi bo ds path s t. R s t \<Longrightarrow> runs_as R (walk bi bo ds path s) (walk' bi bo ds path t)"
  shows "runs_as R (walk_group (ctx\<lparr>wc_output_dir := Some od\<rparr>) walk start parent n c remaining s)
                  (walk_group (ctx\<lparr>wc_output_dir := od'\<rparr>) walk' start parent n c remaining t)"
  using assms(1)
proof (induction n arbitrary: c remaining s t)
  case (Suc n)
  then show ?case
    by (auto intro!: runs_as_sbind squashfs_process_runs_as assms(2,3) split: prod.split)
qed (simp add: runs_as_slift)

lemma walk_groups_runs_as:
  assumes "R s t"
    and "\<And>child is_dir is_reg sz i s t. R s t \<Longrightarrow> runs_as R
       (publish_entry (Some od) child is_dir is_reg sz (squashfs_extract_regular_file (wc_codec ctx) (wc_f ctx) (wc_sb ctx) i) s)
       (publish_entry od' child is_dir is_reg sz (squashfs_extract_regular_file (wc_codec ctx) (wc_f ctx) (wc_sb ctx) (inode_seen od' i)) t)"
    and "\<And>bi bo ds path s t. R s t \<Longrightarrow> runs_as R (walk bi bo ds path s) (walk' bi bo ds path t)"
  shows "runs_as R (walk_groups (ctx\<lparr>wc_output_dir := Some od\<rparr>) walk parent c remaining s)
                  (walk_groups (ctx\<lparr>wc_output_dir := od'\<rparr>) walk' parent c remaining t)"
  using assms(1)
proof (induction remaining arbitrary: c s t rule: measure_induct_rule [of unat])
  case (less remaining)
  note unfold = walk_groups.simps [of "ctx\<lparr>wc_output_dir := Some od\<rparr>" walk parent c remaining s]
    walk_groups.simps [of "ctx\<lparr>wc_output_dir := od'\<rparr>" walk' parent c remaining t]
  show ?case
  proof (cases "remaining > 0 \<and> read_group_header (wc_codec ctx) (wc_f ctx) c remaining \<noteq> None")
    case False
    with less.prems show ?thesis
      by (cases "read_group_header (wc_codec ctx) (wc_f ctx) c remaining") (auto simp: unfold runs_as_def)
  next
    case True
    then obtain n start c1 r1 where pos: "remaining > 0"
      and h: "read_group_header (wc_codec ctx) (wc_f ctx) c remaining = Some (n, start, c1, r1)" by auto
    let ?g = "walk_group (ctx\<lparr>wc_output_dir := Some od\<rparr>) walk start parent n c1 r1 s"
    let ?g' = "walk_group (ctx\<lparr>wc_output_dir := od'\<rparr>) walk' start parent n c1 r1 t"
    have step: "runs_as R ?g ?g'" by (rule walk_group_runs_as [OF less.prems assms(2,3)])
    obtain q s' where g: "?g = (q, s')" by fastforce
    obtain q' t' where g': "?g' = (q', t')" by fastforce
    show ?thesis
    proof (cases q)
      case None
      with pos h g show ?thesis by (simp add: unfold)
    next
      case (Some p)
      obtain c2 r2 where p: "p = (c2, r2)" by (cases p)
      from step g g' Some have e: "q' = q" "R s' t'" by (auto simp: runs_as_def)
      have "unat r2 < unat remaining"
        using walk_group_remaining g read_group_header_remaining [OF h] Some p by fastforce
      from less.IH [OF this e(2)] pos h g g' Some p e show ?thesis by (simp add: unfold)
    qed
  qed
qed

lemma squashfs_walk_directory_runs_as:
  assumes publish: "\<And>child is_dir is_reg sz i s t. R s t \<Longrightarrow> runs_as R
       (publish_entry (Some od) child is_dir is_reg sz (squashfs_extract_regular_file (wc_codec ctx) (wc_f ctx) (wc_sb ctx) i) s)
       (publish_entry od' child is_dir is_reg sz (squashfs_extract_regular_file (wc_codec ctx) (wc_f ctx) (wc_sb ctx) (inode_seen od' i)) t)"
  shows "R s t \<Longrightarrow> runs_as R (squashfs_walk_directory (ctx\<lparr>wc_output_dir := Some od\<rparr>) bi bo ds parent depth s)
             (squashfs_walk_directory (ctx\<lparr>wc_output_dir := od'\<rparr>) bi bo ds parent depth t)"
proof (induction "33 - depth" arbitrary: depth bi bo ds parent s t rule: less_induct)
  case less
  note unfold = squashfs_walk_directory.simps [of "ctx\<lparr>wc_output_dir := Some od\<rparr>" bi bo ds parent depth s]
    squashfs_walk_directory.simps [of "ctx\<lparr>wc_output_dir := od'\<rparr>" bi bo ds parent depth t]
  show ?case
  proof (cases "depth > MAX_DIR_DEPTH")
    case False
    then have "runs_as R (walk_groups (ctx\<lparr>wc_output_dir := Some od\<rparr>)
        (\<lambda>bi bo ds path st'. squashfs_walk_directory (ctx\<lparr>wc_output_dir := Some od\<rparr>) bi bo ds path (depth + 1) st') parent c (ds - 3) s)
      (walk_groups (ctx\<lparr>wc_output_dir := od'\<rparr>)
        (\<lambda>bi bo ds path st'. squashfs_walk_directory (ctx\<lparr>wc_output_dir := od'\<rparr>) bi bo ds path (depth + 1) st') parent c (ds - 3) t)" for c
      using less by (intro walk_groups_runs_as publish less.hyps) (auto simp: MAX_DIR_DEPTH_def)
    with False less.prems show ?thesis by (auto simp: unfold runs_as_def [of _ "(Some (), _)"] split: option.split)
  qed (simp add: unfold)
qed

lemma squashfs_walk_root_runs_as:
  assumes publish: "\<And>child is_dir is_reg sz i s t. R s t \<Longrightarrow> runs_as R
       (publish_entry (Some od) child is_dir is_reg sz (squashfs_extract_regular_file (wc_codec ctx) (wc_f ctx) (wc_sb ctx) i) s)
       (publish_entry od' child is_dir is_reg sz (squashfs_extract_regular_file (wc_codec ctx) (wc_f ctx) (wc_sb ctx) (inode_seen od' i)) t)" and "R s t"
  shows "runs_as R (squashfs_walk_root (ctx\<lparr>wc_output_dir := Some od\<rparr>) s) (squashfs_walk_root (ctx\<lparr>wc_output_dir := od'\<rparr>) t)"
  using assms(2)
  by (auto simp: squashfs_walk_root_def Let_def intro!: squashfs_walk_directory_runs_as publish split: option.split)

section \<open>Extraction\<close>

lemma squashfs_sample_run:
  "crimp_squashfs_extract sample_codec ''i'' ''o'' [(''i'', RegFile squashfs_sample_image)] =
     (True, \<lparr>v_items = [\<lparr>e_path = ''a'', e_is_dir = False, e_size = 3\<rparr>], v_capacity = 16\<rparr>,
      [(''i'', RegFile squashfs_sample_image), (''o'', Directory), (''o/a'', RegFile [1, 2, 3])])"
  by code_simp

text \<open>What an extraction needs of the image; listing does not check the block size.\<close>

definition squashfs_parse :: "byte list \<Rightarrow> (byte list \<times> squashfs_superblock) option" where
  "squashfs_parse f =
     do { sb \<leftarrow> squashfs_read_superblock f;
          if validate_block_size (sb_block_size sb) then Some (f, sb) else None }"

definition squashfs_walk ::
  "codec \<Rightarrow> byte list \<times> squashfs_superblock \<Rightarrow> string option \<Rightarrow> wstate \<Rightarrow> unit option \<times> wstate" where
  "squashfs_walk cx = (\<lambda>(f, sb) output_dir.
     squashfs_walk_root \<lparr>wc_codec = cx, wc_f = f, wc_sb = sb, wc_output_dir = output_dir\<rparr>)"

interpretation squashfs_extractor: walk_reader
  "crimp_squashfs_extract cx" crimp_squashfs_identify "crimp_squashfs_list cx" "codec_bounded cx"
  squashfs_parse "squashfs_walk cx" for cx
proof
  fix path od d f i d1 s t
  show "crimp_squashfs_extract cx path od d =
      (case Option.bind (fopen_rb path d) squashfs_parse of None \<Rightarrow> (False, crimp_fs_entry_list_init, d)
       | Some i \<Rightarrow> (case crimp_fs_make_directory od d of
           (False, d1) \<Rightarrow> (False, crimp_fs_entry_list_init, d1)
         | (True, d1) \<Rightarrow>
             (case squashfs_walk cx i (Some od) \<lparr>ws_entries = crimp_fs_entry_list_init, ws_disk = d1\<rparr> of
                (None, st) \<Rightarrow> (False, crimp_fs_entry_list_init, ws_disk st)
              | (Some _, st) \<Rightarrow> (True, ws_entries st, ws_disk st))))"
    by (auto simp: crimp_squashfs_extract_def squashfs_parse_def squashfs_walk_def Let_def
        split: option.split prod.split bool.split)
  show "crimp_squashfs_list cx d path l0 = (True, ws_entries st)"
    if "Option.bind (fopen_rb path d) squashfs_parse = Some i"
      "squashfs_walk cx i None \<lparr>ws_entries = crimp_fs_entry_list_init, ws_disk = d\<rparr> = (Some (), st)" for l0 st
    using that by (auto simp: crimp_squashfs_list_def squashfs_parse_def squashfs_walk_def bind_eq_Some_conv split: if_splits)
  assume "squashfs_parse f = Some i"
  then obtain sb where i: "i = (f, sb)" "validate_block_size (sb_block_size sb)"
    by (auto simp: squashfs_parse_def bind_eq_Some_conv split: if_splits)
  let ?ctx = "\<lparr>wc_codec = cx, wc_f = f, wc_sb = sb, wc_output_dir = None\<rparr>"
  show "walks (codec_bounded cx) (Some od) d1 (squashfs_walk cx i (Some od))"
    using squashfs_walk_root_walks [of "?ctx\<lparr>wc_output_dir := Some od\<rparr>"] i(2)
    by (simp add: i(1) squashfs_walk_def squashfs_extracts_def)
  show "runs_as same_entries (squashfs_walk cx i (Some od) s) (squashfs_walk cx i None t)" if "same_entries s t"
    using squashfs_walk_root_runs_as [where ctx = ?ctx and od = od and od' = None, OF publish_lists that]
    by (simp add: i(1) squashfs_walk_def)
  show "runs_as (same_under od) (squashfs_walk cx i (Some od) s) (squashfs_walk cx i (Some od) t)" if "same_under od s t"
    using squashfs_walk_root_runs_as [where ctx = ?ctx and od = od and od' = "Some od" and R = "same_under od", OF _ that]
      squashfs_writer.publish_again by (simp add: i(1) squashfs_walk_def inode_seen_def)
qed (auto simp: crimp_squashfs_identify_def squashfs_parse_def fopen_rb_plain bind_eq_None_conv)

section \<open>Properties\<close>

text \<open>
  C18: With a whole group header ahead, the header is refused exactly when its count
  field is 256 or more, except for the count 0xFFFFFFFF: there the 32-bit entry count
  wraps to zero and the group is taken as an empty one.
\<close>

theorem squashfs_group_header_limit:
  assumes "codec_bounded cx" and "cursor_wf c" and "12 \<le> length (cursor_stream cx f c)"
    and "12 \<le> remaining" and "cnt = le_u32 (take 4 (cursor_stream cx f c))"
  shows "read_group_header cx f c remaining = None \<longleftrightarrow> 256 \<le> cnt \<and> cnt \<noteq> 0xFFFFFFFF"
proof -
  obtain c1 where c1: "cursor_u32 cx f c = Some (cnt, c1)" "cursor_wf c1"
      "cursor_stream cx f c1 = drop 4 (cursor_stream cx f c)"
    using cursor_u32_stream [OF assms(1,2), of f] assms(3,5) by auto
  have l1: "4 \<le> length (cursor_stream cx f c1)" using assms(3) c1(3) by simp
  obtain c2 x where c2: "cursor_u32 cx f c1 = Some (x, c2)" "cursor_wf c2"
      "cursor_stream cx f c2 = drop 4 (cursor_stream cx f c1)"
    by (rule cursor_u32_stream [OF assms(1) c1(2) l1])
  have l2: "4 \<le> length (cursor_stream cx f c2)" using assms(3) c1(3) c2(3) by simp
  obtain c3 y where c3: "cursor_u32 cx f c2 = Some (y, c3)"
    by (rule cursor_u32_stream [OF assms(1) c2(2) l2])
  have "cnt + 1 > 256 \<longleftrightarrow> 256 \<le> cnt \<and> cnt \<noteq> 0xFFFFFFFF"
  proof (cases "cnt = 0xFFFFFFFF")
    case False
    have "unat (0xFFFFFFFF :: u32) = 4294967295" by simp
    with False have "unat cnt \<noteq> 4294967295" by (metis word_unat_eq_iff)
    then have "unat cnt + 1 < 4294967296" using unat_u32_bound [of cnt] by linarith
    then have "unat (cnt + 1) = unat cnt + 1" by (subst unat_plus_small) simp_all
    with \<open>cnt \<noteq> 0xFFFFFFFF\<close> show ?thesis by (simp add: word_less_nat_alt word_le_nat_alt less_Suc_eq_le)
  qed simp
  then show ?thesis
    using assms(4) c1(1) c2(1) c3 by (auto simp: read_group_header_def Let_def)
qed

theorem squashfs_group_header_limit_witness:
  "read_group_header sample_codec ([12, 0x80, 0xFF, 0xFF, 0xFF, 0xFF] @ replicate 8 0) (cursor_at 0 1) 12 \<noteq> None"
proof -
  let ?f = "[12, 0x80, 0xFF, 0xFF, 0xFF, 0xFF] @ replicate 8 0 :: byte list"
  have w: "cursor_wf (cursor_at 0 1)" and l: "12 \<le> length (cursor_stream sample_codec ?f (cursor_at 0 1))"
    and c: "0xFFFFFFFF = le_u32 (take 4 (cursor_stream sample_codec ?f (cursor_at 0 1)))"
    by code_simp+
  from squashfs_group_header_limit [OF sample_codec_bounded w l order.refl c] show ?thesis by simp
qed

end
