(* ===== verification/Cramfs.thy ===== *)
theory Cramfs
  imports ImageTree
begin

text \<open>
  \<open>src/extract/cramfs.c\<close>: superblock and inode decoding in either byte order, the
  block-pointer array of a regular file, the bounded directory walk, listing and
  extraction. An open image is its byte content; None is the return value -1 (0 for
  the two readers that return a truth value).
\<close>

section \<open>On-disk structures\<close>

definition CRAMFS_MAGIC :: u32 where "CRAMFS_MAGIC = 0x28cd3d45"
definition CRAMFS_SUPER_SIZE :: nat where "CRAMFS_SUPER_SIZE = 76"
definition CRAMFS_ROOT_INODE_OFFSET :: nat where "CRAMFS_ROOT_INODE_OFFSET = 64"
definition CRAMFS_BLOCK_SIZE :: u32 where "CRAMFS_BLOCK_SIZE = 4096"
definition CRAMFS_S_IFMT :: u32 where "CRAMFS_S_IFMT = 0xF000"
definition CRAMFS_S_IFDIR :: u32 where "CRAMFS_S_IFDIR = 0x4000"
definition CRAMFS_S_IFREG :: u32 where "CRAMFS_S_IFREG = 0x8000"
definition CRAMFS_MAX_DIR_DEPTH :: nat where "CRAMFS_MAX_DIR_DEPTH = 32"

record cramfs_inode =
  ci_mode :: u32
  ci_uid :: u32
  ci_size :: u32
  ci_gid :: u32
  ci_namelen :: u32
  ci_offset :: u64

definition cramfs_decode_inode :: "byte list \<Rightarrow> bool \<Rightarrow> cramfs_inode" where
  "cramfs_decode_inode raw12 big_endian =
     (let w0 = crimp_fs_decode_u32 raw12 big_endian;
          w1 = crimp_fs_decode_u32 (drop 4 raw12) big_endian;
          w2 = crimp_fs_decode_u32 (drop 8 raw12) big_endian
      in \<lparr>ci_mode = w0 AND 0xFFFF,
          ci_uid = drop_bit 16 w0 AND 0xFFFF,
          ci_size = w1 AND 0xFFFFFF,
          ci_gid = drop_bit 24 w1 AND 0xFF,
          ci_namelen = push_bit 2 (w2 AND 0x3F),
          ci_offset = push_bit 2 (ucast (drop_bit 6 w2 AND 0x3FFFFFF))\<rparr>)"

record cramfs_super =
  cs_size :: u32
  cs_big_endian :: bool
  cs_root :: cramfs_inode

definition cramfs_detect_endian :: "byte list \<Rightarrow> bool option" where
  "cramfs_detect_endian raw =
     (if crimp_fs_decode_u32 raw False = CRAMFS_MAGIC then Some False
      else if crimp_fs_decode_u32 raw True = CRAMFS_MAGIC then Some True
      else None)"

definition cramfs_read_superblock :: "byte list \<Rightarrow> cramfs_super option" where
  "cramfs_read_superblock f =
     do { raw \<leftarrow> file_read f 0 CRAMFS_SUPER_SIZE;
          big_endian \<leftarrow> cramfs_detect_endian raw;
          let sb = \<lparr>cs_size = crimp_fs_decode_u32 (drop 4 raw) big_endian,
                    cs_big_endian = big_endian,
                    cs_root = cramfs_decode_inode (drop CRAMFS_ROOT_INODE_OFFSET raw) big_endian\<rparr>;
          if unat (cs_size sb) < CRAMFS_SUPER_SIZE then None else Some sb }"

definition crimp_cramfs_identify :: "disk \<Rightarrow> string \<Rightarrow> crimp_fs_info option" where
  "crimp_cramfs_identify d path =
     do { f \<leftarrow> fopen_rb path d;
          sb \<leftarrow> cramfs_read_superblock f;
          Some \<lparr>fi_type = CRIMP_FS_CRAMFS, fi_inode_count = 0, fi_block_size = CRAMFS_BLOCK_SIZE,
                fi_compression = 0, fi_bytes_used = ucast (cs_size sb)\<rparr> }"

definition crimp_cramfs_compression_name :: string where
  "crimp_cramfs_compression_name = ''zlib''"

section \<open>Regular file content\<close>

text \<open>The next block pointer and the advanced pointer position.\<close>

definition cramfs_read_block_pointer ::
  "byte list \<Rightarrow> cramfs_super \<Rightarrow> u64 \<Rightarrow> u64 \<Rightarrow> (u32 \<times> u64) option" where
  "cramfs_read_block_pointer f sb ptr_pos prev_end =
     do { ptr_raw \<leftarrow> read_at f ptr_pos 4;
          let next_ptr = crimp_fs_decode_u32 ptr_raw (cs_big_endian sb);
          if ucast next_ptr < prev_end \<or> next_ptr > cs_size sb then None
          else Some (next_ptr, ptr_pos + 4) }"

text \<open>The first \<open>expected_len\<close> bytes of the block buffer, the part that is written.\<close>

definition cramfs_fetch_block ::
  "codec \<Rightarrow> byte list \<Rightarrow> u32 \<Rightarrow> u64 \<Rightarrow> u32 \<Rightarrow> byte list option" where
  "cramfs_fetch_block cx f expected_len prev_end next_ptr =
     (let comp_len = ucast next_ptr - prev_end
      in if comp_len = 0 then Some (replicate (unat expected_len) 0)
         else do { comp \<leftarrow> read_at f prev_end (unat comp_len);
                   out \<leftarrow> zlib_uncompress cx comp (unat CRAMFS_BLOCK_SIZE);
                   if length out \<noteq> unat expected_len then None else Some out })"

definition cramfs_expected_len :: "u64 \<Rightarrow> u32 \<Rightarrow> u32" where
  "cramfs_expected_len bytes_written sz =
     (if bytes_written + ucast CRAMFS_BLOCK_SIZE > ucast sz
      then ucast (ucast sz - bytes_written) else CRAMFS_BLOCK_SIZE)"

text \<open>The block loop: \<open>n\<close> blocks are left to write.\<close>

fun cramfs_write_blocks ::
  "codec \<Rightarrow> byte list \<Rightarrow> cramfs_super \<Rightarrow> u32 \<Rightarrow> string \<Rightarrow> nat \<Rightarrow> u64 \<Rightarrow> u64 \<Rightarrow> u64 \<Rightarrow> disk \<Rightarrow> bool \<times> disk" where
  "cramfs_write_blocks cx f sb sz h 0 ptr_pos prev_end bytes_written d = (True, d)"
| "cramfs_write_blocks cx f sb sz h (Suc n) ptr_pos prev_end bytes_written d =
     (case cramfs_read_block_pointer f sb ptr_pos prev_end of
        None \<Rightarrow> (False, d)
      | Some (next_ptr, ptr_pos') \<Rightarrow>
          (let expected_len = cramfs_expected_len bytes_written sz
           in case cramfs_fetch_block cx f expected_len prev_end next_ptr of
                None \<Rightarrow> (False, d)
              | Some blk \<Rightarrow>
                  cramfs_write_blocks cx f sb sz h n ptr_pos' (ucast next_ptr)
                    (bytes_written + ucast expected_len) (sys_fwrite h blk d)))"

definition cramfs_nblocks :: "u32 \<Rightarrow> u32" where
  "cramfs_nblocks sz = (sz + CRAMFS_BLOCK_SIZE - 1) div CRAMFS_BLOCK_SIZE"

definition cramfs_extract_regular_file ::
  "codec \<Rightarrow> byte list \<Rightarrow> cramfs_super \<Rightarrow> cramfs_inode \<Rightarrow> string \<Rightarrow> disk \<Rightarrow> bool \<times> disk" where
  "cramfs_extract_regular_file cx f sb inode disk_path d =
     (if crimp_fs_path_is_symlink d disk_path then (False, d)
      else case fopen_wb disk_path d of
             None \<Rightarrow> (False, d)
           | Some (h, d1) \<Rightarrow>
               (let nblocks = cramfs_nblocks (ci_size inode)
                in case cramfs_write_blocks cx f sb (ci_size inode) h (unat nblocks)
                          (ci_offset inode) (ci_offset inode + 4 * ucast nblocks) 0 d1 of
                     (True, d2) \<Rightarrow> (True, d2)
                   | (False, d2) \<Rightarrow> (False, sys_remove disk_path d2)))"

section \<open>Directory walk\<close>

record cramfs_walk_context =
  cw_codec :: codec
  cw_f :: "byte list"
  cw_sb :: cramfs_super
  cw_output_dir :: "string option"

text \<open>
  The inode and name of the entry at \<open>pos\<close>, with the position and the byte count
  left after it. The name field is NUL-padded to a multiple of four bytes.
\<close>

definition cramfs_read_dir_entry ::
  "byte list \<Rightarrow> bool \<Rightarrow> u64 \<Rightarrow> u32 \<Rightarrow> (cramfs_inode \<times> string \<times> u64 \<times> u32) option" where
  "cramfs_read_dir_entry f big_endian pos remaining =
     (if remaining < 12 then None
      else do { raw \<leftarrow> read_at f pos 12;
                let child = cramfs_decode_inode raw big_endian;
                let pos1 = pos + 12;
                let remaining1 = remaining - 12;
                if ci_namelen child = 0 \<or> ci_namelen child > remaining1 then None
                else do { name \<leftarrow> read_at f pos1 (unat (ci_namelen child));
                          let trimmed = rev (dropWhile (\<lambda>c. c = CHR 0x00) (rev (text_of name)));
                          Some (child, trimmed, pos1 + ucast (ci_namelen child),
                                remaining1 - ci_namelen child) } })"

definition cramfs_process_dir_entry ::
  "cramfs_walk_context \<Rightarrow> (u64 \<Rightarrow> u32 \<Rightarrow> string \<Rightarrow> wstate \<Rightarrow> unit option \<times> wstate) \<Rightarrow>
   u64 \<Rightarrow> u32 \<Rightarrow> string \<Rightarrow> wstate \<Rightarrow> (u64 \<times> u32) option \<times> wstate" where
  "cramfs_process_dir_entry ctx walk pos remaining parent_path =
     sbind (slift (cramfs_read_dir_entry (cw_f ctx) (cs_big_endian (cw_sb ctx)) pos remaining))
       (\<lambda>(child, name, pos', remaining').
          if \<not> crimp_fs_path_component_is_safe name then slift None
          else sbind (slift (child_path_of parent_path name)) (\<lambda>child_path.
            let filetype = ci_mode child AND CRAMFS_S_IFMT;
                is_dir = (filetype = CRAMFS_S_IFDIR);
                is_reg = (filetype = CRAMFS_S_IFREG)
            in sbind (publish_entry (cw_output_dir ctx) child_path is_dir is_reg
                        (ucast (ci_size child))
                        (cramfs_extract_regular_file (cw_codec ctx) (cw_f ctx) (cw_sb ctx) child))
                 (\<lambda>_. sbind (if is_dir then walk (ci_offset child) (ci_size child) child_path
                              else slift (Some ()))
                   (\<lambda>_. slift (Some (pos', remaining'))))))"

text \<open>Every entry consumes at least its twelve header bytes, so the entry loop ends.\<close>

lemma cramfs_read_dir_entry_decreases:
  assumes "cramfs_read_dir_entry f be pos remaining = Some (child, name, pos', remaining')"
  shows "unat remaining' + 12 < unat remaining"
proof -
  let ?n = "ci_namelen child"
  from assms have "12 \<le> remaining" and n: "?n \<noteq> 0" "?n \<le> remaining - 12"
    and r: "remaining' = remaining - 12 - ?n"
    by (auto simp: cramfs_read_dir_entry_def Let_def Option.bind_eq_Some_conv split: if_splits)
  then have "unat remaining' = unat remaining - 12 - unat ?n" and "12 \<le> unat remaining"
    and "0 < unat ?n" and "unat ?n \<le> unat remaining - 12"
    by (auto simp: unat_sub word_le_nat_alt unat_gt_0)
  then show ?thesis by simp
qed

lemma cramfs_process_decreases:
  "cramfs_process_dir_entry ctx walk pos remaining parent st = (Some (pos', remaining'), st') \<Longrightarrow>
     unat remaining' < unat remaining"
  by (auto simp: cramfs_process_dir_entry_def sbind_Some Let_def split: if_splits
      dest!: cramfs_read_dir_entry_decreases)

function cramfs_walk_entries ::
  "cramfs_walk_context \<Rightarrow> (u64 \<Rightarrow> u32 \<Rightarrow> string \<Rightarrow> wstate \<Rightarrow> unit option \<times> wstate) \<Rightarrow>
   u64 \<Rightarrow> u32 \<Rightarrow> string \<Rightarrow> wstate \<Rightarrow> unit option \<times> wstate" where
  "cramfs_walk_entries ctx walk pos remaining parent_path st =
     (if remaining > 0 then
        (case cramfs_process_dir_entry ctx walk pos remaining parent_path st of
           (None, st') \<Rightarrow> (None, st')
         | (Some (pos', remaining'), st') \<Rightarrow>
             cramfs_walk_entries ctx walk pos' remaining' parent_path st')
      else (Some (), st))"
  by pat_completeness auto
termination
  by (relation "measure (\<lambda>(ctx, walk, pos, remaining, parent, st). unat remaining)")
    (auto dest: sym [THEN cramfs_process_decreases])

declare cramfs_walk_entries.simps [simp del]

function cramfs_walk_directory ::
  "cramfs_walk_context \<Rightarrow> u64 \<Rightarrow> u32 \<Rightarrow> string \<Rightarrow> nat \<Rightarrow> wstate \<Rightarrow> unit option \<times> wstate" where
  "cramfs_walk_directory ctx offset sz parent_path depth st =
     (if depth > CRAMFS_MAX_DIR_DEPTH then (None, st)
      else if offset > ucast (cs_size (cw_sb ctx)) \<or>
              ucast sz > ucast (cs_size (cw_sb ctx)) - offset then (None, st)
      else cramfs_walk_entries ctx
             (\<lambda>offset' sz' path st'. cramfs_walk_directory ctx offset' sz' path (depth + 1) st')
             offset sz parent_path st)"
  by pat_completeness auto
termination
  by (relation "measure (\<lambda>(ctx, offset, sz, parent, depth, st). CRAMFS_MAX_DIR_DEPTH + 1 - depth)")
    auto

declare cramfs_walk_directory.simps [simp del]

section \<open>Listing and extraction\<close>

definition crimp_cramfs_list ::
  "codec \<Rightarrow> disk \<Rightarrow> string \<Rightarrow> crimp_fs_entry_list \<Rightarrow> bool \<times> crimp_fs_entry_list" where
  "crimp_cramfs_list cx d path out =
     (case fopen_rb path d of None \<Rightarrow> (False, out)
      | Some f \<Rightarrow>
          (case cramfs_read_superblock f of None \<Rightarrow> (False, out)
           | Some sb \<Rightarrow>
               (case cramfs_walk_directory
                       \<lparr>cw_codec = cx, cw_f = f, cw_sb = sb, cw_output_dir = None\<rparr>
                       (ci_offset (cs_root sb)) (ci_size (cs_root sb)) [] 0
                       \<lparr>ws_entries = crimp_fs_entry_list_init, ws_disk = d\<rparr> of
                  (None, st) \<Rightarrow> (False, crimp_fs_entry_list_free (ws_entries st))
                | (Some _, st) \<Rightarrow> (True, ws_entries st))))"

definition crimp_cramfs_extract ::
  "codec \<Rightarrow> string \<Rightarrow> string \<Rightarrow> disk \<Rightarrow> bool \<times> crimp_fs_entry_list \<times> disk" where
  "crimp_cramfs_extract cx path output_dir d =
     (let out = crimp_fs_entry_list_init
      in case fopen_rb path d of None \<Rightarrow> (False, out, d)
         | Some f \<Rightarrow>
             (case cramfs_read_superblock f of None \<Rightarrow> (False, out, d)
              | Some sb \<Rightarrow>
                  (case crimp_fs_make_directory output_dir d of
                     (False, d1) \<Rightarrow> (False, crimp_fs_entry_list_free out, d1)
                   | (True, d1) \<Rightarrow>
                       (case cramfs_walk_directory
                               \<lparr>cw_codec = cx, cw_f = f, cw_sb = sb, cw_output_dir = Some output_dir\<rparr>
                               (ci_offset (cs_root sb)) (ci_size (cs_root sb)) [] 0
                               \<lparr>ws_entries = out, ws_disk = d1\<rparr> of
                          (None, st) \<Rightarrow> (False, crimp_fs_entry_list_free (ws_entries st), ws_disk st)
                        | (Some _, st) \<Rightarrow> (True, ws_entries st, ws_disk st)))))"

section \<open>Inode fields\<close>

lemma unat_and_le: "unat (x AND m) \<le> unat (m :: 'a::len word)"
  by (rule word_and_le1 [THEN word_le_nat_alt [THEN iffD1]])

lemma unat_push_bit_2:
  "unat (w :: u32) < 2 ^ 30 \<Longrightarrow> unat (push_bit 2 w) = 4 * unat w"
  "unat (v :: u64) < 2 ^ 62 \<Longrightarrow> unat (push_bit 2 v) = 4 * unat v"
   apply (simp_all add: push_bit_eq_mult unat_word_ariths)
  done

lemma cramfs_inode_bounds:
  "unat (ci_mode (cramfs_decode_inode raw be)) < 2 ^ 16"
  "unat (ci_size (cramfs_decode_inode raw be)) < 2 ^ 24"
  "unat (ci_namelen (cramfs_decode_inode raw be)) \<le> 252 \<and>
     4 dvd unat (ci_namelen (cramfs_decode_inode raw be))"
  "unat (ci_offset (cramfs_decode_inode raw be)) < 2 ^ 28 \<and>
     4 dvd unat (ci_offset (cramfs_decode_inode raw be))"
proof -
  have mask: "unat (w AND m) \<le> unat m" for w m :: u32 by (rule unat_and_le)
  have nl: "unat (push_bit 2 (w AND 0x3F) :: u32) = 4 * unat (w AND 0x3F)" for w :: u32
    using mask [of w "0x3F"] by (intro unat_push_bit_2) simp
  have off: "unat (push_bit 2 (ucast (w AND 0x3FFFFFF)) :: u64) = 4 * unat (w AND 0x3FFFFFF)"
    for w :: u32
    using mask [of w "0x3FFFFFF"] by (subst unat_push_bit_2) simp_all
  show "unat (ci_mode (cramfs_decode_inode raw be)) < 2 ^ 16"
    using mask [of "crimp_fs_decode_u32 raw be" "0xFFFF"]
    by (simp add: cramfs_decode_inode_def Let_def)
  show "unat (ci_size (cramfs_decode_inode raw be)) < 2 ^ 24"
    using mask [of "crimp_fs_decode_u32 (drop 4 raw) be" "0xFFFFFF"]
    by (simp add: cramfs_decode_inode_def Let_def)
  show "unat (ci_namelen (cramfs_decode_inode raw be)) \<le> 252 \<and>
     4 dvd unat (ci_namelen (cramfs_decode_inode raw be))"
    using mask [of "crimp_fs_decode_u32 (drop 8 raw) be" "0x3F"]
    by (simp only: cramfs_decode_inode_def Let_def nl cramfs_inode.simps) simp
  show "unat (ci_offset (cramfs_decode_inode raw be)) < 2 ^ 28 \<and>
     4 dvd unat (ci_offset (cramfs_decode_inode raw be))"
    using mask [of "drop_bit 6 (crimp_fs_decode_u32 (drop 8 raw) be)" "0x3FFFFFF"]
    by (simp only: cramfs_decode_inode_def Let_def off cramfs_inode.simps) simp
qed

text \<open>The packing that \<open>decode_inode\<close> undoes: fields in the two low bits' units of four.\<close>

definition cramfs_encode_inode :: "cramfs_inode \<Rightarrow> bool \<Rightarrow> byte list" where
  "cramfs_encode_inode i be =
     encode_u32 (ci_mode i OR push_bit 16 (ci_uid i)) be @
     encode_u32 (ci_size i OR push_bit 24 (ci_gid i)) be @
     encode_u32 (drop_bit 2 (ci_namelen i) OR push_bit 6 (ucast (drop_bit 2 (ci_offset i)))) be"

definition cramfs_inode_wf :: "cramfs_inode \<Rightarrow> bool" where
  "cramfs_inode_wf i \<longleftrightarrow>
     ci_mode i AND 0xFFFF = ci_mode i \<and> ci_uid i AND 0xFFFF = ci_uid i \<and>
     ci_size i AND 0xFFFFFF = ci_size i \<and> ci_gid i AND 0xFF = ci_gid i \<and>
     ci_namelen i AND 0xFC = ci_namelen i \<and> ci_offset i AND 0xFFFFFFC = ci_offset i"

lemma mask_constants:
  "(0xFFFF :: u32) = mask 16" "(0xFFFFFF :: u32) = mask 24" "(0xFF :: u32) = mask 8"
  "(0x3F :: u32) = mask 6" "(0x3FFFFFF :: u32) = mask 26"
  "(0xFC :: u32) = push_bit 2 (mask 6)" "(0xFFFFFFC :: u64) = push_bit 2 (mask 26)"
  by (simp_all add: mask_eq_exp_minus_1)

lemma and_mask_bits: "a AND push_bit l (mask k) = (a :: 'a::len word) \<Longrightarrow> bit a n \<Longrightarrow> l \<le> n \<and> n < l + k"
  by (metis bit_and_iff bit_push_bit_iff bit_mask_iff less_diff_conv2 add.commute)

lemma unpack_pair:
  fixes a b :: u32
  assumes "a AND mask k = a" and "b AND mask j = b" and "k + j = 32"
  shows "(a OR push_bit k b) AND mask k = a" and "drop_bit k (a OR push_bit k b) AND mask j = b"
proof -
  have A: "bit a n \<Longrightarrow> n < k" and B: "bit b n \<Longrightarrow> n < j" for n
    using and_mask_bits [of a 0 k n] and_mask_bits [of b 0 j n] assms by auto
  show "(a OR push_bit k b) AND mask k = a"
    by (rule bit_word_eqI) (auto simp: bit_simps dest: A)
  show "drop_bit k (a OR push_bit k b) AND mask j = b"
    using assms(3) by (intro bit_word_eqI) (auto simp: bit_simps dest: A B)
qed

lemma unpack_third:
  fixes n :: u32 and v :: u64
  assumes "n AND push_bit 2 (mask 6) = n" and "v AND push_bit 2 (mask 26) = v"
  shows "push_bit 2 ((drop_bit 2 n OR push_bit 6 (ucast (drop_bit 2 v))) AND mask 6) = n"
    and "push_bit 2 (ucast (drop_bit 6 (drop_bit 2 n OR push_bit 6 (ucast (drop_bit 2 v) :: u32)) AND mask 26) :: u64) = v"
proof -
  have N: "bit n i \<Longrightarrow> 2 \<le> i \<and> i < 8" and V: "bit v i \<Longrightarrow> 2 \<le> i \<and> i < 28" for i
    using and_mask_bits [OF assms(1), of i] and_mask_bits [OF assms(2), of i] by auto
  have N0: "\<not> bit n 0" "\<not> bit n (Suc 0)" and V0: "\<not> bit v 0" "\<not> bit v (Suc 0)"
    using N [of 0] N [of 1] V [of 0] V [of 1] by auto
  have N8: "8 \<le> i \<Longrightarrow> \<not> bit n i" and V28: "28 \<le> i \<Longrightarrow> \<not> bit v i" for i
    using N [of i] V [of i] by auto
  have ix: "i = 0 \<or> i = 1 \<or> (\<exists>j. i = Suc (Suc j))" for i :: nat
    by (metis One_nat_def not0_implies_Suc)
  show "push_bit 2 ((drop_bit 2 n OR push_bit 6 (ucast (drop_bit 2 v))) AND mask 6) = n"
  proof (rule bit_word_eqI)
    fix i assume "i < LENGTH(32)"
    with ix [of i] show "bit (push_bit 2 ((drop_bit 2 n OR push_bit 6 (ucast (drop_bit 2 v))) AND mask 6)) i = bit n i"
      by (cases "i < 8") (auto simp: bit_simps N0 N8)
  qed
  show "push_bit 2 (ucast (drop_bit 6 (drop_bit 2 n OR push_bit 6 (ucast (drop_bit 2 v) :: u32)) AND mask 26) :: u64) = v"
  proof (rule bit_word_eqI)
    fix i assume "i < LENGTH(64)"
    with ix [of i] show "bit (push_bit 2 (ucast (drop_bit 6 (drop_bit 2 n OR push_bit 6 (ucast (drop_bit 2 v) :: u32)) AND mask 26)) :: u64) i = bit v i"
      by (cases "i < 28") (auto simp: bit_simps V0 V28 N8)
  qed
qed

lemma cramfs_decode_encode_inode:
  "cramfs_inode_wf i \<Longrightarrow> cramfs_decode_inode (cramfs_encode_inode i be) be = i"
  using unpack_pair [of "ci_mode i" 16 "ci_uid i" 16] unpack_pair [of "ci_size i" 24 "ci_gid i" 8]
    unpack_third [of "ci_namelen i" "ci_offset i"]
  unfolding cramfs_decode_inode_def cramfs_encode_inode_def cramfs_inode_wf_def Let_def mask_constants
  by (simp add: decode_u32_append decode_encode_u32)

section \<open>The regular-file writer\<close>

lemma cramfs_write_blocks_frame:
  "changed d (snd (cramfs_write_blocks cx f sb sz h n pp pe bw d)) \<subseteq> {h}"
proof (induction n arbitrary: pp pe bw d)
  case (Suc n)
  show ?case
    using changed_trans [OF fwrite_changed Suc.IH]
    by (simp add: Let_def split: option.split prod.split)
qed simp

lemma cramfs_fetch_block_length:
  "cramfs_fetch_block cx f e pe nx = Some blk \<Longrightarrow> length blk = unat e"
  by (auto simp: cramfs_fetch_block_def Let_def Option.bind_eq_Some_conv split: if_splits)

text \<open>
  Block \<open>i\<close> of a file, found from the pointer array alone: pointer \<open>i\<close> is the end of
  its data, pointer \<open>i - 1\<close> (the end of the array for the first block) its start.
\<close>

definition cramfs_pointer :: "byte list \<Rightarrow> cramfs_super \<Rightarrow> cramfs_inode \<Rightarrow> nat \<Rightarrow> u32" where
  "cramfs_pointer f sb inode i =
     (case read_at f (ci_offset inode + 4 * of_nat i) 4 of
        None \<Rightarrow> 0 | Some raw \<Rightarrow> crimp_fs_decode_u32 raw (cs_big_endian sb))"

definition cramfs_block_start :: "byte list \<Rightarrow> cramfs_super \<Rightarrow> cramfs_inode \<Rightarrow> nat \<Rightarrow> u64" where
  "cramfs_block_start f sb inode i =
     (if i = 0 then ci_offset inode + 4 * ucast (cramfs_nblocks (ci_size inode))
      else ucast (cramfs_pointer f sb inode (i - 1)))"

definition cramfs_block_len :: "cramfs_inode \<Rightarrow> nat \<Rightarrow> nat" where
  "cramfs_block_len inode i = min 4096 (unat (ci_size inode) - 4096 * i)"

definition cramfs_block :: "codec \<Rightarrow> byte list \<Rightarrow> cramfs_super \<Rightarrow> cramfs_inode \<Rightarrow> nat \<Rightarrow> byte list option" where
  "cramfs_block cx f sb inode i =
     (let lo = cramfs_block_start f sb inode i; hi = cramfs_pointer f sb inode i
      in if read_at f (ci_offset inode + 4 * of_nat i) 4 = None \<or> ucast hi < lo \<or> hi > cs_size sb
         then None
         else cramfs_fetch_block cx f (of_nat (cramfs_block_len inode i)) lo hi)"

lemma cramfs_expected_len_at:
  assumes "4096 * k \<le> unat sz"
  shows "cramfs_expected_len (of_nat (4096 * k)) sz = of_nat (min 4096 (unat sz - 4096 * k))"
proof -
  define bw :: u64 where "bw = of_nat (4096 * k)"
  have sz: "unat sz < 4294967296" by simp
  with assms have k: "k < 1048577" by linarith
  have "4096 * k mod 18446744073709551616 = 4096 * k"
    using assms sz by (intro mod_less) linarith
  then have bw: "unat bw = 4096 * k"
    unfolding bw_def unat_of_nat by simp
  have sum: "unat (bw + ucast CRAMFS_BLOCK_SIZE) = 4096 * k + 4096"
    using bw k by (subst unat_plus_small) (simp_all add: CRAMFS_BLOCK_SIZE_def)
  have diff: "unat ((ucast sz :: u64) - bw) = unat sz - 4096 * k"
    using bw assms by (subst unat_minus_small) (simp_all add: word_le_nat_alt)
  show ?thesis
  proof (cases "4096 * k + 4096 > unat sz")
    case True
    have "(ucast ((ucast sz :: u64) - bw) :: u32) = of_nat (unat sz - 4096 * k)"
      using sz by (subst word_unat_eq_iff) (simp add: unat_narrow diff unat_of_nat)
    with True sum show ?thesis
      unfolding cramfs_expected_len_def bw_def [symmetric] by (simp add: word_less_nat_alt)
  next
    case False
    with sum show ?thesis
      unfolding cramfs_expected_len_def bw_def [symmetric]
      by (simp add: word_less_nat_alt CRAMFS_BLOCK_SIZE_def)
  qed
qed

lemma cramfs_block_eq:
  "cramfs_block cx f sb inode k =
     do { (next_ptr, _) \<leftarrow> cramfs_read_block_pointer f sb (ci_offset inode + 4 * of_nat k)
            (cramfs_block_start f sb inode k);
          cramfs_fetch_block cx f (of_nat (cramfs_block_len inode k))
            (cramfs_block_start f sb inode k) next_ptr }"
  by (auto simp: cramfs_block_def cramfs_read_block_pointer_def cramfs_pointer_def Let_def
      split: option.splits)

lemma cramfs_read_block_pointer_Some:
  assumes "cramfs_read_block_pointer f sb (ci_offset inode + 4 * of_nat k) pe = Some (next_ptr, pp')"
  shows "pp' = ci_offset inode + 4 * of_nat (Suc k)"
    and "ucast next_ptr = cramfs_block_start f sb inode (Suc k)"
  using assms
  by (auto simp: cramfs_read_block_pointer_def cramfs_pointer_def cramfs_block_start_def Let_def
      Option.bind_eq_Some_conv algebra_simps split: if_splits)

lemma cramfs_write_blocks_spec:
  assumes "lookup d h = Some (RegFile old)"
    and "4096 * (k + n) < unat (ci_size inode) + 4096"
    and "cramfs_write_blocks cx f sb (ci_size inode) h n (ci_offset inode + 4 * of_nat k)
           (cramfs_block_start f sb inode k) (of_nat (4096 * k)) d = (ok, d')"
  shows "if ok then \<exists>bs. those (map (cramfs_block cx f sb inode) [k..<k + n]) = Some bs \<and>
                      lookup d' h = Some (RegFile (old @ concat bs))
         else those (map (cramfs_block cx f sb inode) [k..<k + n]) = None"
  using assms
proof (induction n arbitrary: k d old)
  case 0
  then show ?case by auto
next
  case (Suc n)
  let ?pe = "cramfs_block_start f sb inode k"
  let ?e = "cramfs_expected_len (of_nat (4096 * k)) (ci_size inode)"
  have e: "?e = of_nat (cramfs_block_len inode k)"
    using Suc.prems(2) by (subst cramfs_expected_len_at) (simp_all add: cramfs_block_len_def)
  have map: "[k..<k + Suc n] = k # [Suc k..<Suc k + n]"
    by (simp add: upt_conv_Cons)
  show ?case
  proof (cases "cramfs_read_block_pointer f sb (ci_offset inode + 4 * of_nat k) ?pe")
    case None
    with Suc.prems(3) show ?thesis unfolding map by (auto simp: cramfs_block_eq)
  next
    case (Some r)
    obtain nx pp' where r: "r = (nx, pp')" by (cases r)
    note nx = cramfs_read_block_pointer_Some [OF Some [unfolded r]]
    have block: "cramfs_block cx f sb inode k = cramfs_fetch_block cx f ?e ?pe nx"
      unfolding e by (simp add: cramfs_block_eq Some r)
    show ?thesis
    proof (cases "cramfs_fetch_block cx f ?e ?pe nx")
      case None
      with Suc.prems(3) Some r block show ?thesis unfolding map by (auto simp: Let_def)
    next
      case (Some blk)
      have rest: "cramfs_write_blocks cx f sb (ci_size inode) h n
          (ci_offset inode + 4 * of_nat (Suc k)) (cramfs_block_start f sb inode (Suc k))
          (of_nat (4096 * Suc k)) (sys_fwrite h blk d) = (ok, d')"
      proof (cases n)
        case 0
        with Suc.prems(3) Some \<open>cramfs_read_block_pointer _ _ _ _ = Some r\<close> r show ?thesis
          by (simp add: Let_def)
      next
        case (Suc m)
        have "cramfs_block_len inode k = 4096"
          using Suc.prems(2) Suc by (simp add: cramfs_block_len_def)
        then have "of_nat (4096 * k) + ucast ?e = (of_nat (4096 * Suc k) :: u64)"
          unfolding e by simp
        with Suc.prems(3) Some \<open>cramfs_read_block_pointer _ _ _ _ = Some r\<close> r nx show ?thesis
          by (simp add: Let_def del: of_nat_mult of_nat_Suc)
      qed
      have "cramfs_block cx f sb inode k = Some blk" by (simp only: block Some)
      with Suc.IH [OF lookup_fwrite_file [OF Suc.prems(1)] _ rest] Suc.prems(2)
      show ?thesis unfolding map by (cases ok) (auto simp del: upt.simps upt_Suc)
    qed
  qed
qed

lemma cramfs_write_blocks_file:
  "lookup d h = Some (RegFile old) \<Longrightarrow>
     \<exists>bs. lookup (snd (cramfs_write_blocks cx f sb sz h n pp pe bw d)) h = Some (RegFile bs)"
proof (induction n arbitrary: pp pe bw d old)
  case (Suc n)
  show ?case
    using Suc.IH [OF lookup_fwrite_file [OF Suc.prems]] Suc.prems
    by (simp add: Let_def split: option.split prod.split)
qed simp

lemma cramfs_nblocks_unat:
  assumes "unat sz < 2 ^ 24"
  shows "unat (cramfs_nblocks sz) = (unat sz + 4095) div 4096"
proof -
  have "unat (sz + CRAMFS_BLOCK_SIZE - 1) = unat sz + 4095"
  proof -
    have *: "sz + CRAMFS_BLOCK_SIZE - 1 = sz + 4095" by (simp add: CRAMFS_BLOCK_SIZE_def)
    show ?thesis unfolding * using assms by (subst unat_plus_small) simp_all
  qed
  then show ?thesis by (simp add: cramfs_nblocks_def unat_div CRAMFS_BLOCK_SIZE_def)
qed

lemma cramfs_block_start_0:
  "cramfs_block_start f sb inode 0 = ci_offset inode + 4 * ucast (cramfs_nblocks (ci_size inode))"
  by (simp add: cramfs_block_start_def)

text \<open>All blocks of a file, in order.\<close>

definition cramfs_content ::
  "codec \<Rightarrow> byte list \<Rightarrow> cramfs_super \<Rightarrow> cramfs_inode \<Rightarrow> byte list option" where
  "cramfs_content cx f sb inode =
     map_option concat
       (those (map (cramfs_block cx f sb inode) [0..<(unat (ci_size inode) + 4095) div 4096]))"

lemma cramfs_extract_regular_file_spec:
  assumes "unat (ci_size inode) < 2 ^ 24"
    and "\<not> crimp_fs_path_is_symlink d p" and "fopen_wb p d = Some (p, put p (RegFile []) d)"
    and "cramfs_extract_regular_file cx f sb inode p d = (ok, d')"
  shows "ok \<longleftrightarrow> cramfs_content cx f sb inode \<noteq> None"
    and "lookup d' p = map_option RegFile (cramfs_content cx f sb inode)"
proof -
  let ?n = "unat (cramfs_nblocks (ci_size inode))"
  obtain ok1 d1 where w: "cramfs_write_blocks cx f sb (ci_size inode) p ?n (ci_offset inode)
      (cramfs_block_start f sb inode 0) 0 (put p (RegFile []) d) = (ok1, d1)"
    by (metis surj_pair)
  have n: "?n = (unat (ci_size inode) + 4095) div 4096"
    using assms(1) by (rule cramfs_nblocks_unat)
  have spec: "if ok1 then \<exists>bs. those (map (cramfs_block cx f sb inode) [0..<0 + ?n]) = Some bs \<and>
                      lookup d1 p = Some (RegFile ([] @ concat bs))
         else those (map (cramfs_block cx f sb inode) [0..<0 + ?n]) = None"
    by (rule cramfs_write_blocks_spec [where k = 0 and d = "put p (RegFile []) d"])
      (use w in \<open>simp_all add: n\<close>)
  have "(ok, d') = (if ok1 then (True, d1) else (False, sys_remove p d1))"
    using assms w
    by (cases ok1) (simp_all add: cramfs_extract_regular_file_def cramfs_block_start_def Let_def)
  moreover have "lookup (sys_remove p d1) p = None"
    using cramfs_write_blocks_file [of "put p (RegFile []) d" p "[]"] w
    by (intro lookup_remove_file) (metis fnode.distinct(1) lookup_put option.inject snd_conv)
  ultimately show "ok \<longleftrightarrow> cramfs_content cx f sb inode \<noteq> None"
    and "lookup d' p = map_option RegFile (cramfs_content cx f sb inode)"
    using spec by (auto simp: cramfs_content_def n split: if_splits)
qed

lemma cramfs_block_length:
  "unat (ci_size inode) < 2 ^ 24 \<Longrightarrow> cramfs_block cx f sb inode i = Some b \<Longrightarrow> length b = cramfs_block_len inode i"
  by (auto simp: cramfs_block_eq Option.bind_eq_Some_conv unat_of_nat cramfs_block_len_def
      dest!: cramfs_fetch_block_length)

lemma cramfs_content_length:
  assumes "unat (ci_size inode) < 2 ^ 24" and "cramfs_content cx f sb inode = Some bs"
  shows "length bs = unat (ci_size inode)"
proof -
  let ?n = "(unat (ci_size inode) + 4095) div 4096"
  obtain bls where b: "those (map (cramfs_block cx f sb inode) [0..<?n]) = Some bls" and bs: "bs = concat bls"
    using assms(2) by (auto simp: cramfs_content_def)
  have "length bs = sum_list (map (cramfs_block_len inode) [0..<?n])"
    unfolding bs using b cramfs_block_length [OF assms(1)] by (rule those_map_lengths)
  also have "\<dots> = min (unat (ci_size inode)) (4096 * ?n)"
    unfolding cramfs_block_len_def by (rule sum_chunks) simp
  also have "\<dots> = unat (ci_size inode)" by linarith
  finally show ?thesis .
qed

lemma cramfs_extract_cases:
  fixes cx f sb and inode :: cramfs_inode and p :: string and d :: disk
  defines "n \<equiv> cramfs_nblocks (ci_size inode)"
  defines "r \<equiv> cramfs_write_blocks cx f sb (ci_size inode) p (unat n) (ci_offset inode)
                 (ci_offset inode + 4 * ucast n) 0 (put p (RegFile []) d)"
  obtains "cramfs_extract_regular_file cx f sb inode p d = (False, d)"
  | "fst r" "cramfs_extract_regular_file cx f sb inode p d = (True, snd r)"
  | "\<not> fst r" "cramfs_extract_regular_file cx f sb inode p d = (False, sys_remove p (snd r))"
proof (cases "crimp_fs_path_is_symlink d p \<or> fopen_wb p d = None")
  case True
  then show ?thesis
    by (intro that(1)) (auto simp: cramfs_extract_regular_file_def)
next
  case False
  then obtain h d1 where o: "fopen_wb p d = Some (h, d1)" by auto
  with False have "h = p" "d1 = put p (RegFile []) d"
    using fopen_wb_plain [OF symlink_False o] by auto
  with o False have "cramfs_extract_regular_file cx f sb inode p d =
      (case r of (True, d2) \<Rightarrow> (True, d2) | (False, d2) \<Rightarrow> (False, sys_remove p d2))"
    by (simp add: cramfs_extract_regular_file_def Let_def r_def n_def)
  then show ?thesis using that(2,3) by (cases r; cases "fst r") auto
qed

text \<open>The writer meets its contract for every inode that is read from an image.\<close>

interpretation cramfs_writer: content_writer
  "cramfs_extract_regular_file cx f sb (cramfs_decode_inode raw be)"
  "cramfs_content cx f sb (cramfs_decode_inode raw be)" for cx f sb raw be
proof
  fix p d d'
  let ?i = "cramfs_decode_inode raw be"
  let ?w = "cramfs_extract_regular_file cx f sb ?i p d"
  let ?n = "cramfs_nblocks (ci_size ?i)"
  let ?r = "cramfs_write_blocks cx f sb (ci_size ?i) p (unat ?n) (ci_offset ?i)
                 (ci_offset ?i + 4 * ucast ?n) 0 (put p (RegFile []) d)"
  have opened: "changed d (put p (RegFile []) d) \<subseteq> {p}" by (auto simp: changed_def)
  have r: "changed d (snd ?r) \<subseteq> {p}"
    by (rule changed_trans [OF opened cramfs_write_blocks_frame])
  have stays: "\<exists>bs. lookup (snd ?r) p = Some (RegFile bs)"
    by (rule cramfs_write_blocks_file) simp
  then have gone: "lookup (sys_remove p (snd ?r)) p = None"
    by (auto intro: lookup_remove_file)
  have tried: "?w = (False, d) \<or> \<not> crimp_fs_path_is_symlink d p \<and> fopen_wb p d = Some (p, put p (RegFile []) d)"
    using fopen_wb_plain [OF symlink_False]
    by (cases "fopen_wb p d") (auto simp: cramfs_extract_regular_file_def)
  show "changed d (snd ?w) \<subseteq> {p}"
    by (cases rule: cramfs_extract_cases [of cx f sb ?i p d])
      (use r changed_trans [OF r remove_changed] in auto)
  show "\<exists>bs. cramfs_content cx f sb ?i = Some bs \<and> lookup d' p = Some (RegFile bs)" if "?w = (True, d')"
    using cramfs_extract_regular_file_spec [OF cramfs_inode_bounds(2) _ _ that] tried that by auto
  show "fopen_wb p d \<noteq> None" if "?w = (True, d')"
    using tried that by auto
  show "lookup d' p = lookup d p \<or> lookup d' p = None \<and> fopen_wb p d \<noteq> None" if "?w = (False, d')"
    using cramfs_extract_regular_file_spec [OF cramfs_inode_bounds(2) _ _ that] tried that by auto
  show "\<not> crimp_fs_path_is_symlink d p" if "?w = (True, d')"
    using tried that by auto
  show "fst ?w = (cramfs_content cx f sb ?i \<noteq> None)" if "\<not> crimp_fs_path_is_symlink d p" "fopen_wb p d \<noteq> None"
  proof -
    obtain ok d' where w: "?w = (ok, d')" by fastforce
    have "fopen_wb p d = Some (p, put p (RegFile []) d)" using tried that fopen_wb_plain [OF symlink_False [OF that(1)]] by auto
    from cramfs_extract_regular_file_spec(1) [OF cramfs_inode_bounds(2) that(1) this w] w show ?thesis by simp
  qed
qed

section \<open>The walk\<close>

lemma cramfs_process_walks:
  assumes "path_at n parent" and "n \<le> 32"
    and "\<And>off sz path. path_at (Suc n) path \<Longrightarrow> walks True (cw_output_dir ctx) d0 (walk off sz path)"
  shows "walks True (cw_output_dir ctx) d0 (cramfs_process_dir_entry ctx walk pos remaining parent)"
proof -
  have "walks True (cw_output_dir ctx) d0
      (publish_entry (cw_output_dir ctx) path is_dir is_reg (ucast (ci_size child))
        (cramfs_extract_regular_file (cw_codec ctx) (cw_f ctx) (cw_sb ctx) child))"
    if r: "cramfs_read_dir_entry (cw_f ctx) be pos remaining = Some (child, name, next)"
      and safe: "crimp_fs_path_component_is_safe name" and path: "child_path_of parent name = Some path"
    for child name "next" path is_dir is_reg be
  proof -
    obtain raw where child: "child = cramfs_decode_inode raw be"
      using r by (auto simp: cramfs_read_dir_entry_def Let_def Option.bind_eq_Some_conv split: if_splits)
    note p = child_path_at [OF assms(1) safe path]
    show ?thesis
      unfolding child
    proof (rule cramfs_writer.publish_walk [OF p(3)], rule item_ok_walk_item [OF p(1) assms(2) p(2)])
      fix bs assume "cramfs_content (cw_codec ctx) (cw_f ctx) (cw_sb ctx) (cramfs_decode_inode raw be) = Some bs"
      then show "length bs = unat (ucast (ci_size (cramfs_decode_inode raw be)) :: u64)"
        using cramfs_content_length [OF cramfs_inode_bounds(2)] by simp
    qed
  qed
  then show ?thesis
    unfolding cramfs_process_dir_entry_def
    using assms(3) child_path_at(1) [OF assms(1)] walk_ok_any
    by (auto intro!: keeps_intros simp: Let_def split: prod.split)
qed

lemma cramfs_walk_entries_walks:
  assumes "path_at n parent" and "n \<le> 32"
    and "\<And>off sz path. path_at (Suc n) path \<Longrightarrow> walks True (cw_output_dir ctx) d0 (walk off sz path)"
  shows "walks True (cw_output_dir ctx) d0 (cramfs_walk_entries ctx walk pos remaining parent)"
proof -
  let ?out = "cw_output_dir ctx"
  have step: "walks True ?out d0 (cramfs_process_dir_entry ctx walk pos remaining parent)" for pos remaining
    by (rule cramfs_process_walks [OF assms])
  have "walk_ok (item_ok True) ?out d0 st \<Longrightarrow>
      (case cramfs_walk_entries ctx walk pos remaining parent st of
         (Some _, st') \<Rightarrow> walk_ok (item_ok True) ?out d0 st' | (None, st') \<Rightarrow> walk_any ?out d0 st')" for st
  proof (induction remaining arbitrary: pos st rule: measure_induct_rule [of unat])
    case (less remaining)
    note now = keepsD [OF step [of pos remaining] less.prems]
    show ?case
    proof (cases "cramfs_process_dir_entry ctx walk pos remaining parent st")
      case (Pair r st')
      show ?thesis
      proof (cases r)
        case None
        with Pair now(2) less.prems show ?thesis by (simp add: cramfs_walk_entries.simps [of ctx walk pos])
      next
        case (Some q)
        obtain pos' remaining' where q: "q = (pos', remaining')" by (cases q)
        from Pair Some q now(1) less.IH [of remaining' st' pos'] less.prems
          cramfs_process_decreases [of ctx walk pos remaining parent st pos' remaining' st']
        show ?thesis by (simp add: cramfs_walk_entries.simps [of ctx walk pos])
      qed
    qed
  qed
  then show ?thesis by (simp add: keeps_def)
qed

lemma cramfs_walk_directory_walks:
  "path_at depth parent \<Longrightarrow> walks True (cw_output_dir ctx) d0 (cramfs_walk_directory ctx off sz parent depth)"
proof (induction "33 - depth" arbitrary: depth off sz parent rule: less_induct)
  case less
  show ?case
  proof (cases "depth > CRAMFS_MAX_DIR_DEPTH")
    case True
    then show ?thesis
      using walk_ok_any by (auto simp: keeps_def cramfs_walk_directory.simps [of ctx off])
  next
    case False
    then have "walks True (cw_output_dir ctx) d0 (cramfs_walk_entries ctx
        (\<lambda>o' s' p st'. cramfs_walk_directory ctx o' s' p (depth + 1) st') off sz parent)"
      using less by (intro cramfs_walk_entries_walks) (auto simp: CRAMFS_MAX_DIR_DEPTH_def)
    with False walk_ok_any show ?thesis
      by (auto simp: keeps_def cramfs_walk_directory.simps [of ctx off])
  qed
qed

text \<open>
  Two runs of the walk, the second with an output directory of its own or with none, stay
  related when recording and writing one entry keeps them so.
\<close>

lemma cramfs_process_runs_as:
  assumes "R s t"
    and "\<And>child is_dir is_reg sz raw be s t. R s t \<Longrightarrow> runs_as R
       (publish_entry (Some od) child is_dir is_reg sz (cramfs_extract_regular_file (cw_codec ctx) (cw_f ctx) (cw_sb ctx) (cramfs_decode_inode raw be)) s)
       (publish_entry od' child is_dir is_reg sz (cramfs_extract_regular_file (cw_codec ctx) (cw_f ctx) (cw_sb ctx) (cramfs_decode_inode raw be)) t)"
    and "\<And>off sz path s t. R s t \<Longrightarrow> runs_as R (walk off sz path s) (walk' off sz path t)"
  shows "runs_as R (cramfs_process_dir_entry (ctx\<lparr>cw_output_dir := Some od\<rparr>) walk pos remaining parent s)
                  (cramfs_process_dir_entry (ctx\<lparr>cw_output_dir := od'\<rparr>) walk' pos remaining parent t)"
proof -
  have inode: "\<exists>raw be. child = cramfs_decode_inode raw be"
    if "cramfs_read_dir_entry f be pos remaining = Some (child, next)" for f be child "next"
    using that by (auto simp: cramfs_read_dir_entry_def Let_def Option.bind_eq_Some_conv split: if_splits)
  show ?thesis
    unfolding cramfs_process_dir_entry_def
    by (auto intro!: runs_as_sbind runs_as_slift assms simp: Let_def split: prod.split dest!: inode)
qed

lemma cramfs_walk_entries_runs_as:
  assumes "R s t"
    and "\<And>child is_dir is_reg sz raw be s t. R s t \<Longrightarrow> runs_as R
       (publish_entry (Some od) child is_dir is_reg sz (cramfs_extract_regular_file (cw_codec ctx) (cw_f ctx) (cw_sb ctx) (cramfs_decode_inode raw be)) s)
       (publish_entry od' child is_dir is_reg sz (cramfs_extract_regular_file (cw_codec ctx) (cw_f ctx) (cw_sb ctx) (cramfs_decode_inode raw be)) t)"
    and "\<And>off sz path s t. R s t \<Longrightarrow> runs_as R (walk off sz path s) (walk' off sz path t)"
  shows "runs_as R (cramfs_walk_entries (ctx\<lparr>cw_output_dir := Some od\<rparr>) walk pos remaining parent s)
                  (cramfs_walk_entries (ctx\<lparr>cw_output_dir := od'\<rparr>) walk' pos remaining parent t)"
  using assms(1)
proof (induction remaining arbitrary: pos s t rule: measure_induct_rule [of unat])
  case (less remaining)
  let ?p = "cramfs_process_dir_entry (ctx\<lparr>cw_output_dir := Some od\<rparr>) walk pos remaining parent s"
  let ?q = "cramfs_process_dir_entry (ctx\<lparr>cw_output_dir := od'\<rparr>) walk' pos remaining parent t"
  have step: "runs_as R ?p ?q" by (rule cramfs_process_runs_as [OF less.prems assms(2,3)])
  note unfold = cramfs_walk_entries.simps [of "ctx\<lparr>cw_output_dir := Some od\<rparr>" walk pos remaining parent s]
    cramfs_walk_entries.simps [of "ctx\<lparr>cw_output_dir := od'\<rparr>" walk' pos remaining parent t]
  obtain r s' where p: "?p = (r, s')" by (cases ?p)
  obtain r' t' where q: "?q = (r', t')" by (cases ?q)
  show ?case
  proof (cases "remaining > 0 \<and> r \<noteq> None")
    case True
    then obtain pos' rem' where r: "r = Some (pos', rem')" by auto
    with step p q have "r' = r" and e: "R s' t'" by (auto simp: runs_as_def)
    moreover have "unat rem' < unat remaining" using cramfs_process_decreases p r by blast
    ultimately show ?thesis
      using True p q r less.IH [OF _ e, of rem' pos'] by (simp add: unfold)
  next
    case False
    then show ?thesis
      unfolding unfold using less.prems p by (cases r) (auto simp: runs_as_def)
  qed
qed

lemma cramfs_walk_directory_runs_as:
  assumes "\<And>child is_dir is_reg sz raw be s t. R s t \<Longrightarrow> runs_as R
       (publish_entry (Some od) child is_dir is_reg sz (cramfs_extract_regular_file (cw_codec ctx) (cw_f ctx) (cw_sb ctx) (cramfs_decode_inode raw be)) s)
       (publish_entry od' child is_dir is_reg sz (cramfs_extract_regular_file (cw_codec ctx) (cw_f ctx) (cw_sb ctx) (cramfs_decode_inode raw be)) t)"
  shows "R s t \<Longrightarrow> runs_as R (cramfs_walk_directory (ctx\<lparr>cw_output_dir := Some od\<rparr>) off sz parent depth s)
             (cramfs_walk_directory (ctx\<lparr>cw_output_dir := od'\<rparr>) off sz parent depth t)"
proof (induction "33 - depth" arbitrary: depth off sz parent s t rule: less_induct)
  case less
  note unfold = cramfs_walk_directory.simps [of "ctx\<lparr>cw_output_dir := Some od\<rparr>" off sz parent depth s]
    cramfs_walk_directory.simps [of "ctx\<lparr>cw_output_dir := od'\<rparr>" off sz parent depth t]
  show ?case
  proof (cases "depth > CRAMFS_MAX_DIR_DEPTH")
    case False
    then have "runs_as R (cramfs_walk_entries (ctx\<lparr>cw_output_dir := Some od\<rparr>)
        (\<lambda>o' s' p st'. cramfs_walk_directory (ctx\<lparr>cw_output_dir := Some od\<rparr>) o' s' p (depth + 1) st') off sz parent s)
      (cramfs_walk_entries (ctx\<lparr>cw_output_dir := od'\<rparr>)
        (\<lambda>o' s' p st'. cramfs_walk_directory (ctx\<lparr>cw_output_dir := od'\<rparr>) o' s' p (depth + 1) st') off sz parent t)"
      using less by (intro cramfs_walk_entries_runs_as assms less.hyps) (auto simp: CRAMFS_MAX_DIR_DEPTH_def)
    with False show ?thesis by (simp add: unfold)
  qed (simp add: unfold)
qed

section \<open>Encoding a superblock\<close>

definition cramfs_encode_super :: "cramfs_super \<Rightarrow> byte list \<Rightarrow> byte list" where
  "cramfs_encode_super sb middle =
     encode_u32 CRAMFS_MAGIC (cs_big_endian sb) @ encode_u32 (cs_size sb) (cs_big_endian sb) @
     middle @ cramfs_encode_inode (cs_root sb) (cs_big_endian sb)"

text \<open>A sample image: one file \<open>a\<close> of three bytes whose block is stored in two.\<close>

definition cramfs_sample_super :: "bool \<Rightarrow> cramfs_super" where
  "cramfs_sample_super be = \<lparr>cs_size = 98, cs_big_endian = be,
     cs_root = \<lparr>ci_mode = 0x41ED, ci_uid = 0, ci_size = 16, ci_gid = 0, ci_namelen = 0, ci_offset = 76\<rparr>\<rparr>"

definition cramfs_sample_inode :: cramfs_inode where
  "cramfs_sample_inode =
     \<lparr>ci_mode = 0x81A4, ci_uid = 0, ci_size = 3, ci_gid = 0, ci_namelen = 4, ci_offset = 92\<rparr>"

definition cramfs_sample_image :: "bool \<Rightarrow> byte list" where
  "cramfs_sample_image be =
     cramfs_encode_super (cramfs_sample_super be) (replicate 56 0) @
     cramfs_encode_inode cramfs_sample_inode be @ map byte_of_chr ''a'' @ [0, 0, 0] @
     encode_u32 98 be @ [7, 8]"

lemma cramfs_sample_run:
  "crimp_cramfs_extract sample_codec ''i'' ''o'' [(''i'', RegFile (cramfs_sample_image True))] =
     (True, \<lparr>v_items = [\<lparr>e_path = ''a'', e_is_dir = False, e_size = 3\<rparr>], v_capacity = 16\<rparr>,
      [(''i'', RegFile (cramfs_sample_image True)), (''o'', Directory), (''o/a'', RegFile [1, 2, 3])])"
  by code_simp

section \<open>Properties\<close>

text \<open>What a run needs of the image, and the walk over it.\<close>

definition cramfs_walk_root ::
  "codec \<Rightarrow> byte list \<times> cramfs_super \<Rightarrow> string option \<Rightarrow> wstate \<Rightarrow> unit option \<times> wstate" where
  "cramfs_walk_root cx = (\<lambda>(f, sb) output_dir.
     cramfs_walk_directory \<lparr>cw_codec = cx, cw_f = f, cw_sb = sb, cw_output_dir = output_dir\<rparr>
       (ci_offset (cs_root sb)) (ci_size (cs_root sb)) [] 0)"

interpretation cramfs_extractor: walk_reader
  "crimp_cramfs_extract cx" crimp_cramfs_identify "crimp_cramfs_list cx" True
  "\<lambda>f. map_option (Pair f) (cramfs_read_superblock f)" "cramfs_walk_root cx" for cx
proof
  fix path od d f i d1 s t
  show "crimp_cramfs_extract cx path od d =
      (case Option.bind (fopen_rb path d) (\<lambda>f. map_option (Pair f) (cramfs_read_superblock f)) of
         None \<Rightarrow> (False, crimp_fs_entry_list_init, d)
       | Some i \<Rightarrow> (case crimp_fs_make_directory od d of
           (False, d1) \<Rightarrow> (False, crimp_fs_entry_list_init, d1)
         | (True, d1) \<Rightarrow>
             (case cramfs_walk_root cx i (Some od) \<lparr>ws_entries = crimp_fs_entry_list_init, ws_disk = d1\<rparr> of
                (None, st) \<Rightarrow> (False, crimp_fs_entry_list_init, ws_disk st)
              | (Some _, st) \<Rightarrow> (True, ws_entries st, ws_disk st))))"
    by (auto simp: crimp_cramfs_extract_def cramfs_walk_root_def Let_def split: option.split prod.split bool.split)
  show "crimp_cramfs_list cx d path l0 = (True, ws_entries st)"
    if "Option.bind (fopen_rb path d) (\<lambda>f. map_option (Pair f) (cramfs_read_superblock f)) = Some i"
      "cramfs_walk_root cx i None \<lparr>ws_entries = crimp_fs_entry_list_init, ws_disk = d\<rparr> = (Some (), st)" for l0 st
    using that by (auto simp: crimp_cramfs_list_def cramfs_walk_root_def bind_eq_Some_conv)
  assume "map_option (Pair f) (cramfs_read_superblock f) = Some i"
  then obtain sb where i: "i = (f, sb)" by auto
  let ?ctx = "\<lparr>cw_codec = cx, cw_f = f, cw_sb = sb, cw_output_dir = None\<rparr>"
  show "walks True (Some od) d1 (cramfs_walk_root cx i (Some od))"
    using cramfs_walk_directory_walks [of 0 "[]" "?ctx\<lparr>cw_output_dir := Some od\<rparr>"] by (simp add: i cramfs_walk_root_def)
  show "runs_as same_entries (cramfs_walk_root cx i (Some od) s) (cramfs_walk_root cx i None t)" if "same_entries s t"
    using cramfs_walk_directory_runs_as [where ctx = ?ctx and od = od and od' = None, OF publish_lists that]
    by (simp add: i cramfs_walk_root_def)
  show "runs_as (same_under od) (cramfs_walk_root cx i (Some od) s) (cramfs_walk_root cx i (Some od) t)" if "same_under od s t"
    using cramfs_walk_directory_runs_as [where ctx = ?ctx and od = od and od' = "Some od", OF cramfs_writer.publish_again that]
    by (simp add: i cramfs_walk_root_def)
qed (auto simp: crimp_cramfs_identify_def fopen_rb_plain bind_eq_None_conv)

text \<open>
  C13: Writing a regular file (at a path that is no link and that can be opened)
  succeeds exactly when every block of its pointer array is valid and decompresses,
  and then the file holds the concatenated blocks, as many bytes as the inode
  claims; when it fails nothing is left at the path.
\<close>

theorem cramfs_file_content:
  assumes "inode = cramfs_decode_inode raw be"
    and "\<not> crimp_fs_path_is_symlink d p" and "fopen_wb p d = Some (h, d1)"
    and "cramfs_extract_regular_file cx f sb inode p d = (ok, d')"
  shows "ok = (cramfs_content cx f sb inode \<noteq> None) \<and>
    lookup d' p = map_option RegFile (cramfs_content cx f sb inode) \<and>
    pred_option (\<lambda>bs. length bs = unat (ci_size inode)) (cramfs_content cx f sb inode)"
proof -
  have sz: "unat (ci_size inode) < 2 ^ 24" unfolding assms(1) by (rule cramfs_inode_bounds)
  have "fopen_wb p d = Some (p, put p (RegFile []) d)"
    using fopen_wb_plain [OF symlink_False [OF assms(2)] assms(3)] assms(3) by simp
  from cramfs_extract_regular_file_spec [OF sz assms(2) this assms(4)] cramfs_content_length [OF sz]
  show ?thesis by (auto simp: pred_option_def)
qed

theorem cramfs_file_content_witness:
  "lookup (snd (cramfs_extract_regular_file sample_codec (cramfs_sample_image False)
       (cramfs_sample_super False) (cramfs_decode_inode (cramfs_encode_inode cramfs_sample_inode False) False)
       ''f'' [])) ''f'' = Some (RegFile [1, 2, 3])"
proof -
  let ?i = "cramfs_decode_inode (cramfs_encode_inode cramfs_sample_inode False) False"
  have c: "cramfs_content sample_codec (cramfs_sample_image False) (cramfs_sample_super False) ?i = Some [1, 2, 3]"
    by code_simp
  have s: "\<not> crimp_fs_path_is_symlink [] ''f''" by code_simp
  have o: "fopen_wb ''f'' [] = Some (''f'', [(''f'', RegFile [])])" by code_simp
  obtain ok d' where r: "cramfs_extract_regular_file sample_codec (cramfs_sample_image False)
       (cramfs_sample_super False) ?i ''f'' [] = (ok, d')" by fastforce
  from cramfs_file_content [OF refl s o r] c r show ?thesis by simp
qed

lemma length_cramfs_encode_inode [simp]: "length (cramfs_encode_inode i be) = 12"
  by (simp add: cramfs_encode_inode_def)

text \<open>
  A superblock written in either byte order (magic, declared size, 56 bytes of
  other fields, root inode) is read back with that byte order detected and every
  field intact, whatever follows it in the image.
\<close>

lemma cramfs_superblock_roundtrip:
  assumes "length middle = 56" and "cramfs_inode_wf (cs_root sb)" and "76 \<le> cs_size sb"
  shows "cramfs_read_superblock (cramfs_encode_super sb middle @ rest) = Some sb"
proof -
  let ?be = "cs_big_endian sb"
  let ?raw = "cramfs_encode_super sb middle"
  have raw: "file_read (?raw @ rest) 0 CRAMFS_SUPER_SIZE = Some ?raw"
    using assms(1) by (simp add: file_read_def CRAMFS_SUPER_SIZE_def cramfs_encode_super_def)
  have "crimp_fs_decode_u32 ?raw be = crimp_fs_decode_u32 (encode_u32 CRAMFS_MAGIC ?be) be" for be
    unfolding cramfs_encode_super_def by (simp add: decode_u32_append)
  moreover have "crimp_fs_decode_u32 (encode_u32 CRAMFS_MAGIC True) False \<noteq> CRAMFS_MAGIC"
    by code_simp
  ultimately have endian: "cramfs_detect_endian ?raw = Some ?be"
    by (cases ?be) (simp_all add: cramfs_detect_endian_def decode_encode_u32)
  have sz: "crimp_fs_decode_u32 (drop 4 ?raw) ?be = cs_size sb"
    unfolding cramfs_encode_super_def by (simp add: decode_u32_append decode_encode_u32)
  have "drop CRAMFS_ROOT_INODE_OFFSET ?raw = cramfs_encode_inode (cs_root sb) ?be"
    using assms(1) by (simp add: cramfs_encode_super_def CRAMFS_ROOT_INODE_OFFSET_def)
  then have root: "cramfs_decode_inode (drop CRAMFS_ROOT_INODE_OFFSET ?raw) ?be = cs_root sb"
    using assms(2) by (simp add: cramfs_decode_encode_inode)
  show ?thesis
    using assms(3) raw endian sz root
    by (simp add: cramfs_read_superblock_def CRAMFS_SUPER_SIZE_def word_le_nat_alt)
qed

lemma cramfs_superblock_roundtrip_witness:
  "cramfs_read_superblock (cramfs_encode_super (cramfs_sample_super True) (replicate 56 0) @ [1]) =
     Some (cramfs_sample_super True)"
proof (rule cramfs_superblock_roundtrip)
  show "cramfs_inode_wf (cs_root (cramfs_sample_super True))" by code_simp
qed (simp_all add: cramfs_sample_super_def)

end
