(* ===== verification/Jffs2Log.thy ===== *)
theory Jffs2Log
  imports ImageTree
begin

text \<open>
  The log of \<open>src/extract/jffs2.c\<close>: its node headers and records, the search for the
  next node over erase-block filler, and the one-pass scan into directory-entry and
  inode records. The image is its byte content \<open>f\<close>; a file holds fewer than 2^63 bytes, so
  \<open>file_size\<close> is its length.
\<close>

section \<open>Records and constants\<close>

definition JFFS2_MAGIC :: u16 where "JFFS2_MAGIC = 0x1985"
definition JFFS2_NODETYPE_DIRENT :: u16 where "JFFS2_NODETYPE_DIRENT = 0xe001"
definition JFFS2_NODETYPE_INODE :: u16 where "JFFS2_NODETYPE_INODE = 0xe002"
definition JFFS2_COMMON_HEADER_SIZE :: u32 where "JFFS2_COMMON_HEADER_SIZE = 12"
definition JFFS2_DIRENT_FIXED_SIZE :: u32 where "JFFS2_DIRENT_FIXED_SIZE = 28"
definition JFFS2_INODE_FIXED_SIZE :: u32 where "JFFS2_INODE_FIXED_SIZE = 56"
definition JFFS2_COMPR_NONE :: byte where "JFFS2_COMPR_NONE = 0"
definition JFFS2_COMPR_ZLIB :: byte where "JFFS2_COMPR_ZLIB = 6"
definition JFFS2_ROOT_INO :: u32 where "JFFS2_ROOT_INO = 1"
definition JFFS2_S_IFMT :: u32 where "JFFS2_S_IFMT = 0xF000"
definition JFFS2_S_IFDIR :: u32 where "JFFS2_S_IFDIR = 0x4000"
definition JFFS2_S_IFREG :: u32 where "JFFS2_S_IFREG = 0x8000"
definition JFFS2_MAX_EXTRACTED_FILE_SIZE :: u32 where "JFFS2_MAX_EXTRACTED_FILE_SIZE = push_bit 20 256"
definition JFFS2_MAX_DIR_DEPTH :: nat where "JFFS2_MAX_DIR_DEPTH = 32"
definition GAP_SCAN_CHUNK :: u64 where "GAP_SCAN_CHUNK = 65536"

record jffs2_dirent_rec =
  jd_pino :: u32
  jd_version :: u32
  jd_ino :: u32
  jd_name :: string

type_synonym dirent_list = "jffs2_dirent_rec vec"

record jffs2_inode_rec =
  ji_ino :: u32
  ji_version :: u32
  ji_mode :: u32
  ji_isize :: u32
  ji_frag_offset :: u32
  ji_csize :: u32
  ji_dsize :: u32
  ji_compr :: byte
  ji_file_offset :: u64

type_synonym inode_rec_list = "jffs2_inode_rec vec"

definition dirent_list_add ::
  "dirent_list \<Rightarrow> u32 \<Rightarrow> u32 \<Rightarrow> u32 \<Rightarrow> string \<Rightarrow> dirent_list" where
  "dirent_list_add list pino version ino name =
     vec_add 64 list \<lparr>jd_pino = pino, jd_version = version, jd_ino = ino, jd_name = name\<rparr>"

definition dirent_list_free :: "dirent_list \<Rightarrow> dirent_list" where
  "dirent_list_free list = vec_free list"

definition inode_rec_list_add ::
  "inode_rec_list \<Rightarrow> jffs2_inode_rec \<Rightarrow> inode_rec_list" where
  "inode_rec_list_add list rec = vec_add 64 list rec"

interpretation dirent_list: growable vec_init
  "\<lambda>l r. dirent_list_add l (jd_pino r) (jd_version r) (jd_ino r) (jd_name r)"
  dirent_list_free v_items v_capacity
  by unfold_locales
    (auto simp: dirent_list_add_def dirent_list_free_def vec_add_room vec_add_amortised)

interpretation inode_rec_list: growable vec_init inode_rec_list_add vec_free v_items v_capacity
  by unfold_locales (auto simp: inode_rec_list_add_def vec_add_room vec_add_amortised)

section \<open>Scanning the log\<close>

text \<open>The offsets \<open>i = 0, 4, 8, ...\<close> with \<open>i + 1 < got\<close>.\<close>

definition gap_candidates :: "nat \<Rightarrow> nat list" where
  "gap_candidates got = map ((*) 4) [0..<(got + 2) div 4]"

function find_next_node :: "byte list \<Rightarrow> u64 \<Rightarrow> u64 \<Rightarrow> bool \<Rightarrow> u64 option" where
  "find_next_node f pos image_size big_endian =
     (if pos + 2 \<le> image_size then
        (case crimp_fs_seek64 pos of None \<Rightarrow> None
         | Some off \<Rightarrow>
             (let remaining = image_size - pos;
                  want = (if remaining < GAP_SCAN_CHUNK then unat remaining else unat GAP_SCAN_CHUNK);
                  buf = take want (drop off f);
                  got = length buf
              in if got < 2 then None
                 else case List.find (\<lambda>i. crimp_fs_decode_u16 (drop i buf) big_endian = JFFS2_MAGIC)
                             (gap_candidates got) of
                        Some i \<Rightarrow> Some (pos + of_nat i)
                      | None \<Rightarrow>
                          if got < 4 \<or> got < want then None
                          else find_next_node f (pos + of_nat (got div 4 * 4)) image_size big_endian))
      else None)"
  by pat_completeness auto

text \<open>A full chunk advances the position by at least four bytes, within the image.\<close>

lemma find_next_node_progress:
  assumes "pos + 2 \<le> image_size" and "crimp_fs_seek64 pos = Some off"
    and "want = (if image_size - pos < GAP_SCAN_CHUNK then unat (image_size - pos) else unat GAP_SCAN_CHUNK)"
    and "4 \<le> got" and "got \<le> want"
  shows "unat (pos + of_nat (got div 4 * 4)) = unat pos + got div 4 * 4"
    and "unat pos + got div 4 * 4 \<le> unat image_size"
proof -
  have pos: "unat pos < 9223372036854775808"
    using assms(2) by (auto simp: crimp_fs_seek64_def word_less_nat_alt split: if_splits)
  then have "unat (pos + 2) = unat pos + 2" by (simp add: unat_plus_small)
  with assms(1) have le: "unat pos + 2 \<le> unat image_size" by (simp add: word_le_nat_alt)
  then have rem: "unat (image_size - pos) = unat image_size - unat pos"
    by (intro unat_minus_small) (simp add: word_le_nat_alt)
  have w: "want \<le> unat image_size - unat pos" "want \<le> 65536"
    using rem by (auto simp: assms(3) GAP_SCAN_CHUNK_def word_less_nat_alt)
  have g: "got div 4 * 4 \<le> got" by simp
  then show "unat pos + got div 4 * 4 \<le> unat image_size" using w assms(5) le by linarith
  have "got div 4 * 4 \<le> 65536" using g w assms(5) by linarith
  then have "unat (of_nat (got div 4 * 4) :: u64) = got div 4 * 4"
    unfolding unat_of_nat by simp
  with pos g w assms(5) show "unat (pos + of_nat (got div 4 * 4)) = unat pos + got div 4 * 4"
    by (subst unat_plus_small) simp_all
qed

termination find_next_node
proof (relation "measure (\<lambda>(f, pos, image_size, be). unat image_size - unat pos)", goal_cases)
  case (2 f pos image_size be off remaining want buf got)
  then have g: "4 \<le> got" "got \<le> want" by auto
  have want: "want = (if image_size - pos < GAP_SCAN_CHUNK then unat (image_size - pos) else unat GAP_SCAN_CHUNK)"
    unfolding 2(4) 2(3) ..
  note prog = find_next_node_progress [OF 2(1) 2(2) want g]
  have "1 \<le> got div 4" using g(1) by simp
  then show ?case unfolding in_measure split_conv prog(1) using prog(2) by linarith
qed simp

declare find_next_node.simps [simp del]

lemma gap_candidates_less: "i \<in> set (gap_candidates got) \<Longrightarrow> i + 1 < got"
  by (auto simp: gap_candidates_def)

lemma find_next_node_found:
  "find_next_node f pos image_size be = Some p \<Longrightarrow>
     unat pos \<le> unat p \<and> unat p + 2 \<le> unat image_size \<and> unat p + 2 \<le> length f \<and>
     crimp_fs_decode_u16 (drop (unat p) f) be = JFFS2_MAGIC"
proof (induction f pos image_size be rule: find_next_node.induct)
  case (1 f pos image_size be)
  let ?want = "if image_size - pos < GAP_SCAN_CHUNK then unat (image_size - pos) else unat GAP_SCAN_CHUNK"
  let ?buf = "take ?want (drop (unat pos) f)"
  let ?got = "length ?buf"
  from "1.prems" obtain off where le: "pos + 2 \<le> image_size" and seek: "crimp_fs_seek64 pos = Some off"
    and got2: "\<not> ?got < 2"
    by (subst (asm) find_next_node.simps)
      (auto simp: Let_def crimp_fs_seek64_def split: if_splits option.splits)
  have off: "off = unat pos" and pos: "unat pos < 9223372036854775808"
    using seek by (auto simp: crimp_fs_seek64_def word_less_nat_alt split: if_splits)
  have "unat (pos + 2) = unat pos + 2" using pos by (simp add: unat_plus_small)
  with le have le': "unat pos + 2 \<le> unat image_size" by (simp add: word_le_nat_alt)
  then have w: "?want \<le> unat image_size - unat pos" "?want \<le> 65536"
    using unat_minus_small [of pos image_size]
    by (auto simp: GAP_SCAN_CHUNK_def word_less_nat_alt word_le_nat_alt)
  have g: "?got \<le> ?want" "?got \<le> length f - unat pos" by auto
  show ?case
  proof (cases "List.find (\<lambda>i. crimp_fs_decode_u16 (drop i ?buf) be = JFFS2_MAGIC) (gap_candidates ?got)")
    case (Some i)
    then have i: "i + 1 < ?got" and m: "crimp_fs_decode_u16 (drop i ?buf) be = JFFS2_MAGIC"
      using find_SomeD [OF Some] gap_candidates_less [of i ?got] by blast+
    have p: "p = pos + of_nat i"
      using "1.prems" le seek got2 Some off
      by (subst (asm) find_next_node.simps) (simp add: Let_def)
    have "unat (of_nat i :: u64) = i" unfolding unat_of_nat using i g(1) w(2) by simp
    then have up: "unat p = unat pos + i"
      using i g(1) w(2) pos p by (simp add: unat_plus_small)
    have "drop i ?buf = take (?want - i) (drop (unat p) f)"
      by (simp add: drop_take drop_drop up add.commute)
    moreover have "2 \<le> ?want - i" using i g(1) by linarith
    ultimately have "crimp_fs_decode_u16 (drop (unat p) f) be = JFFS2_MAGIC"
      using m decode_u16_take by metis
    with up i g w le' show ?thesis by linarith
  next
    case None
    then have more: "\<not> (?got < 4 \<or> ?got < ?want)"
      and rec: "find_next_node f (pos + of_nat (?got div 4 * 4)) image_size be = Some p"
      using "1.prems" le seek got2 off
      by (subst (asm) find_next_node.simps, simp add: Let_def del: of_nat_mult split: if_splits)+
    then have "4 \<le> ?got" by (meson not_less)
    note prog = find_next_node_progress [OF le seek refl this g(1)]
    show ?thesis
      using "1.IH" [OF le seek [unfolded off] refl refl refl refl got2 None more rec] prog
      by linarith
  qed
qed

text \<open>
  \<open>off\<close> is the stream position, right after the common header, and the dirent's name is
  kept with its on-disk length.
\<close>

definition parse_dirent_node ::
  "byte list \<Rightarrow> nat \<Rightarrow> u32 \<Rightarrow> bool \<Rightarrow> dirent_list \<Rightarrow> dirent_list option" where
  "parse_dirent_node f off totlen big_endian dirents =
     (if totlen < JFFS2_COMMON_HEADER_SIZE + JFFS2_DIRENT_FIXED_SIZE then None
      else do {
        fixed \<leftarrow> file_read f off (unat JFFS2_DIRENT_FIXED_SIZE);
        let pino = crimp_fs_decode_u32 (drop 0 fixed) big_endian;
        let version = crimp_fs_decode_u32 (drop 4 fixed) big_endian;
        let ino = crimp_fs_decode_u32 (drop 8 fixed) big_endian;
        let nsize = fixed ! 16;
        let name_len_avail = totlen - JFFS2_COMMON_HEADER_SIZE - JFFS2_DIRENT_FIXED_SIZE;
        if nsize = 0 \<or> ucast nsize > name_len_avail then None
        else do {
          name \<leftarrow> file_read f (off + unat JFFS2_DIRENT_FIXED_SIZE) (unat nsize);
          Some (dirent_list_add dirents pino version ino (text_of name)) } })"

definition parse_inode_node ::
  "byte list \<Rightarrow> nat \<Rightarrow> u64 \<Rightarrow> u32 \<Rightarrow> bool \<Rightarrow> inode_rec_list \<Rightarrow> inode_rec_list option" where
  "parse_inode_node f off pos totlen big_endian inodes =
     (if totlen < JFFS2_COMMON_HEADER_SIZE + JFFS2_INODE_FIXED_SIZE then None
      else do {
        fixed \<leftarrow> file_read f off (unat JFFS2_INODE_FIXED_SIZE);
        let rec = \<lparr>ji_ino = crimp_fs_decode_u32 (drop 0 fixed) big_endian,
                   ji_version = crimp_fs_decode_u32 (drop 4 fixed) big_endian,
                   ji_mode = crimp_fs_decode_u32 (drop 8 fixed) big_endian,
                   ji_isize = crimp_fs_decode_u32 (drop 16 fixed) big_endian,
                   ji_frag_offset = crimp_fs_decode_u32 (drop 32 fixed) big_endian,
                   ji_csize = crimp_fs_decode_u32 (drop 36 fixed) big_endian,
                   ji_dsize = crimp_fs_decode_u32 (drop 40 fixed) big_endian,
                   ji_compr = fixed ! 44,
                   ji_file_offset = pos + ucast JFFS2_COMMON_HEADER_SIZE + ucast JFFS2_INODE_FIXED_SIZE\<rparr>;
        let data_avail = totlen - JFFS2_COMMON_HEADER_SIZE - JFFS2_INODE_FIXED_SIZE;
        if ji_csize rec > data_avail then None else Some (inode_rec_list_add inodes rec) })"

text \<open>The node after one of \<open>totlen\<close> bytes: rounded up to four bytes, and inside what a file can hold.\<close>

definition next_node_pos :: "u64 \<Rightarrow> u32 \<Rightarrow> u64" where
  "next_node_pos pos totlen = (let next = pos + ucast totlen in (next + 3) AND NOT 3)"

lemma unat_and_not_3: "unat ((x :: u64) AND NOT 3) = unat x div 4 * 4"
proof -
  have "bit (x AND NOT (mask 2)) n = bit (push_bit 2 (drop_bit 2 x)) n" if "n < 64" for n
    using that by (cases "2 \<le> n") (auto simp: bit_simps Suc_diff_le dest: le_Suc_ex)
  then have "x AND NOT 3 = push_bit 2 (drop_bit 2 x)"
    by (intro bit_word_eqI) (simp add: mask_eq_exp_minus_1)
  moreover have "unat x div 4 * 4 < 18446744073709551616"
    using unat_u64_bound [of x] by (meson div_times_less_eq_dividend le_less_trans)
  then have "unat (push_bit 2 (drop_bit 2 x)) = unat x div 4 * 4"
    by (simp add: push_bit_eq_mult unat_word_ariths unat_drop_bit_eq drop_bit_eq_div)
  ultimately show ?thesis by simp
qed

lemma next_node_pos_unat:
  assumes "unat pos < 9223372036854775808"
  shows "unat (next_node_pos pos totlen) = (unat pos + unat totlen + 3) div 4 * 4"
proof -
  have t: "unat totlen < 4294967296" by (rule unat_u32_bound)
  have "unat (pos + ucast totlen) = unat pos + unat totlen"
    using assms t unat_plus_small(1) [of pos "ucast totlen"] by (simp only: unat_widen)
  moreover from this have "unat (pos + ucast totlen + 3) = unat pos + unat totlen + 3"
    using add_strict_mono [OF assms t] unat_plus_small(1) [of "pos + ucast totlen" 3] by simp
  ultimately show ?thesis unfolding next_node_pos_def Let_def unat_and_not_3 by simp
qed

text \<open>One good node, its header already checked: the lists after it.\<close>

definition scan_node ::
  "byte list \<Rightarrow> u64 \<Rightarrow> u16 \<Rightarrow> u32 \<Rightarrow> bool \<Rightarrow> dirent_list \<Rightarrow> inode_rec_list \<Rightarrow>
   (dirent_list \<times> inode_rec_list) option" where
  "scan_node f pos nodetype totlen big_endian dirents inodes =
     (let off = unat pos + unat JFFS2_COMMON_HEADER_SIZE
      in do {
        dirents' \<leftarrow> (if nodetype = JFFS2_NODETYPE_DIRENT
                      then parse_dirent_node f off totlen big_endian dirents else Some dirents);
        inodes' \<leftarrow> (if nodetype = JFFS2_NODETYPE_INODE
                     then parse_inode_node f off pos totlen big_endian inodes else Some inodes);
        Some (dirents', inodes') })"

function scan_log_from ::
  "byte list \<Rightarrow> u64 \<Rightarrow> u64 \<Rightarrow> bool \<Rightarrow> dirent_list \<Rightarrow> inode_rec_list \<Rightarrow>
   (dirent_list \<times> inode_rec_list) option" where
  "scan_log_from f pos image_size big_endian dirents inodes =
     (if pos + ucast JFFS2_COMMON_HEADER_SIZE \<le> image_size then
        (case read_at f pos (unat JFFS2_COMMON_HEADER_SIZE) of None \<Rightarrow> None
         | Some hdr \<Rightarrow>
             if crimp_fs_decode_u16 hdr big_endian \<noteq> JFFS2_MAGIC then
               (case find_next_node f pos image_size big_endian of
                  None \<Rightarrow> Some (dirents, inodes)
                | Some next_pos \<Rightarrow> scan_log_from f next_pos image_size big_endian dirents inodes)
             else
               (let nodetype = crimp_fs_decode_u16 (drop 2 hdr) big_endian;
                    totlen = crimp_fs_decode_u32 (drop 4 hdr) big_endian
                in if totlen < JFFS2_COMMON_HEADER_SIZE \<or> pos + ucast totlen > image_size then None
                   else (case scan_node f pos nodetype totlen big_endian dirents inodes of
                           None \<Rightarrow> None
                         | Some (dirents', inodes') \<Rightarrow>
                             scan_log_from f (next_node_pos pos totlen) image_size big_endian
                               dirents' inodes')))
      else Some (dirents, inodes))"
  by pat_completeness auto

lemma scan_log_step:
  assumes "pos + ucast JFFS2_COMMON_HEADER_SIZE \<le> image_size"
    and "read_at f pos (unat JFFS2_COMMON_HEADER_SIZE) = Some hdr"
  shows "unat pos < 9223372036854775808" and "unat pos + 12 \<le> unat image_size"
    and "hdr = take 12 (drop (unat pos) f)"
proof -
  show p: "unat pos < 9223372036854775808"
    using assms(2) by (auto simp: read_at_def crimp_fs_seek64_def word_less_nat_alt split: if_splits)
  have "unat (pos + ucast JFFS2_COMMON_HEADER_SIZE) = unat pos + 12"
    using p by (simp add: unat_plus_small JFFS2_COMMON_HEADER_SIZE_def)
  then show "unat pos + 12 \<le> unat image_size" using assms(1) by (simp add: word_le_nat_alt)
  show "hdr = take 12 (drop (unat pos) f)"
    using assms(2) by (auto simp: read_at_def crimp_fs_seek64_def file_read_def
        JFFS2_COMMON_HEADER_SIZE_def split: if_splits)
qed

termination scan_log_from
proof (relation "measure (\<lambda>(f, pos, image_size, be, ds, is). unat image_size - unat pos)", goal_cases)
  case (2 f pos image_size be ds inos hdr next_pos)
  note s = scan_log_step [OF 2(1,2)]
  from find_next_node_found [OF 2(4)] have n: "unat pos \<le> unat next_pos"
    and m: "crimp_fs_decode_u16 (drop (unat next_pos) f) be = JFFS2_MAGIC" by auto
  have "crimp_fs_decode_u16 (drop (unat pos) f) be \<noteq> JFFS2_MAGIC"
    using 2(3) s(3) by (simp add: decode_u16_take)
  with n m have "unat pos < unat next_pos" by (metis le_neq_implies_less)
  with s(2) show ?case by simp
next
  case (3 f pos image_size be ds inos hdr nodetype totlen ds' inos')
  note s = scan_log_step [OF 3(1,2)]
  have "12 \<le> unat totlen" using 3 by (auto simp: JFFS2_COMMON_HEADER_SIZE_def word_less_nat_alt)
  with s(2) show ?case by (simp add: next_node_pos_unat [OF s(1)])
qed simp

declare scan_log_from.simps [simp del]

definition scan_log ::
  "byte list \<Rightarrow> u64 \<Rightarrow> bool \<Rightarrow> (dirent_list \<times> inode_rec_list) option" where
  "scan_log f image_size big_endian = scan_log_from f 0 image_size big_endian vec_init vec_init"

section \<open>Byte order and size\<close>

definition jffs2_detect_endianness :: "byte list \<Rightarrow> bool option" where
  "jffs2_detect_endianness f =
     do { magic_bytes \<leftarrow> read_at f 0 2;
          if crimp_fs_decode_u16 magic_bytes False = JFFS2_MAGIC then Some False
          else if crimp_fs_decode_u16 magic_bytes True = JFFS2_MAGIC then Some True
          else None }"

definition jffs2_file_size :: "byte list \<Rightarrow> u64" where
  "jffs2_file_size f = of_nat (length f)"

end
