(* ===== verification/Jffs2Scan.thy ===== *)
theory Jffs2Scan
  imports Jffs2Log
begin

text \<open>
  What the scan of a JFFS2 log returns: all records of a log that was written node by
  node, in their order, and on any image nothing but records of nodes that are there.
\<close>

section \<open>The scan reads every node of a log\<close>

definition magic_at :: "byte list \<Rightarrow> bool \<Rightarrow> nat \<Rightarrow> bool" where
  "magic_at f be n \<longleftrightarrow> crimp_fs_decode_u16 (drop n f) be = JFFS2_MAGIC"

text \<open>The four-byte-spaced positions from \<open>n\<close> on that have two bytes before the end.\<close>

definition node_positions :: "byte list \<Rightarrow> nat \<Rightarrow> nat list" where
  "node_positions f n = map (\<lambda>k. n + 4 * k) [0..<(length f + 2 - n) div 4]"

lemma node_positions_split:
  "4 * q \<le> length f + 2 - n \<Longrightarrow>
     node_positions f n = map (\<lambda>k. n + 4 * k) [0..<q] @ node_positions f (n + 4 * q)"
proof -
  assume "4 * q \<le> length f + 2 - n"
  moreover define N where "N = (length f + 2 - (n + 4 * q)) div 4"
  ultimately have "(length f + 2 - n) div 4 = q + N" by simp
  moreover have "[0..<q + N] = [0..<q] @ map (\<lambda>k. k + q) [0..<N]"
    using upt_add_eq_append [of 0 q N] by (simp add: map_add_upt add.commute)
  ultimately show ?thesis
    unfolding node_positions_def N_def [symmetric] by (simp add: algebra_simps)
qed

lemma unat_of_nat_small: "n < 18446744073709551616 \<Longrightarrow> unat (of_nat n :: u64) = n"
  unfolding unat_of_nat by simp

text \<open>One chunk of the search: it covers the \<open>got\<close> bytes from \<open>n\<close> on.\<close>

definition gap_chunk :: "byte list \<Rightarrow> nat \<Rightarrow> nat" where
  "gap_chunk f n = (if length f - n < 65536 then length f - n else 65536)"

lemma gap_chunk_find:
  assumes "n \<le> length f"
  shows "map_option ((+) n) (List.find (\<lambda>i. crimp_fs_decode_u16 (drop i (take (gap_chunk f n) (drop n f))) be = JFFS2_MAGIC)
      (gap_candidates (gap_chunk f n))) =
    List.find (magic_at f be) (map (\<lambda>k. n + 4 * k) [0..<(gap_chunk f n + 2) div 4])"
proof -
  let ?got = "gap_chunk f n"
  have "crimp_fs_decode_u16 (drop i (take ?got (drop n f))) be = JFFS2_MAGIC \<longleftrightarrow> magic_at f be (n + i)"
    if "i \<in> set (gap_candidates ?got)" for i
  proof -
    have "i + 1 < ?got" using that by (rule gap_candidates_less)
    then have "2 \<le> ?got - i" by simp
    then show ?thesis
      by (simp add: magic_at_def drop_take drop_drop decode_u16_take add.commute)
  qed
  then have "List.find (\<lambda>i. crimp_fs_decode_u16 (drop i (take ?got (drop n f))) be = JFFS2_MAGIC) (gap_candidates ?got) =
      List.find (\<lambda>i. magic_at f be (n + i)) (gap_candidates ?got)"
    by (rule find_cong_on)
  also have "map_option ((+) n) \<dots> = List.find (magic_at f be) (map (\<lambda>k. n + 4 * k) [0..<(?got + 2) div 4])"
    by (simp add: gap_candidates_def find_map option.map_comp o_def)
  finally show ?thesis .
qed

lemma find_next_node_chunk:
  assumes "length f < 2 ^ 63" and "n + 2 \<le> length f"
  shows "find_next_node f (of_nat n) (of_nat (length f)) be =
    (case List.find (magic_at f be) (map (\<lambda>k. n + 4 * k) [0..<(gap_chunk f n + 2) div 4]) of
       Some p \<Rightarrow> Some (of_nat p)
     | None \<Rightarrow> if gap_chunk f n < 4 then None
               else find_next_node f (of_nat (n + gap_chunk f n div 4 * 4)) (of_nat (length f)) be)"
proof -
  let ?L = "length f" and ?got = "gap_chunk f n"
  have un: "unat (of_nat n :: u64) = n" "unat (of_nat ?L :: u64) = ?L" "unat (of_nat n + 2 :: u64) = n + 2"
    using assms unat_of_nat_small [of "n + 2"] by (simp_all add: unat_of_nat_small add.commute)
  have got: "2 \<le> ?got" "length (take ?got (drop n f)) = ?got" using assms(2) by (auto simp: gap_chunk_def)
  have "unat (of_nat ?L - of_nat n :: u64) = ?L - n"
    using assms un by (simp add: unat_minus_small word_le_nat_alt)
  then have want: "(if (of_nat ?L - of_nat n :: u64) < GAP_SCAN_CHUNK then unat (of_nat ?L - of_nat n :: u64)
      else unat GAP_SCAN_CHUNK) = ?got"
    by (simp add: gap_chunk_def GAP_SCAN_CHUNK_def word_less_nat_alt)
  have seek: "crimp_fs_seek64 (of_nat n) = Some n"
    using assms un by (simp add: crimp_fs_seek64_def word_less_nat_alt)
  have "find_next_node f (of_nat n) (of_nat ?L) be =
     (case List.find (\<lambda>i. crimp_fs_decode_u16 (drop i (take ?got (drop n f))) be = JFFS2_MAGIC) (gap_candidates ?got) of
        Some i \<Rightarrow> Some (of_nat n + of_nat i)
      | None \<Rightarrow> if ?got < 4 then None else find_next_node f (of_nat n + of_nat (?got div 4 * 4)) (of_nat ?L) be)"
    using assms(2) un got
    by (subst find_next_node.simps)
      (simp only: seek want Let_def option.case word_le_nat_alt got(2) if_True simp_thms; simp)
  then have "find_next_node f (of_nat n) (of_nat ?L) be =
     (case map_option ((+) n) (List.find (\<lambda>i. crimp_fs_decode_u16 (drop i (take ?got (drop n f))) be = JFFS2_MAGIC)
         (gap_candidates ?got)) of
        Some p \<Rightarrow> Some (of_nat p)
      | None \<Rightarrow> if ?got < 4 then None else find_next_node f (of_nat (n + ?got div 4 * 4)) (of_nat ?L) be)"
    by (simp only: of_nat_add case_map_option o_def)
  then show ?thesis using gap_chunk_find [of n f be] assms(2) by simp
qed

lemma find_next_node_first:
  assumes "length f < 2 ^ 63" and "n \<le> length f"
  shows "find_next_node f (of_nat n) (of_nat (length f)) be =
    map_option of_nat (List.find (magic_at f be) (node_positions f n))"
  using assms(2)
proof (induction "length f - n" arbitrary: n rule: less_induct)
  case less
  let ?got = "gap_chunk f n" and ?find = "List.find (magic_at f be)"
  let ?first = "\<lambda>q. map (\<lambda>k. n + 4 * k) [0..<q]"
  have split: "?find (node_positions f n) = (case ?find (?first q) of None \<Rightarrow> ?find (node_positions f (n + 4 * q)) | Some p \<Rightarrow> Some p)"
    if "4 * q \<le> length f + 2 - n" for q
    unfolding node_positions_split [OF that] find_append by (simp split: option.split)
  show ?case
  proof (cases "n + 2 \<le> length f")
    case False
    have "unat (of_nat n + 2 :: u64) = n + 2" "unat (of_nat (length f) :: u64) = length f"
      using unat_of_nat_small [of "n + 2"] less.prems assms(1) by (simp_all add: unat_of_nat_small add.commute)
    with False show ?thesis
      by (simp add: find_next_node.simps [of f "of_nat n"] word_le_nat_alt node_positions_def)
  next
    case True
    note chunk = find_next_node_chunk [OF assms(1) True, of be]
    have j: "4 * ((?got + 2) div 4) \<le> length f + 2 - n" using less.prems by (auto simp: gap_chunk_def)
    consider p where "?find (?first ((?got + 2) div 4)) = Some p"
      | "?find (?first ((?got + 2) div 4)) = None" "?got < 4"
      | "?find (?first ((?got + 2) div 4)) = None" "4 \<le> ?got" by fastforce
    then show ?thesis
    proof cases
      case 1
      then show ?thesis unfolding chunk split [OF j] by simp
    next
      case 2
      then have "node_positions f (n + 4 * ((?got + 2) div 4)) = []"
        using True by (auto simp: node_positions_def gap_chunk_def split: if_splits)
      with 2 show ?thesis unfolding chunk split [OF j] by simp
    next
      case 3
      let ?q = "?got div 4"
      have q: "4 * ?q \<le> length f + 2 - n" "?q \<le> (?got + 2) div 4" "1 \<le> ?q" "n + ?q * 4 \<le> length f"
        using 3(2) True by (auto simp: gap_chunk_def)
      then have "?find (?first ?q) = None" using 3(1) unfolding find_None_iff by auto
      moreover have "find_next_node f (of_nat (n + ?q * 4)) (of_nat (length f)) be =
          map_option of_nat (?find (node_positions f (n + ?q * 4)))"
        by (rule less.hyps) (use q in auto)
      ultimately show ?thesis
        unfolding chunk split [OF q(1)] using 3 by (simp add: mult.commute del: of_nat_add)
    qed
  qed
qed

lemma unat_header_end:
  "n < 2 ^ 63 + 3 \<Longrightarrow> unat (of_nat n + ucast JFFS2_COMMON_HEADER_SIZE :: u64) = n + 12"
proof -
  assume n: "n < 2 ^ 63 + 3"
  have h: "ucast JFFS2_COMMON_HEADER_SIZE = (12 :: u64)" by (simp add: JFFS2_COMMON_HEADER_SIZE_def)
  have "unat (of_nat (n + 12) :: u64) = n + 12" using n by (intro unat_of_nat_small) simp
  then show ?thesis unfolding h by (simp only: of_nat_add of_nat_numeral)
qed

lemma scan_log_end:
  assumes "length f < 2 ^ 63" and "n \<le> length f + 3" and "length f < n + 12"
  shows "scan_log_from f (of_nat n) (of_nat (length f)) be ds rs = Some (ds, rs)"
proof -
  have "unat (of_nat n + ucast JFFS2_COMMON_HEADER_SIZE :: u64) = n + 12"
    using assms(1,2) by (intro unat_header_end) simp
  moreover have "unat (of_nat (length f) :: u64) = length f" using assms(1) by (simp add: unat_of_nat_small)
  ultimately show ?thesis
    using assms(3) by (simp add: scan_log_from.simps [of f "of_nat n"] word_le_nat_alt)
qed

text \<open>With a whole header ahead, the scan looks at it.\<close>

lemma scan_log_header:
  assumes "length f < 2 ^ 63" and "n + 12 \<le> length f"
  shows "scan_log_from f (of_nat n) (of_nat (length f)) be ds rs =
    (if \<not> magic_at f be n then
       (case find_next_node f (of_nat n) (of_nat (length f)) be of None \<Rightarrow> Some (ds, rs)
        | Some p \<Rightarrow> scan_log_from f p (of_nat (length f)) be ds rs)
     else (let nodetype = crimp_fs_decode_u16 (drop (n + 2) f) be;
               totlen = crimp_fs_decode_u32 (drop (n + 4) f) be
           in if unat totlen < 12 \<or> n + unat totlen > length f then None
              else (case scan_node f (of_nat n) nodetype totlen be ds rs of None \<Rightarrow> None
                    | Some (ds', rs') \<Rightarrow>
                        scan_log_from f (of_nat ((n + unat totlen + 3) div 4 * 4)) (of_nat (length f)) be ds' rs')))"
proof -
  let ?hdr = "take 12 (drop n f)"
  have L: "length f < 9223372036854775808" using assms(1) by simp
  have un: "unat (of_nat n :: u64) = n" "unat (of_nat (length f) :: u64) = length f"
    using assms by (simp_all add: unat_of_nat_small)
  have u12: "unat (of_nat n + ucast JFFS2_COMMON_HEADER_SIZE :: u64) = n + 12"
    using assms by (intro unat_header_end) simp
  have rd: "read_at f (of_nat n) (unat JFFS2_COMMON_HEADER_SIZE) = Some ?hdr"
    using assms un by (simp add: read_at_def crimp_fs_seek64_def word_less_nat_alt file_read_def
        JFFS2_COMMON_HEADER_SIZE_def)
  have m: "crimp_fs_decode_u16 ?hdr be = JFFS2_MAGIC \<longleftrightarrow> magic_at f be n"
    by (simp add: magic_at_def decode_u16_take)
  have ty: "crimp_fs_decode_u16 (drop 2 ?hdr) be = crimp_fs_decode_u16 (drop (n + 2) f) be"
    and tl: "crimp_fs_decode_u32 (drop 4 ?hdr) be = crimp_fs_decode_u32 (drop (n + 4) f) be"
    by (simp_all add: drop_take drop_drop decode_u16_take decode_u32_take add.commute)
  have fits: "of_nat n + ucast (t :: u32) > (of_nat (length f) :: u64) \<longleftrightarrow> n + unat t > length f" for t
  proof -
    have "n + unat t < 18446744073709551616" using L assms(2) unat_u32_bound [of t] by linarith
    then have "unat (of_nat n + ucast t :: u64) = n + unat t"
      using unat_plus_small(1) [of "of_nat n" "ucast t"] un by simp
    then show ?thesis using un by (simp add: word_less_nat_alt)
  qed
  have nx: "next_node_pos (of_nat n) t = of_nat ((n + unat t + 3) div 4 * 4)" for t
  proof (rule word_unat_eq_iff [THEN iffD2])
    have "(n + unat t + 3) div 4 * 4 < 18446744073709551616"
      using L assms(2) unat_u32_bound [of t] by linarith
    then show "unat (next_node_pos (of_nat n) t) = unat (of_nat ((n + unat t + 3) div 4 * 4) :: u64)"
      using next_node_pos_unat [of "of_nat n" t] assms un unat_of_nat_small by (simp del: of_nat_mult)
  qed
  have c: "of_nat n + ucast JFFS2_COMMON_HEADER_SIZE \<le> (of_nat (length f) :: u64)"
    using u12 un assms by (simp add: word_le_nat_alt)
  have t12: "t < JFFS2_COMMON_HEADER_SIZE \<longleftrightarrow> unat t < 12" for t
    by (simp add: JFFS2_COMMON_HEADER_SIZE_def word_less_nat_alt)
  show ?thesis
    by (subst scan_log_from.simps) (simp only: c rd m ty tl fits nx t12 if_True option.case Let_def)
qed

text \<open>Bytes that do not start with the magic are stepped over, four at a time.\<close>

lemma scan_log_gap:
  assumes "length f < 2 ^ 63" and "n + 4 \<le> length f" and "\<not> magic_at f be n"
  shows "scan_log_from f (of_nat n) (of_nat (length f)) be ds rs =
    scan_log_from f (of_nat (n + 4)) (of_nat (length f)) be ds rs"
proof -
  have nf: "find_next_node f (of_nat m) (of_nat (length f)) be =
      map_option of_nat (List.find (magic_at f be) (node_positions f m))" if "m \<le> length f" for m
    using assms(1) that by (rule find_next_node_first)
  have skip: "List.find (magic_at f be) (node_positions f n) = List.find (magic_at f be) (node_positions f (n + 4))"
    using node_positions_split [of 1 f n] assms(2,3) by simp
  have far: "scan_log_from f (of_nat p) (of_nat (length f)) be ds rs = Some (ds, rs)"
    if "List.find (magic_at f be) (node_positions f (n + 4)) = Some p" "length f < n + 16" for p
  proof -
    from find_SomeD [OF that(1)] have "n + 4 \<le> p" "p + 2 \<le> length f" by (auto simp: node_positions_def)
    then show ?thesis using that(2) assms(1) by (intro scan_log_end) auto
  qed
  show ?thesis
  proof (cases "n + 16 \<le> length f")
    case False
    then have r: "scan_log_from f (of_nat (n + 4)) (of_nat (length f)) be ds rs = Some (ds, rs)"
      using assms by (intro scan_log_end) auto
    show ?thesis
    proof (cases "n + 12 \<le> length f")
      case True
      have "scan_log_from f (of_nat n) (of_nat (length f)) be ds rs = Some (ds, rs)"
        unfolding scan_log_header [OF assms(1) True] using assms far False nf [of n] skip
        by (simp del: of_nat_add split: option.split)
      with r show ?thesis by simp
    next
      case f2: False
      then have "scan_log_from f (of_nat n) (of_nat (length f)) be ds rs = Some (ds, rs)"
        using assms by (intro scan_log_end) auto
      with r show ?thesis by simp
    qed
  next
    case True
    then have n12: "n + 12 \<le> length f" "n + 4 + 12 \<le> length f" by auto
    have here: "scan_log_from f (of_nat n) (of_nat (length f)) be ds rs =
       (case List.find (magic_at f be) (node_positions f (n + 4)) of None \<Rightarrow> Some (ds, rs)
        | Some p \<Rightarrow> scan_log_from f (of_nat p) (of_nat (length f)) be ds rs)"
      unfolding scan_log_header [OF assms(1) n12(1)] using assms nf [of n] skip
      by (simp split: option.split)
    show ?thesis
    proof (cases "magic_at f be (n + 4)")
      case True
      then have "List.find (magic_at f be) (node_positions f (n + 4)) = Some (n + 4)"
        using node_positions_split [of 1 f "n + 4"] n12 by simp
      with here show ?thesis by (simp del: of_nat_add)
    next
      case False
      with here show ?thesis
        unfolding scan_log_header [OF assms(1) n12(2)] using nf [of "n + 4"] n12
        by (simp del: of_nat_add split: option.split)
    qed
  qed
qed

text \<open>
  A log as its writer sees it. The fields the scan does not use (checksums, times,
  owners, ...) are arbitrary bytes; every node is padded to four bytes; a gap is four
  bytes of an erase block's unused rest.
\<close>

datatype log_item =
    LogDirent jffs2_dirent_rec "byte list" "byte list" "byte list"
  | LogInode jffs2_inode_rec "byte list" "byte list" "byte list" "byte list" "byte list"
  | LogOther u16 "byte list" "byte list"
  | LogGap "byte list"

definition node_padding :: "nat \<Rightarrow> byte list" where
  "node_padding n = replicate ((n + 3) div 4 * 4 - n) 0xFF"

definition encode_node :: "bool \<Rightarrow> u16 \<Rightarrow> byte list \<Rightarrow> byte list \<Rightarrow> byte list" where
  "encode_node be nodetype crc body =
     encode_u16 JFFS2_MAGIC be @ encode_u16 nodetype be @ encode_u32 (of_nat (12 + length body)) be @
     crc @ body @ node_padding (12 + length body)"

definition dirent_body :: "bool \<Rightarrow> jffs2_dirent_rec \<Rightarrow> byte list \<Rightarrow> byte list \<Rightarrow> byte list" where
  "dirent_body be r mctime rest =
     encode_u32 (jd_pino r) be @ encode_u32 (jd_version r) be @ encode_u32 (jd_ino r) be @ mctime @
     [of_nat (length (jd_name r))] @ rest @ map byte_of_chr (jd_name r)"

definition inode_body ::
  "bool \<Rightarrow> jffs2_inode_rec \<Rightarrow> byte list \<Rightarrow> byte list \<Rightarrow> byte list \<Rightarrow> byte list \<Rightarrow> byte list" where
  "inode_body be r ids stamps rest data =
     encode_u32 (ji_ino r) be @ encode_u32 (ji_version r) be @ encode_u32 (ji_mode r) be @ ids @
     encode_u32 (ji_isize r) be @ stamps @ encode_u32 (ji_frag_offset r) be @
     encode_u32 (ji_csize r) be @ encode_u32 (ji_dsize r) be @ [ji_compr r] @ rest @ data"

fun encode_item :: "bool \<Rightarrow> log_item \<Rightarrow> byte list" where
  "encode_item be (LogDirent r crc mctime rest) =
     encode_node be JFFS2_NODETYPE_DIRENT crc (dirent_body be r mctime rest)"
| "encode_item be (LogInode r crc ids stamps rest data) =
     encode_node be JFFS2_NODETYPE_INODE crc (inode_body be r ids stamps rest data)"
| "encode_item be (LogOther nodetype crc body) = encode_node be nodetype crc body"
| "encode_item be (LogGap bytes) = bytes"

fun log_item_wf :: "bool \<Rightarrow> log_item \<Rightarrow> bool" where
  "log_item_wf be (LogDirent r crc mctime rest) \<longleftrightarrow>
     length crc = 4 \<and> length mctime = 4 \<and> length rest = 11 \<and>
     0 < length (jd_name r) \<and> length (jd_name r) < 256"
| "log_item_wf be (LogInode r crc ids stamps rest data) \<longleftrightarrow>
     length crc = 4 \<and> length ids = 4 \<and> length stamps = 12 \<and> length rest = 11 \<and>
     length data = unat (ji_csize r) \<and> ji_csize r \<le> 0xFFFFFF00"
| "log_item_wf be (LogOther nodetype crc body) \<longleftrightarrow>
     length crc = 4 \<and> nodetype \<noteq> JFFS2_NODETYPE_DIRENT \<and> nodetype \<noteq> JFFS2_NODETYPE_INODE \<and>
     (of_nat (length body) :: u64) \<le> 0xFFFFFF00"
| "log_item_wf be (LogGap bytes) \<longleftrightarrow>
     length bytes = 4 \<and> crimp_fs_decode_u16 bytes be \<noteq> JFFS2_MAGIC"

text \<open>The records such a log holds; an inode record knows where its data is.\<close>

fun log_dirents :: "log_item list \<Rightarrow> jffs2_dirent_rec list" where
  "log_dirents [] = []"
| "log_dirents (LogDirent r _ _ _ # items) = r # log_dirents items"
| "log_dirents (_ # items) = log_dirents items"

fun log_inodes :: "bool \<Rightarrow> nat \<Rightarrow> log_item list \<Rightarrow> jffs2_inode_rec list" where
  "log_inodes be pos [] = []"
| "log_inodes be pos (item # items) =
     (case item of LogInode r _ _ _ _ _ \<Rightarrow> [r\<lparr>ji_file_offset := of_nat (pos + 68)\<rparr>] | _ \<Rightarrow> []) @
     log_inodes be (pos + length (encode_item be item)) items"

lemma length_node_padding: "length (node_padding n) = (n + 3) div 4 * 4 - n"
  by (simp add: node_padding_def)

lemma length_encode_node:
  "length crc = 4 \<Longrightarrow> length (encode_node be ty crc body) = (12 + length body + 3) div 4 * 4"
  by (simp add: encode_node_def length_node_padding)

lemma length_dirent_body:
  "length mctime = 4 \<Longrightarrow> length rest = 11 \<Longrightarrow> length (dirent_body be r mctime rest) = 28 + length (jd_name r)"
  by (simp add: dirent_body_def)

lemma length_inode_body:
  "length ids = 4 \<Longrightarrow> length stamps = 12 \<Longrightarrow> length rest = 11 \<Longrightarrow>
     length (inode_body be r ids stamps rest data) = 56 + length data"
  by (simp add: inode_body_def)

lemma unat_u32_of_nat: "n < 4294967296 \<Longrightarrow> unat (of_nat n :: u32) = n"
  unfolding unat_of_nat by simp

text \<open>The two parsers read back what was written behind a header at \<open>n\<close>.\<close>

lemma parse_dirent_encoded:
  assumes "length pre = n + 12" and "length mctime = 4" and "length rest = 11"
    and "0 < length (jd_name r)" and "length (jd_name r) < 256"
    and "f = pre @ dirent_body be r mctime rest @ post"
    and "unat totlen = 40 + length (jd_name r)"
  shows "parse_dirent_node f (n + 12) totlen be ds =
    Some (dirent_list_add ds (jd_pino r) (jd_version r) (jd_ino r) (jd_name r))"
proof -
  let ?k = "length (jd_name r)"
  let ?fixed = "take 28 (dirent_body be r mctime rest)"
  have f1: "file_read f (n + 12) (unat JFFS2_DIRENT_FIXED_SIZE) = Some ?fixed"
    using assms by (simp add: file_read_def JFFS2_DIRENT_FIXED_SIZE_def length_dirent_body)
  have nsize: "unat (of_nat ?k :: byte) = ?k" unfolding unat_of_nat using assms(5) by simp
  have name: "drop 28 (dirent_body be r mctime rest) = map byte_of_chr (jd_name r)"
    using assms by (simp add: dirent_body_def)
  have f2: "file_read f (n + 12 + unat JFFS2_DIRENT_FIXED_SIZE) ?k = Some (map byte_of_chr (jd_name r))"
    using assms name
    by (simp add: file_read_def JFFS2_DIRENT_FIXED_SIZE_def length_dirent_body)
  have flds: "crimp_fs_decode_u32 (drop 0 ?fixed) be = jd_pino r"
    "crimp_fs_decode_u32 (drop 4 ?fixed) be = jd_version r"
    "crimp_fs_decode_u32 (drop 8 ?fixed) be = jd_ino r" "?fixed ! 16 = of_nat ?k"
    using assms
    by (simp_all add: drop_take decode_u32_take dirent_body_def decode_u32_append decode_encode_u32
        nth_append)
  have tx: "text_of (map byte_of_chr (jd_name r)) = jd_name r"
    by (simp add: text_of_def o_def)
  have t: "\<not> totlen < JFFS2_COMMON_HEADER_SIZE + JFFS2_DIRENT_FIXED_SIZE"
    using assms(7) by (simp add: JFFS2_COMMON_HEADER_SIZE_def JFFS2_DIRENT_FIXED_SIZE_def word_less_nat_alt)
  have "unat (totlen - JFFS2_COMMON_HEADER_SIZE - JFFS2_DIRENT_FIXED_SIZE) = ?k"
    using assms(7) unat_minus_small [of 40 totlen]
    by (simp add: JFFS2_COMMON_HEADER_SIZE_def JFFS2_DIRENT_FIXED_SIZE_def word_le_nat_alt diff_diff_eq)
  then have av: "\<not> ucast (of_nat ?k :: byte) > totlen - JFFS2_COMMON_HEADER_SIZE - JFFS2_DIRENT_FIXED_SIZE"
    using nsize by (simp add: word_less_nat_alt)
  have nz: "(of_nat ?k :: byte) \<noteq> 0" using nsize assms(4) by (metis unat_0 less_irrefl)
  show ?thesis
    unfolding parse_dirent_node_def Let_def f1 option.simps Option.bind.simps flds nsize f2 tx
    using t av nz by (simp only: if_False simp_thms)
qed

lemma parse_inode_encoded:
  assumes "length pre = n + 12" and "length ids = 4" and "length stamps = 12" and "length rest = 11"
    and "length data = unat (ji_csize r)" and "f = pre @ inode_body be r ids stamps rest data @ post"
    and "unat totlen = 68 + length data"
  shows "parse_inode_node f (n + 12) (of_nat n) totlen be rs =
    Some (inode_rec_list_add rs (r\<lparr>ji_file_offset := of_nat (n + 68)\<rparr>))"
proof -
  let ?fixed = "take 56 (inode_body be r ids stamps rest data)"
  have f1: "file_read f (n + 12) (unat JFFS2_INODE_FIXED_SIZE) = Some ?fixed"
    using assms by (simp add: file_read_def JFFS2_INODE_FIXED_SIZE_def length_inode_body)
  have flds: "crimp_fs_decode_u32 (drop 0 ?fixed) be = ji_ino r"
    "crimp_fs_decode_u32 (drop 4 ?fixed) be = ji_version r"
    "crimp_fs_decode_u32 (drop 8 ?fixed) be = ji_mode r"
    "crimp_fs_decode_u32 (drop 16 ?fixed) be = ji_isize r"
    "crimp_fs_decode_u32 (drop 32 ?fixed) be = ji_frag_offset r"
    "crimp_fs_decode_u32 (drop 36 ?fixed) be = ji_csize r"
    "crimp_fs_decode_u32 (drop 40 ?fixed) be = ji_dsize r" "?fixed ! 44 = ji_compr r"
    using assms
    by (simp_all add: drop_take decode_u32_take inode_body_def decode_u32_append decode_encode_u32
        nth_append)
  have t: "\<not> totlen < JFFS2_COMMON_HEADER_SIZE + JFFS2_INODE_FIXED_SIZE"
    using assms(7) by (simp add: JFFS2_COMMON_HEADER_SIZE_def JFFS2_INODE_FIXED_SIZE_def word_less_nat_alt)
  have "unat (totlen - JFFS2_COMMON_HEADER_SIZE - JFFS2_INODE_FIXED_SIZE) = length data"
    using assms(7) unat_minus_small [of 68 totlen]
    by (simp add: JFFS2_COMMON_HEADER_SIZE_def JFFS2_INODE_FIXED_SIZE_def word_le_nat_alt diff_diff_eq)
  then have av: "\<not> ji_csize r > totlen - JFFS2_COMMON_HEADER_SIZE - JFFS2_INODE_FIXED_SIZE"
    using assms(5) by (simp add: word_less_nat_alt)
  have off: "of_nat n + ucast JFFS2_COMMON_HEADER_SIZE + ucast JFFS2_INODE_FIXED_SIZE = (of_nat (n + 68) :: u64)"
    by (simp add: JFFS2_COMMON_HEADER_SIZE_def JFFS2_INODE_FIXED_SIZE_def)
  show ?thesis
    unfolding parse_inode_node_def Let_def f1 option.simps Option.bind.simps flds off
    using t av by (cases r) simp
qed

lemma length_encode_item:
  "log_item_wf be item \<Longrightarrow> 4 dvd length (encode_item be item)"
  by (cases item) (auto simp: length_encode_node)

text \<open>One encoded node is read and the scan goes on behind its padding.\<close>

lemma scan_log_encoded_node:
  assumes "length f < 2 ^ 63" and "f = pre @ encode_node be ty crc body @ post"
    and "4 dvd length pre" and "length crc = 4" and "12 + length body < 4294967296"
  shows "scan_log_from f (of_nat (length pre)) (of_nat (length f)) be ds rs =
    (case scan_node f (of_nat (length pre)) ty (of_nat (12 + length body)) be ds rs of None \<Rightarrow> None
     | Some (ds', rs') \<Rightarrow>
         scan_log_from f (of_nat (length (pre @ encode_node be ty crc body))) (of_nat (length f)) be ds' rs')"
proof -
  let ?n = "length pre"
  let ?t = "of_nat (12 + length body) :: u32"
  have ut: "unat ?t = 12 + length body" using assms(5) by (rule unat_u32_of_nat)
  have len: "length (encode_node be ty crc body) = (12 + length body + 3) div 4 * 4"
    by (rule length_encode_node [OF assms(4)])
  then have fits: "?n + (12 + length body) \<le> length f" unfolding assms(2) by simp
  have m: "magic_at f be ?n" and ty: "crimp_fs_decode_u16 (drop (?n + 2) f) be = ty"
    and tl: "crimp_fs_decode_u32 (drop (?n + 4) f) be = ?t"
    unfolding assms(2) magic_at_def encode_node_def
    by (simp_all add: decode_u16_append decode_u32_append decode_encode_u16 decode_encode_u32)
  have "(?n + (12 + length body) + 3) div 4 * 4 = ?n + (12 + length body + 3) div 4 * 4"
  proof -
    obtain k where "?n = k * 4" using assms(3) by (auto simp: mult.commute elim!: dvdE)
    then have "?n + (12 + length body) + 3 = 12 + length body + 3 + k * 4" by simp
    then show ?thesis unfolding \<open>?n = k * 4\<close> by (simp only: div_mult_self1 distrib_right)
  qed
  then have nx: "(?n + (12 + length body) + 3) div 4 * 4 = length (pre @ encode_node be ty crc body)"
    unfolding len length_append by simp
  show ?thesis
    using m fits
    by (subst scan_log_header [OF assms(1)]) (simp_all only: Let_def ty tl ut nx, simp_all)
qed

text \<open>The scan over one item of each kind.\<close>

lemma scan_log_dirent:
  assumes "log_item_wf be (LogDirent r crc mctime rest)" and "length f < 2 ^ 63" and "4 dvd length pre"
    and "f = pre @ encode_item be (LogDirent r crc mctime rest) @ post"
  shows "scan_log_from f (of_nat (length pre)) (of_nat (length f)) be ds rs =
    scan_log_from f (of_nat (length (pre @ encode_item be (LogDirent r crc mctime rest)))) (of_nat (length f)) be
      (dirent_list_add ds (jd_pino r) (jd_version r) (jd_ino r) (jd_name r)) rs"
proof -
  let ?body = "dirent_body be r mctime rest"
  let ?hdr = "encode_u16 JFFS2_MAGIC be @ encode_u16 JFFS2_NODETYPE_DIRENT be @ encode_u32 (of_nat (12 + length ?body)) be @ crc"
  have w: "length crc = 4" "length mctime = 4" "length rest = 11" "0 < length (jd_name r)" "length (jd_name r) < 256"
    using assms(1) by auto
  have len: "length ?body = 28 + length (jd_name r)" by (rule length_dirent_body [OF w(2,3)])
  have "parse_dirent_node f (length pre + 12) (of_nat (12 + length ?body)) be ds =
      Some (dirent_list_add ds (jd_pino r) (jd_version r) (jd_ino r) (jd_name r))"
  proof (rule parse_dirent_encoded [of "pre @ ?hdr"])
    show "f = (pre @ ?hdr) @ ?body @ node_padding (12 + length ?body) @ post"
      using assms(4) by (simp add: encode_node_def)
    show "unat (of_nat (12 + length ?body) :: u32) = 40 + length (jd_name r)"
      using len w(5) by (subst unat_u32_of_nat) auto
  qed (use w in auto)
  then have "scan_node f (of_nat (length pre)) JFFS2_NODETYPE_DIRENT (of_nat (12 + length ?body)) be ds rs =
      Some (dirent_list_add ds (jd_pino r) (jd_version r) (jd_ino r) (jd_name r), rs)"
    using assms(2,4)
    by (simp add: scan_node_def Let_def unat_of_nat_small JFFS2_NODETYPE_DIRENT_def
        JFFS2_NODETYPE_INODE_def JFFS2_COMMON_HEADER_SIZE_def)
  with scan_log_encoded_node [OF assms(2) _ assms(3) w(1), of be JFFS2_NODETYPE_DIRENT ?body post ds rs] assms(4) len w(5)
  show ?thesis by simp
qed

lemma scan_log_inode:
  assumes "log_item_wf be (LogInode r crc ids stamps rest data)" and "length f < 2 ^ 63" and "4 dvd length pre"
    and "f = pre @ encode_item be (LogInode r crc ids stamps rest data) @ post"
  shows "scan_log_from f (of_nat (length pre)) (of_nat (length f)) be ds rs =
    scan_log_from f (of_nat (length (pre @ encode_item be (LogInode r crc ids stamps rest data)))) (of_nat (length f)) be
      ds (inode_rec_list_add rs (r\<lparr>ji_file_offset := of_nat (length pre + 68)\<rparr>))"
proof -
  let ?body = "inode_body be r ids stamps rest data"
  let ?hdr = "encode_u16 JFFS2_MAGIC be @ encode_u16 JFFS2_NODETYPE_INODE be @ encode_u32 (of_nat (12 + length ?body)) be @ crc"
  have w: "length crc = 4" "length ids = 4" "length stamps = 12" "length rest = 11"
      "length data = unat (ji_csize r)" "ji_csize r \<le> 0xFFFFFF00"
    using assms(1) by auto
  have len: "length ?body = 56 + length data" by (rule length_inode_body [OF w(2,3,4)])
  have small: "12 + length ?body < 4294967296" using w(5,6) len by (simp add: word_le_nat_alt)
  have "parse_inode_node f (length pre + 12) (of_nat (length pre)) (of_nat (12 + length ?body)) be rs =
      Some (inode_rec_list_add rs (r\<lparr>ji_file_offset := of_nat (length pre + 68)\<rparr>))"
  proof (rule parse_inode_encoded [of "pre @ ?hdr"])
    show "f = (pre @ ?hdr) @ ?body @ node_padding (12 + length ?body) @ post"
      using assms(4) by (simp add: encode_node_def)
    show "unat (of_nat (12 + length ?body) :: u32) = 68 + length data"
      using unat_u32_of_nat [OF small] len by simp
  qed (use w in auto)
  then have "scan_node f (of_nat (length pre)) JFFS2_NODETYPE_INODE (of_nat (12 + length ?body)) be ds rs =
      Some (ds, inode_rec_list_add rs (r\<lparr>ji_file_offset := of_nat (length pre + 68)\<rparr>))"
    using assms(2,4)
    by (simp add: scan_node_def Let_def unat_of_nat_small JFFS2_NODETYPE_DIRENT_def
        JFFS2_NODETYPE_INODE_def JFFS2_COMMON_HEADER_SIZE_def)
  with scan_log_encoded_node [OF assms(2) _ assms(3) w(1) small, of be JFFS2_NODETYPE_INODE post ds rs] assms(4)
  show ?thesis by simp
qed

lemma scan_log_other:
  assumes "log_item_wf be (LogOther ty crc body)" and "length f < 2 ^ 63" and "4 dvd length pre"
    and "f = pre @ encode_item be (LogOther ty crc body) @ post"
  shows "scan_log_from f (of_nat (length pre)) (of_nat (length f)) be ds rs =
    scan_log_from f (of_nat (length (pre @ encode_item be (LogOther ty crc body)))) (of_nat (length f)) be ds rs"
proof -
  have w: "length crc = 4" "ty \<noteq> JFFS2_NODETYPE_DIRENT" "ty \<noteq> JFFS2_NODETYPE_INODE"
      "(of_nat (length body) :: u64) \<le> 0xFFFFFF00"
    using assms(1) by auto
  have "length body < 18446744073709551616" using assms(2,4) by (simp add: encode_node_def)
  then have small: "12 + length body < 4294967296"
    using w(4) by (simp add: word_le_nat_alt unat_of_nat_small)
  have "scan_node f (of_nat (length pre)) ty (of_nat (12 + length body)) be ds rs = Some (ds, rs)"
    using w by (simp add: scan_node_def)
  with scan_log_encoded_node [OF assms(2) _ assms(3) w(1) small, of be ty post ds rs] assms(4)
  show ?thesis by simp
qed

lemma scan_log_filler:
  assumes "log_item_wf be (LogGap bytes)" and "length f < 2 ^ 63"
    and "f = pre @ encode_item be (LogGap bytes) @ post"
  shows "scan_log_from f (of_nat (length pre)) (of_nat (length f)) be ds rs =
    scan_log_from f (of_nat (length (pre @ encode_item be (LogGap bytes)))) (of_nat (length f)) be ds rs"
proof -
  have w: "length bytes = 4" "crimp_fs_decode_u16 bytes be \<noteq> JFFS2_MAGIC" using assms(1) by auto
  have "take 4 (drop (length pre) f) = bytes" using assms(3) w by simp
  then have "\<not> magic_at f be (length pre)"
    using w(2) decode_u16_take [of 4 "drop (length pre) f" be] by (simp add: magic_at_def)
  moreover have "length pre + 4 \<le> length f" using assms(3) w by simp
  ultimately show ?thesis using scan_log_gap [OF assms(2), of "length pre" be ds rs] w by simp
qed

lemma scan_log_items:
  assumes "list_all (log_item_wf be) items" and "4 dvd length pre"
    and "f = pre @ concat (map (encode_item be) items)" and "length f < 2 ^ 63"
  shows "map_option (\<lambda>(ds, rs). (v_items ds, v_items rs))
      (scan_log_from f (of_nat (length pre)) (of_nat (length f)) be ds rs) =
    Some (v_items ds @ log_dirents items, v_items rs @ log_inodes be (length pre) items)"
  using assms
proof (induction items arbitrary: pre ds rs)
  case Nil
  then have "scan_log_from f (of_nat (length pre)) (of_nat (length f)) be ds rs = Some (ds, rs)"
    by (intro scan_log_end) auto
  then show ?case by simp
next
  case (Cons item items)
  have wf: "log_item_wf be item" "list_all (log_item_wf be) items" using Cons.prems(1) by auto
  have f: "f = pre @ encode_item be item @ concat (map (encode_item be) items)" using Cons.prems(3) by simp
  have "4 dvd length (pre @ encode_item be item)" using Cons.prems(2) length_encode_item [OF wf(1)] by simp
  note IH = Cons.IH [OF wf(2) this _ Cons.prems(4), unfolded append_assoc, OF f]
  note here = Cons.prems(4,2) f
  show ?case
  proof (cases item)
    case (LogDirent r crc mctime rest)
    show ?thesis
      unfolding LogDirent
      by (subst scan_log_dirent [OF wf(1) [unfolded LogDirent] here(1,2) here(3) [unfolded LogDirent]]) (unfold IH [unfolded LogDirent], simp add: dirent_list_add_def)
  next
    case (LogInode r crc ids stamps rest data)
    show ?thesis
      unfolding LogInode
      by (subst scan_log_inode [OF wf(1) [unfolded LogInode] here(1,2) here(3) [unfolded LogInode]]) (unfold IH [unfolded LogInode], simp add: inode_rec_list_add_def)
  next
    case (LogOther ty crc body)
    show ?thesis
      unfolding LogOther
      by (subst scan_log_other [OF wf(1) [unfolded LogOther] here(1,2) here(3) [unfolded LogOther]]) (unfold IH [unfolded LogOther], simp)
  next
    case (LogGap bytes)
    show ?thesis
      unfolding LogGap
      by (subst scan_log_filler [OF wf(1) [unfolded LogGap] here(1) here(3) [unfolded LogGap]]) (unfold IH [unfolded LogGap], simp)
  qed
qed

section \<open>The scan invents no record\<close>

text \<open>
  A node of the image, and the records that are decoded from it: a directory entry whose
  name lies in the node, an inode record whose data do.
\<close>

definition node_size :: "byte list \<Rightarrow> bool \<Rightarrow> nat \<Rightarrow> nat" where
  "node_size f be n = unat (crimp_fs_decode_u32 (drop (n + 4) f) be)"

definition node_at :: "byte list \<Rightarrow> bool \<Rightarrow> u16 \<Rightarrow> nat \<Rightarrow> bool" where
  "node_at f be ty n \<longleftrightarrow> 4 dvd n \<and> magic_at f be n \<and> crimp_fs_decode_u16 (drop (n + 2) f) be = ty \<and>
     n + node_size f be n \<le> length f"

definition dirent_node :: "byte list \<Rightarrow> bool \<Rightarrow> jffs2_dirent_rec \<Rightarrow> nat \<Rightarrow> bool" where
  "dirent_node f be r n \<longleftrightarrow>
     node_at f be JFFS2_NODETYPE_DIRENT n \<and> 40 + length (jd_name r) \<le> node_size f be n \<and>
     0 < length (jd_name r) \<and> length (jd_name r) < 256 \<and>
     jd_name r = text_of (take (length (jd_name r)) (drop (n + 40) f)) \<and>
     jd_pino r = crimp_fs_decode_u32 (drop (n + 12) f) be \<and>
     jd_version r = crimp_fs_decode_u32 (drop (n + 16) f) be \<and>
     jd_ino r = crimp_fs_decode_u32 (drop (n + 20) f) be"

definition inode_node :: "byte list \<Rightarrow> bool \<Rightarrow> jffs2_inode_rec \<Rightarrow> nat \<Rightarrow> bool" where
  "inode_node f be r n \<longleftrightarrow>
     node_at f be JFFS2_NODETYPE_INODE n \<and> 68 + unat (ji_csize r) \<le> node_size f be n \<and>
     unat (ji_file_offset r) = n + 68 \<and>
     ji_ino r = crimp_fs_decode_u32 (drop (n + 12) f) be \<and>
     ji_version r = crimp_fs_decode_u32 (drop (n + 16) f) be \<and>
     ji_mode r = crimp_fs_decode_u32 (drop (n + 20) f) be \<and>
     ji_isize r = crimp_fs_decode_u32 (drop (n + 28) f) be \<and>
     ji_frag_offset r = crimp_fs_decode_u32 (drop (n + 44) f) be \<and>
     ji_csize r = crimp_fs_decode_u32 (drop (n + 48) f) be \<and>
     ji_dsize r = crimp_fs_decode_u32 (drop (n + 52) f) be \<and> ji_compr r = f ! (n + 56)"

lemma file_read_bytes: "file_read f pos n = Some bs \<Longrightarrow> 0 < n \<Longrightarrow> bs = take n (drop pos f)"
  by (auto simp: file_read_def split: if_splits)

lemma parse_dirent_node_decodes:
  assumes "parse_dirent_node f (n + 12) (crimp_fs_decode_u32 (drop (n + 4) f) be) be ds = Some ds'"
    and "node_at f be JFFS2_NODETYPE_DIRENT n"
  shows "\<exists>r. v_items ds' = v_items ds @ [r] \<and> dirent_node f be r n"
proof -
  let ?t = "crimp_fs_decode_u32 (drop (n + 4) f) be"
  from assms(1) obtain fixed name where t: "\<not> ?t < JFFS2_COMMON_HEADER_SIZE + JFFS2_DIRENT_FIXED_SIZE"
    and fixed: "file_read f (n + 12) (unat JFFS2_DIRENT_FIXED_SIZE) = Some fixed"
    and k: "fixed ! 16 \<noteq> 0" "\<not> ucast (fixed ! 16) > ?t - JFFS2_COMMON_HEADER_SIZE - JFFS2_DIRENT_FIXED_SIZE"
    and name: "file_read f (n + 12 + unat JFFS2_DIRENT_FIXED_SIZE) (unat (fixed ! 16)) = Some name"
    and ds': "ds' = dirent_list_add ds (crimp_fs_decode_u32 (drop 0 fixed) be) (crimp_fs_decode_u32 (drop 4 fixed) be)
      (crimp_fs_decode_u32 (drop 8 fixed) be) (text_of name)"
    unfolding parse_dirent_node_def Let_def by (auto simp: bind_eq_Some_conv simp del: drop0 split: if_splits)
  have size: "unat JFFS2_DIRENT_FIXED_SIZE = 28" by (simp add: JFFS2_DIRENT_FIXED_SIZE_def)
  have bytes: "fixed = take 28 (drop (n + 12) f)" using file_read_bytes [OF fixed] by (simp add: size)
  have t40: "40 \<le> unat ?t" using t
    by (simp add: JFFS2_COMMON_HEADER_SIZE_def JFFS2_DIRENT_FIXED_SIZE_def word_less_nat_alt)
  then have "unat (?t - 40) = unat ?t - 40" using unat_minus_small [of 40 ?t] by (simp add: word_le_nat_alt)
  then have len: "40 + unat (fixed ! 16) \<le> unat ?t" "0 < unat (fixed ! 16)"
    using k t40 by (simp_all add: JFFS2_COMMON_HEADER_SIZE_def JFFS2_DIRENT_FIXED_SIZE_def word_less_nat_alt unat_gt_0)
  have name': "name = take (unat (fixed ! 16)) (drop (n + 40) f)" "length name = unat (fixed ! 16)"
    using file_read_bytes [OF name len(2)] file_read_length [OF name] by (simp_all add: size add.commute)
  let ?r = "\<lparr>jd_pino = crimp_fs_decode_u32 (drop 0 fixed) be, jd_version = crimp_fs_decode_u32 (drop 4 fixed) be,
      jd_ino = crimp_fs_decode_u32 (drop 8 fixed) be, jd_name = text_of name\<rparr>"
  have k: "length (jd_name ?r) = unat (fixed ! 16)" by (simp add: name'(2))
  have "dirent_node f be ?r n"
    unfolding dirent_node_def k using assms(2) len name'(1) unat_byte_less [of "fixed ! 16"]
    by (simp add: node_size_def bytes drop_take decode_u32_take add.commute)
  then show ?thesis by (auto simp: ds' dirent_list_add_def)
qed

lemma parse_inode_node_decodes:
  assumes "parse_inode_node f (n + 12) (of_nat n) (crimp_fs_decode_u32 (drop (n + 4) f) be) be rs = Some rs'"
    and "node_at f be JFFS2_NODETYPE_INODE n" and "n < 2 ^ 63"
  shows "\<exists>r. v_items rs' = v_items rs @ [r] \<and> inode_node f be r n"
proof -
  let ?t = "crimp_fs_decode_u32 (drop (n + 4) f) be"
  from assms(1) obtain fixed r where t: "\<not> ?t < JFFS2_COMMON_HEADER_SIZE + JFFS2_INODE_FIXED_SIZE"
    and fixed: "file_read f (n + 12) (unat JFFS2_INODE_FIXED_SIZE) = Some fixed"
    and k: "\<not> ji_csize r > ?t - JFFS2_COMMON_HEADER_SIZE - JFFS2_INODE_FIXED_SIZE"
    and rs': "rs' = inode_rec_list_add rs r"
    and r: "r = \<lparr>ji_ino = crimp_fs_decode_u32 (drop 0 fixed) be, ji_version = crimp_fs_decode_u32 (drop 4 fixed) be,
      ji_mode = crimp_fs_decode_u32 (drop 8 fixed) be, ji_isize = crimp_fs_decode_u32 (drop 16 fixed) be,
      ji_frag_offset = crimp_fs_decode_u32 (drop 32 fixed) be, ji_csize = crimp_fs_decode_u32 (drop 36 fixed) be,
      ji_dsize = crimp_fs_decode_u32 (drop 40 fixed) be, ji_compr = fixed ! 44,
      ji_file_offset = of_nat n + ucast JFFS2_COMMON_HEADER_SIZE + ucast JFFS2_INODE_FIXED_SIZE\<rparr>"
    unfolding parse_inode_node_def Let_def by (auto simp: bind_eq_Some_conv simp del: drop0 split: if_splits)
  have bytes: "fixed = take 56 (drop (n + 12) f)"
    using file_read_bytes [OF fixed] by (simp add: JFFS2_INODE_FIXED_SIZE_def)
  have "length fixed = 56" using file_read_length [OF fixed] by (simp add: JFFS2_INODE_FIXED_SIZE_def)
  then have l: "n + 68 \<le> length f" by (simp add: bytes)
  have t68: "68 \<le> unat ?t" using t
    by (simp add: JFFS2_COMMON_HEADER_SIZE_def JFFS2_INODE_FIXED_SIZE_def word_less_nat_alt)
  then have "unat (?t - 68) = unat ?t - 68" using unat_minus_small [of 68 ?t] by (simp add: word_le_nat_alt)
  then have len: "68 + unat (ji_csize r) \<le> unat ?t"
    using k t68 by (simp add: JFFS2_COMMON_HEADER_SIZE_def JFFS2_INODE_FIXED_SIZE_def word_less_nat_alt)
  have "ji_file_offset r = of_nat (n + 68)"
    by (simp add: r JFFS2_COMMON_HEADER_SIZE_def JFFS2_INODE_FIXED_SIZE_def)
  then have off: "unat (ji_file_offset r) = n + 68" using assms(3) unat_of_nat_small [of "n + 68"] by simp
  have "fixed ! 44 = f ! (n + 56)" using l by (simp add: bytes add.commute)
  then have "inode_node f be r n"
    using assms(2) len off by (simp add: inode_node_def node_size_def r bytes drop_take decode_u32_take add.commute)
  then show ?thesis by (auto simp: rs' inode_rec_list_add_def)
qed

text \<open>One node, and then the whole scan from an aligned position on.\<close>

lemma scan_node_decodes:
  assumes "scan_node f (of_nat n) ty (crimp_fs_decode_u32 (drop (n + 4) f) be) be ds rs = Some (ds', rs')"
    and "node_at f be ty n" and "n < 2 ^ 63"
  shows "(\<forall>r \<in> set (v_items ds') - set (v_items ds). dirent_node f be r n) \<and>
    (\<forall>r \<in> set (v_items rs') - set (v_items rs). inode_node f be r n)"
proof -
  have off: "unat (of_nat n :: u64) + unat JFFS2_COMMON_HEADER_SIZE = n + 12"
    using assms(3) unat_of_nat_small [of n] by (simp add: JFFS2_COMMON_HEADER_SIZE_def)
  let ?t = "crimp_fs_decode_u32 (drop (n + 4) f) be"
  from assms(1) have "(if ty = JFFS2_NODETYPE_DIRENT then parse_dirent_node f (n + 12) ?t be ds else Some ds) = Some ds'"
    and "(if ty = JFFS2_NODETYPE_INODE then parse_inode_node f (n + 12) (of_nat n) ?t be rs else Some rs) = Some rs'"
    unfolding scan_node_def Let_def off by (auto simp: bind_eq_Some_conv simp del: of_nat_add)
  then show ?thesis
    using parse_dirent_node_decodes [of f n be ds ds'] parse_inode_node_decodes [of f n be rs rs'] assms(2,3)
    by (fastforce split: if_splits)
qed

lemma scan_log_decodes:
  assumes "length f < 2 ^ 63" and "4 dvd n" and "n \<le> length f + 3"
    and "scan_log_from f (of_nat n) (of_nat (length f)) be ds rs = Some (ds', rs')"
    and "\<forall>r \<in> set (v_items ds). \<exists>k < length f. dirent_node f be r k"
    and "\<forall>r \<in> set (v_items rs). \<exists>k < length f. inode_node f be r k"
  shows "(\<forall>r \<in> set (v_items ds'). \<exists>k < length f. dirent_node f be r k) \<and>
    (\<forall>r \<in> set (v_items rs'). \<exists>k < length f. inode_node f be r k)"
  using assms(2-)
proof (induction "length f + 3 - n" arbitrary: n ds rs rule: less_induct)
  case less
  show ?case
  proof (cases "n + 12 \<le> length f")
    case False
    then have "scan_log_from f (of_nat n) (of_nat (length f)) be ds rs = Some (ds, rs)"
      using scan_log_end assms(1) less.prems(2) by simp
    with less.prems show ?thesis by simp
  next
    case True
    note scan = less.prems(3) [unfolded scan_log_header [OF assms(1) True]]
    show ?thesis
    proof (cases "magic_at f be n")
      case m: False
      note next_node = find_next_node_first [OF assms(1), of n be]
      show ?thesis
      proof (cases "List.find (magic_at f be) (node_positions f n)")
        case None
        with scan m next_node True less.prems show ?thesis by simp
      next
        case (Some p)
        then have "magic_at f be p" "p \<in> set (node_positions f n)" by (auto dest: find_SomeD)
        then have p: "n < p" "p \<le> length f" "4 dvd p"
          using m less.prems(1) by (auto simp: node_positions_def intro!: le_neq_implies_less)
        show ?thesis
          by (rule less.hyps [of p ds rs]) (use p scan m next_node Some True less.prems in auto)
      qed
    next
      case m: True
      let ?t = "crimp_fs_decode_u32 (drop (n + 4) f) be"
      let ?next = "(n + unat ?t + 3) div 4 * 4"
      from scan m obtain ds1 rs1 where t: "12 \<le> unat ?t" "n + unat ?t \<le> length f"
        and node: "scan_node f (of_nat n) (crimp_fs_decode_u16 (drop (n + 2) f) be) ?t be ds rs = Some (ds1, rs1)"
        and rest: "scan_log_from f (of_nat ?next) (of_nat (length f)) be ds1 rs1 = Some (ds', rs')"
        by (auto simp: Let_def simp del: of_nat_mult split: if_splits option.splits)
      have lt: "n < length f" using True by simp
      have "node_at f be (crimp_fs_decode_u16 (drop (n + 2) f) be) n"
        using m t less.prems(1) by (simp add: node_at_def node_size_def)
      note new = scan_node_decodes [OF node this order.strict_trans [OF lt assms(1)]]
      show ?thesis
      proof (rule less.hyps [OF _ _ _ rest])
        show "length f + 3 - ?next < length f + 3 - n" "4 dvd ?next" "?next \<le> length f + 3" using t by auto
        show "\<forall>r \<in> set (v_items ds1). \<exists>k < length f. dirent_node f be r k"
          "\<forall>r \<in> set (v_items rs1). \<exists>k < length f. inode_node f be r k"
          using new lt less.prems(4,5) by (metis Diff_iff)+
      qed
    qed
  qed
qed

section \<open>A sample log\<close>

text \<open>
  The file \<open>a\<close> of four bytes, written whole and then patched from offset one on by a
  compressed fragment, and the name \<open>b\<close>, created and deleted.
\<close>

definition sample_inode_rec :: "u32 \<Rightarrow> u32 \<Rightarrow> u32 \<Rightarrow> u32 \<Rightarrow> byte \<Rightarrow> jffs2_inode_rec" where
  "sample_inode_rec version off csize dsize compr =
     \<lparr>ji_ino = 2, ji_version = version, ji_mode = 0x81A4, ji_isize = 4, ji_frag_offset = off,
      ji_csize = csize, ji_dsize = dsize, ji_compr = compr, ji_file_offset = 0\<rparr>"

definition sample_dirent :: "u32 \<Rightarrow> u32 \<Rightarrow> string \<Rightarrow> jffs2_dirent_rec" where
  "sample_dirent version ino name = \<lparr>jd_pino = 1, jd_version = version, jd_ino = ino, jd_name = name\<rparr>"

definition sample_log :: "log_item list" where
  "sample_log =
     (let z = replicate 4 0
      in [LogDirent (sample_dirent 2 0 ''b'') z z (replicate 11 0),
          LogInode (sample_inode_rec 2 1 2 3 JFFS2_COMPR_ZLIB) z z (replicate 12 0) (replicate 11 0) [7, 8],
          LogGap [0xFF, 0xFF, 0xFF, 0xFF],
          LogDirent (sample_dirent 1 2 ''b'') z z (replicate 11 0),
          LogOther 0x2003 z [],
          LogInode (sample_inode_rec 1 0 4 4 JFFS2_COMPR_NONE) z z (replicate 12 0) (replicate 11 0) [9, 9, 9, 9],
          LogDirent (sample_dirent 3 2 ''a'') z z (replicate 11 0)])"

definition sample_jffs2 :: "byte list" where
  "sample_jffs2 = concat (map (encode_item False) sample_log)"

section \<open>Properties\<close>

text \<open>
  C14: The scan of a log written node by node, in either byte order, with unrelated
  node types and runs of erase-block filler anywhere between the nodes, returns every
  directory-entry record and every inode record in log order, each inode record with
  the position of its data in the image.
\<close>

theorem jffs2_scan_reads_log:
  assumes "list_all (log_item_wf be) items"
    and "f = concat (map (encode_item be) items)" and "length f < 2 ^ 63"
  shows "map_option (\<lambda>(ds, rs). (v_items ds, v_items rs)) (scan_log f (jffs2_file_size f) be) =
    Some (log_dirents items, log_inodes be 0 items)"
  using scan_log_items [of be items "[]" f vec_init vec_init] assms
  by (simp add: scan_log_def jffs2_file_size_def)

theorem jffs2_scan_reads_log_witness:
  "map_option (\<lambda>(ds, rs). (v_items ds, length (v_items rs)))
     (scan_log sample_jffs2 (jffs2_file_size sample_jffs2) False) =
   Some ([sample_dirent 2 0 ''b'', sample_dirent 1 2 ''b'', sample_dirent 3 2 ''a''], 2)"
proof -
  have wf: "list_all (log_item_wf False) sample_log" by code_simp
  have "length sample_jffs2 < 1000" by code_simp
  then have len: "length sample_jffs2 < 2 ^ 63" by simp
  have "map_option (\<lambda>(ds, rs). (ds, length rs))
      (map_option (\<lambda>(ds, rs). (v_items ds, v_items rs)) (scan_log sample_jffs2 (jffs2_file_size sample_jffs2) False)) =
    Some (log_dirents sample_log, length (log_inodes False 0 sample_log))"
    unfolding jffs2_scan_reads_log [OF wf sample_jffs2_def len] by simp
  moreover have "log_dirents sample_log = [sample_dirent 2 0 ''b'', sample_dirent 1 2 ''b'', sample_dirent 3 2 ''a'']"
    "length (log_inodes False 0 sample_log) = 2" by code_simp+
  ultimately show ?thesis by (simp add: option.map_comp o_def case_prod_beta)
qed

text \<open>
  C15: On any image, every directory-entry record of the scan is decoded from an aligned
  node that starts with the magic and ends inside the image, its name of 1 to 255 bytes
  within that node; every inode record from such a node that also holds all the data the
  record refers to.
\<close>

theorem jffs2_scan_sound:
  assumes "length f < 2 ^ 63" and "scan_log f (jffs2_file_size f) be = Some (ds, rs)"
  shows "list_all (\<lambda>r. list_ex (dirent_node f be r) [0..<length f]) (v_items ds) \<and>
    list_all (\<lambda>r. list_ex (inode_node f be r) [0..<length f]) (v_items rs)"
  using scan_log_decodes [OF assms(1), of 0 be vec_init vec_init ds rs] assms(2)
  by (simp add: scan_log_def jffs2_file_size_def list_all_iff list_ex_iff Bex_def)

theorem jffs2_scan_sound_witness:
  "\<exists>ds rs. scan_log sample_jffs2 (jffs2_file_size sample_jffs2) False = Some (ds, rs) \<and>
     v_items ds \<noteq> [] \<and> v_items rs \<noteq> [] \<and>
     list_all (\<lambda>r. list_ex (inode_node sample_jffs2 False r) [0..<length sample_jffs2]) (v_items rs)"
proof -
  have "length sample_jffs2 < 1000" by code_simp
  then have len: "length sample_jffs2 < 2 ^ 63" by simp
  have "case scan_log sample_jffs2 (jffs2_file_size sample_jffs2) False of None \<Rightarrow> False
      | Some (ds, rs) \<Rightarrow> v_items ds \<noteq> [] \<and> v_items rs \<noteq> []" by code_simp
  then obtain ds rs where s: "scan_log sample_jffs2 (jffs2_file_size sample_jffs2) False = Some (ds, rs)"
      "v_items ds \<noteq> []" "v_items rs \<noteq> []" by (auto split: option.splits prod.splits)
  from jffs2_scan_sound [OF len s(1)] s show ?thesis by blast
qed

text \<open>
  C16: The gap search, read in 64 KiB chunks, returns exactly the first position that
  is a multiple of four bytes past its start, has two bytes before the end of the image
  and holds the magic; None when there is no such position.
\<close>

theorem jffs2_next_node_first:
  assumes "length f < 2 ^ 63" and "n \<le> length f"
  shows "find_next_node f (of_nat n) (jffs2_file_size f) be =
    map_option of_nat (List.find (magic_at f be) (node_positions f n))"
  unfolding jffs2_file_size_def by (rule find_next_node_first [OF assms])

theorem jffs2_next_node_first_witness:
  "find_next_node [0xFF, 0xFF, 0xFF, 0xFF, 0x85, 0x19] 0 6 False = Some 4"
proof -
  let ?f = "[0xFF, 0xFF, 0xFF, 0xFF, 0x85, 0x19] :: byte list"
  have "List.find (magic_at ?f False) (node_positions ?f 0) = Some 4" by code_simp
  then show ?thesis
    using jffs2_next_node_first [of ?f 0 False] by (simp add: jffs2_file_size_def)
qed

end
