(* ===== verification/Jffs2Records.thy ===== *)
theory Jffs2Records
  imports Jffs2Scan
begin

text \<open>
  The records of a JFFS2 log in order: the two sorts that bring the records of a name (or
  of an inode) together with the newest last, the binary searches into them, and the loop
  over the live children of a directory; and that what is found is the newest record.
\<close>

section \<open>Sorting and searching the records\<close>

text \<open>\<open>memcmp\<close> of two buffers of one length: only its sign is specified.\<close>

fun c_memcmp :: "string \<Rightarrow> string \<Rightarrow> int" where
  "c_memcmp (a # as) (b # bs) = (if a = b then c_memcmp as bs else if a < b then -1 else 1)"
| "c_memcmp _ _ = 0"

definition dirent_name_cmp :: "string \<Rightarrow> string \<Rightarrow> int" where
  "dirent_name_cmp a b =
     (let minlen = (if length a < length b then length a else length b);
          c = c_memcmp (take minlen a) (take minlen b)
      in if c \<noteq> 0 then c
         else if length a \<noteq> length b then (if length a < length b then -1 else 1)
         else 0)"

definition dirent_cmp :: "jffs2_dirent_rec \<Rightarrow> jffs2_dirent_rec \<Rightarrow> int" where
  "dirent_cmp da db =
     (if jd_pino da \<noteq> jd_pino db then (if jd_pino da < jd_pino db then -1 else 1)
      else let name_cmp = dirent_name_cmp (jd_name da) (jd_name db)
           in if name_cmp \<noteq> 0 then name_cmp
              else if jd_version da \<noteq> jd_version db
                   then (if jd_version da < jd_version db then -1 else 1)
              else 0)"

definition inode_rec_cmp :: "jffs2_inode_rec \<Rightarrow> jffs2_inode_rec \<Rightarrow> int" where
  "inode_rec_cmp ia ib =
     (if ji_ino ia \<noteq> ji_ino ib then (if ji_ino ia < ji_ino ib then -1 else 1)
      else if ji_version ia \<noteq> ji_version ib then (if ji_version ia < ji_version ib then -1 else 1)
      else 0)"

definition dirent_lower_bound :: "jffs2_dirent_rec list \<Rightarrow> u32 \<Rightarrow> nat" where
  "dirent_lower_bound dirents pino = lower_bound_loop jd_pino dirents pino 0 (length dirents)"

definition inode_lower_bound :: "jffs2_inode_rec list \<Rightarrow> u32 \<Rightarrow> nat" where
  "inode_lower_bound inodes ino = lower_bound_loop ji_ino inodes ino 0 (length inodes)"

text \<open>The run of records of one inode: from the lower bound while the number matches.\<close>

definition inode_run :: "jffs2_inode_rec list \<Rightarrow> u32 \<Rightarrow> jffs2_inode_rec list" where
  "inode_run inodes ino =
     takeWhile (\<lambda>r. ji_ino r = ino) (drop (inode_lower_bound inodes ino) inodes)"

definition find_inode_meta :: "jffs2_inode_rec list \<Rightarrow> u32 \<Rightarrow> jffs2_inode_rec option" where
  "find_inode_meta inodes ino = foldl (\<lambda>best r. Some r) None (inode_run inodes ino)"

section \<open>The children of a directory\<close>

record jffs2_walk_context =
  jw_codec :: codec
  jw_f :: "byte list"
  jw_dirents :: "jffs2_dirent_rec list"
  jw_inodes :: "jffs2_inode_rec list"
  jw_output_dir :: "string option"

text \<open>
  The loop over the sorted records from the first one of the directory on: each run
  of equal names is one child, its last record the winner, and a winner with inode 0
  a deletion.
\<close>

function each_live_child ::
  "(jffs2_dirent_rec \<Rightarrow> 's \<Rightarrow> unit option \<times> 's) \<Rightarrow> u32 \<Rightarrow> jffs2_dirent_rec list \<Rightarrow>
   's \<Rightarrow> unit option \<times> 's" where
  "each_live_child visit pino items st =
     (case items of [] \<Rightarrow> (Some (), st)
      | d # rest \<Rightarrow>
          if jd_pino d \<noteq> pino then (Some (), st)
          else (let run = takeWhile (\<lambda>r. jd_pino r = pino \<and> dirent_name_cmp (jd_name r) (jd_name d) = 0) rest;
                    winner = last (d # run)
                in sbind (if jd_ino winner \<noteq> 0 then visit winner else slift (Some ()))
                     (\<lambda>_. each_live_child visit pino (drop (length run) rest)) st))"
  by pat_completeness auto
termination by (relation "measure (\<lambda>(visit, pino, items, st). length items)") auto

declare each_live_child.simps [simp del]

definition for_each_live_child ::
  "jffs2_walk_context \<Rightarrow> u32 \<Rightarrow> (jffs2_dirent_rec \<Rightarrow> wstate \<Rightarrow> unit option \<times> wstate) \<Rightarrow>
   wstate \<Rightarrow> unit option \<times> wstate" where
  "for_each_live_child ctx pino visit =
     each_live_child visit pino (drop (dirent_lower_bound (jw_dirents ctx) pino) (jw_dirents ctx))"

section \<open>Laws of the comparison functions\<close>

lemma c_memcmp_sign:
  assumes "length a = length b"
  shows "(c_memcmp a b < 0 \<longleftrightarrow> a < b) \<and> (0 < c_memcmp a b \<longleftrightarrow> b < a)"
  using assms by (induction a b rule: list_induct2) auto

lemma take_less_append:
  fixes a :: "string"
  assumes "length a = length b"
  shows "a @ u < b @ v \<longleftrightarrow> a < b \<or> (a = b \<and> u < v)"
  using assms by (induction a b rule: list_induct2) auto

lemma dirent_name_cmp_sign:
  "dirent_name_cmp a b < 0 \<longleftrightarrow> a < b" "0 < dirent_name_cmp a b \<longleftrightarrow> b < a"
proof -
  let ?m = "if length a < length b then length a else length b"
  obtain u v where uv: "a = take ?m a @ u" "b = take ?m b @ v" by (metis append_take_drop_id)
  have l: "length (take ?m a) = length (take ?m b)" by simp
  have e: "length a < length b \<Longrightarrow> u = [] \<and> v \<noteq> []" "length b < length a \<Longrightarrow> v = [] \<and> u \<noteq> []"
    "length a = length b \<Longrightarrow> u = [] \<and> v = []"
    using arg_cong [OF uv(1), of length] arg_cong [OF uv(2), of length] by (auto split: if_splits)
  have o: "a < b \<longleftrightarrow> take ?m a < take ?m b \<or> (take ?m a = take ?m b \<and> u < v)"
    "b < a \<longleftrightarrow> take ?m b < take ?m a \<or> (take ?m b = take ?m a \<and> v < u)"
    using take_less_append [OF l] take_less_append [OF l [symmetric]] uv by metis+
  have z: "c_memcmp (take ?m a) (take ?m b) = 0 \<longleftrightarrow> take ?m a = take ?m b"
    using c_memcmp_sign [OF l] by (metis less_irrefl linorder_neqE)
  have n: "([] :: string) < x \<longleftrightarrow> x \<noteq> []" "\<not> x < ([] :: string)" for x by (cases x; simp)+
  show "dirent_name_cmp a b < 0 \<longleftrightarrow> a < b" "0 < dirent_name_cmp a b \<longleftrightarrow> b < a"
    unfolding dirent_name_cmp_def Let_def o
    using z e n c_memcmp_sign [OF l] by (cases "length a" "length b" rule: linorder_cases; auto)+
qed

lemma dirent_name_cmp_zero [simp]: "dirent_name_cmp a b = 0 \<longleftrightarrow> a = b"
  using dirent_name_cmp_sign [of a b] by (metis less_irrefl linorder_neqE)

abbreviation dirent_key :: "jffs2_dirent_rec \<Rightarrow> u32 \<times> string \<times> u32" where
  "dirent_key r \<equiv> (jd_pino r, jd_name r, jd_version r)"

abbreviation inode_key :: "jffs2_inode_rec \<Rightarrow> u32 \<times> u32" where
  "inode_key r \<equiv> (ji_ino r, ji_version r)"

lemma dirent_cmp_sign:
  "dirent_cmp x y < 0 \<longleftrightarrow> dirent_key x < dirent_key y" "0 < dirent_cmp x y \<longleftrightarrow> dirent_key y < dirent_key x"
  using dirent_name_cmp_sign [of "jd_name x" "jd_name y"]
  by (auto simp: dirent_cmp_def Let_def less_prod_def')

lemma inode_rec_cmp_sign:
  "inode_rec_cmp x y < 0 \<longleftrightarrow> inode_key x < inode_key y" "0 < inode_rec_cmp x y \<longleftrightarrow> inode_key y < inode_key x"
  by (auto simp: inode_rec_cmp_def less_prod_def')

interpretation dirent_order: comparator dirent_cmp
  by (rule comparator_key, rule dirent_cmp_sign(1), rule dirent_cmp_sign(2))

interpretation inode_order: comparator inode_rec_cmp
  by (rule comparator_key, rule inode_rec_cmp_sign(1), rule inode_rec_cmp_sign(2))

lemma sorted_dirents: "sorted (map dirent_key (c_qsort dirent_cmp ds))"
  by (rule sorted_key_qsort, rule dirent_cmp_sign(1), rule dirent_cmp_sign(2))

lemma sorted_inodes: "sorted (map inode_key (c_qsort inode_rec_cmp rs))"
  by (rule sorted_key_qsort, rule inode_rec_cmp_sign(1), rule inode_rec_cmp_sign(2))

lemma sorted_by_fst:
  "sorted (map (\<lambda>x. (f x, g x)) xs) \<Longrightarrow> sorted (map f xs)"
  by (auto simp: sorted_wrt_map less_eq_prod_def elim!: sorted_wrt_mono_rel [rotated])

lemma sorted_dropWhile_le:
  fixes key :: "'a \<Rightarrow> 'k::linorder"
  shows "sorted (map key xs) \<Longrightarrow> \<forall>r \<in> set (dropWhile (\<lambda>r. key r < k) xs). k \<le> key r"
  by (induction xs) (auto simp: not_less)

text \<open>
  In a sorted list the records with a given key are one run, and the lower bound
  is where it starts.
\<close>

lemma run_is_filter:
  fixes key :: "'a \<Rightarrow> 'k::linorder"
  assumes "sorted (map key xs)"
  shows "takeWhile (\<lambda>x. key x = k) (dropWhile (\<lambda>x. key x < k) xs) = filter (\<lambda>x. key x = k) xs"
  using assms
proof (induction xs)
  case (Cons x xs)
  have "filter (\<lambda>y. key y = k) ys = []" if "k < key x" "set ys \<subseteq> set xs" for ys
    using that Cons.prems by (fastforce simp: filter_empty_conv)
  moreover have "dropWhile (\<lambda>x. key x < k) xs = xs" if "key x = k"
    using that Cons.prems by (cases xs) auto
  ultimately show ?case using Cons by (auto simp: not_less_iff_gr_or_eq)
qed simp

lemma inode_run_filter:
  "sorted (map inode_key rs) \<Longrightarrow> inode_run rs ino = filter (\<lambda>r. ji_ino r = ino) rs"
  using sorted_by_fst [of ji_ino ji_version rs]
  by (simp add: inode_run_def inode_lower_bound_def drop_lower_bound run_is_filter)

lemma foldl_last: "foldl (\<lambda>best r. Some r) b xs = (if xs = [] then b else Some (last xs))"
  by (induction xs arbitrary: b) auto

lemma find_inode_meta_last:
  "find_inode_meta rs ino = (let run = inode_run rs ino in if run = [] then None else Some (last run))"
  by (simp add: find_inode_meta_def foldl_last Let_def)

section \<open>Live children are the newest records\<close>

text \<open>
  The specification of a directory: of the log's records for it, those whose version
  no other record of the same name exceeds and that are not deletions, in name order.
\<close>

definition newest :: "jffs2_dirent_rec list \<Rightarrow> jffs2_dirent_rec \<Rightarrow> bool" where
  "newest log r \<longleftrightarrow> list_all (\<lambda>r'. jd_pino r' = jd_pino r \<and> jd_name r' = jd_name r \<longrightarrow>
      jd_version r' \<le> jd_version r) log"

definition jffs2_children :: "jffs2_dirent_rec list \<Rightarrow> u32 \<Rightarrow> jffs2_dirent_rec list" where
  "jffs2_children log pino =
     c_qsort dirent_cmp (filter (\<lambda>r. jd_pino r = pino \<and> jd_ino r \<noteq> 0 \<and> newest log r) log)"

fun visit_all :: "('a \<Rightarrow> 's \<Rightarrow> unit option \<times> 's) \<Rightarrow> 'a list \<Rightarrow> 's \<Rightarrow> unit option \<times> 's" where
  "visit_all visit [] st = (Some (), st)"
| "visit_all visit (x # xs) st = sbind (visit x) (\<lambda>_. visit_all visit xs) st"

lemma filter_newest_run:
  fixes v :: "'a \<Rightarrow> 'k::linorder"
  shows "sorted_wrt (\<lambda>a b. v a < v b) xs \<Longrightarrow> xs \<noteq> [] \<Longrightarrow>
     filter (\<lambda>r. \<forall>r' \<in> set xs. v r' \<le> v r) xs = [last xs]"
proof (induction xs rule: rev_induct)
  case (snoc x xs)
  then have less: "\<forall>y \<in> set xs. v y < v x" by (simp add: sorted_wrt_append)
  then have "filter (\<lambda>r. \<forall>r' \<in> set (xs @ [x]). v r' \<le> v r) xs = []"
    by (auto simp: filter_empty_conv not_le)
  with less show ?case by (auto intro: order.strict_implies_order)
qed simp

lemma newest_append: "newest (xs @ ys) r \<longleftrightarrow> newest xs r \<and> newest ys r"
  by (simp add: newest_def)

lemma newest_other:
  "(\<And>x. x \<in> set xs \<Longrightarrow> \<not> (jd_pino x = jd_pino r \<and> jd_name x = jd_name r)) \<Longrightarrow> newest xs r"
  by (auto simp: newest_def list_all_iff)

lemma newest_same:
  "(\<And>x. x \<in> set xs \<Longrightarrow> jd_pino x = jd_pino r \<and> jd_name x = jd_name r) \<Longrightarrow>
     newest xs r \<longleftrightarrow> (\<forall>x \<in> set xs. jd_version x \<le> jd_version r)"
  by (simp add: newest_def list_all_iff)

lemma key_between:
  fixes a :: "'a::linorder" and b :: "'b::linorder" and v :: "'c::linorder"
  shows "(a, b, v) \<le> (a', b', v') \<Longrightarrow> (a', b', v') \<le> (a, b, w) \<Longrightarrow> a' = a \<and> b' = b"
  unfolding less_eq_prod_def by auto

text \<open>
  The first name of a sorted directory: the records behind its run have another name, and
  its newest record is the last one of the run.
\<close>

lemma behind_run:
  assumes "sorted (map dirent_key (d # rest))"
    and "r \<in> set (dropWhile (\<lambda>r. jd_pino r = jd_pino d \<and> jd_name r = jd_name d) rest)"
  shows "\<not> (jd_pino r = jd_pino d \<and> jd_name r = jd_name d)"
proof
  let ?same = "\<lambda>r. jd_pino r = jd_pino d \<and> jd_name r = jd_name d"
  assume r: "?same r"
  obtain e es where e: "dropWhile ?same rest = e # es" using assms(2) by (cases "dropWhile ?same rest") auto
  then have split: "rest = takeWhile ?same rest @ e # es" by (metis takeWhile_dropWhile_id)
  have "sorted (map dirent_key (d # takeWhile ?same rest @ e # es))" using assms(1) split by simp
  then have "dirent_key d \<le> dirent_key e" and "dirent_key e \<le> dirent_key r"
    using assms(2) unfolding e by (auto simp: sorted_append)
  then have "?same e" using key_between [of "jd_pino d" "jd_name d"] r by simp
  with e hd_dropWhile [of ?same rest] show False by simp
qed

lemma live_of_run:
  assumes "sorted_wrt (\<lambda>a b. dirent_key a < dirent_key b) run" and "run \<noteq> []"
    and run: "\<And>r. r \<in> set run \<Longrightarrow> jd_pino r = pino \<and> jd_name r = name"
    and other: "\<And>r. r \<in> set rest \<Longrightarrow> \<not> (jd_pino r = pino \<and> jd_name r = name)"
  shows "filter (\<lambda>r. jd_pino r = pino \<and> jd_ino r \<noteq> 0 \<and> newest (run @ rest) r) (run @ rest) =
    filter (\<lambda>r. jd_ino r \<noteq> 0) [last run] @ filter (\<lambda>r. jd_pino r = pino \<and> jd_ino r \<noteq> 0 \<and> newest rest r) rest"
proof -
  have versions: "sorted_wrt (\<lambda>a b. jd_version a < jd_version b) run"
  proof (rule sorted_wrt_mono_rel [OF _ assms(1)])
    fix a b assume "a \<in> set run" "b \<in> set run" "dirent_key a < dirent_key b"
    then show "jd_version a < jd_version b" using run [of a] run [of b] by (simp add: less_prod_def')
  qed
  have here: "newest (run @ rest) r \<longleftrightarrow> (\<forall>r' \<in> set run. jd_version r' \<le> jd_version r)" if "r \<in> set run" for r
    using newest_other [of rest r] newest_same [of run r] run other that by (auto simp: newest_append)
  have there: "newest (run @ rest) r \<longleftrightarrow> newest rest r" if "r \<in> set rest" "jd_pino r = pino" for r
    using newest_other [of run r] run other that by (fastforce simp: newest_append)
  have "filter (\<lambda>r. jd_pino r = pino \<and> jd_ino r \<noteq> 0 \<and> newest (run @ rest) r) run =
      filter (\<lambda>r. jd_ino r \<noteq> 0) (filter (\<lambda>r. \<forall>r' \<in> set run. jd_version r' \<le> jd_version r) run)"
    unfolding filter_filter by (rule filter_cong [OF refl]) (use here run in auto)
  moreover have "filter (\<lambda>r. jd_pino r = pino \<and> jd_ino r \<noteq> 0 \<and> newest (run @ rest) r) rest =
      filter (\<lambda>r. jd_pino r = pino \<and> jd_ino r \<noteq> 0 \<and> newest rest r) rest"
    by (rule filter_cong [OF refl]) (use there in auto)
  ultimately show ?thesis
    unfolding filter_append filter_newest_run [OF versions assms(2)] by simp
qed

lemma each_live_child_visits:
  assumes "sorted_wrt (\<lambda>a b. dirent_key a < dirent_key b) items" and "\<forall>r \<in> set items. pino \<le> jd_pino r"
  shows "each_live_child visit pino items st =
    visit_all visit (filter (\<lambda>r. jd_pino r = pino \<and> jd_ino r \<noteq> 0 \<and> newest items r) items) st"
  using assms
proof (induction visit pino items st rule: each_live_child.induct)
  case (1 visit pino items st)
  show ?case
  proof (cases items)
    case Nil then show ?thesis by (simp add: each_live_child.simps)
  next
    case (Cons d rest)
    show ?thesis
    proof (cases "jd_pino d = pino")
      case False
      then have "\<forall>r \<in> set items. jd_pino r \<noteq> pino"
        using "1.prems" Cons by (auto simp: less_prod_def')
      with False Cons show ?thesis by (simp add: each_live_child.simps [of visit pino] filter_False)
    next
      case True
      let ?same = "\<lambda>r. jd_pino r = pino \<and> dirent_name_cmp (jd_name r) (jd_name d) = 0"
      define run where "run = takeWhile ?same rest"
      define rest' where "rest' = dropWhile ?same rest"
      have items: "items = (d # run) @ rest'" using Cons by (simp add: run_def rest'_def)
      have drop: "drop (length run) rest = rest'" by (simp add: run_def rest'_def dropWhile_eq_drop)
      have sorted: "sorted_wrt (\<lambda>a b. dirent_key a < dirent_key b) (d # run)"
        "sorted_wrt (\<lambda>a b. dirent_key a < dirent_key b) rest'"
        using "1.prems"(1) unfolding items sorted_wrt_append by blast+
      have "sorted_wrt (\<lambda>a b. dirent_key a \<le> dirent_key b) (d # rest)"
        using "1.prems"(1) unfolding Cons by (rule sorted_wrt_mono_rel [rotated]) (rule less_imp_le)
      then have weak: "sorted (map dirent_key (d # rest))" by (simp only: sorted_wrt_map)
      have all: "filter (\<lambda>r. jd_pino r = pino \<and> jd_ino r \<noteq> 0 \<and> newest items r) items =
          filter (\<lambda>r. jd_ino r \<noteq> 0) [last (d # run)] @
          filter (\<lambda>r. jd_pino r = pino \<and> jd_ino r \<noteq> 0 \<and> newest rest' r) rest'"
        unfolding items
      proof (rule live_of_run [OF sorted(1)])
        show "r \<in> set (d # run) \<Longrightarrow> jd_pino r = pino \<and> jd_name r = jd_name d" for r
          using True by (auto simp: run_def dest: set_takeWhileD)
        show "r \<in> set rest' \<Longrightarrow> \<not> (jd_pino r = pino \<and> jd_name r = jd_name d)" for r
          using behind_run [OF weak, of r] True by (simp add: rest'_def)
      qed simp
      have IH: "each_live_child visit pino rest' st' =
          visit_all visit (filter (\<lambda>r. jd_pino r = pino \<and> jd_ino r \<noteq> 0 \<and> newest rest' r) rest') st'" for st'
        using "1.IH" [OF Cons _ refl refl, folded run_def, unfolded drop] True sorted(2) "1.prems"(2) items
        by simp
      have "each_live_child visit pino items st =
          sbind (if jd_ino (last (d # run)) \<noteq> 0 then visit (last (d # run)) else slift (Some ()))
            (\<lambda>_. each_live_child visit pino rest') st"
        by (subst each_live_child.simps)
          (simp add: Cons True Let_def drop run_def [symmetric] del: dirent_name_cmp_zero)
      then show ?thesis
        unfolding all by (simp add: ext [of "each_live_child visit pino rest'", OF IH] sbind_def slift_def)
    qed
  qed
qed

lemma newest_cong: "set xs = set ys \<Longrightarrow> newest xs r = newest ys r"
  by (simp add: newest_def list_all_iff)

lemma distinct_sorted_dirents:
  assumes "distinct (map dirent_key log)"
  shows "sorted_wrt (\<lambda>a b. dirent_key a < dirent_key b) (c_qsort dirent_cmp log)"
proof -
  have "mset (map dirent_key (c_qsort dirent_cmp log)) = mset (map dirent_key log)"
    by (simp add: mset_c_qsort)
  then have "distinct (map dirent_key (c_qsort dirent_cmp log))"
    using assms mset_eq_imp_distinct_iff by blast
  then have "sorted_wrt (<) (map dirent_key (c_qsort dirent_cmp log))"
    using sorted_dirents strict_sorted_iff by blast
  then show ?thesis by (simp add: sorted_wrt_map)
qed

lemma each_live_child_children:
  assumes "distinct (map dirent_key log)"
  shows "each_live_child visit pino (dropWhile (\<lambda>r. jd_pino r < pino) (c_qsort dirent_cmp log)) st =
    visit_all visit (jffs2_children log pino) st"
proof -
  let ?s = "c_qsort dirent_cmp log"
  define before where "before = takeWhile (\<lambda>r. jd_pino r < pino) ?s"
  define items where "items = dropWhile (\<lambda>r. jd_pino r < pino) ?s"
  have s: "?s = before @ items" by (simp add: before_def items_def)
  have strict: "sorted_wrt (\<lambda>a b. dirent_key a < dirent_key b) ?s"
    by (rule distinct_sorted_dirents [OF assms])
  have above: "\<forall>r \<in> set items. pino \<le> jd_pino r"
    using sorted_by_fst [OF sorted_dirents [of log]] unfolding items_def by (rule sorted_dropWhile_le)
  have below: "jd_pino r < pino" if "r \<in> set before" for r
    using that by (auto simp: before_def dest: set_takeWhileD)
  have new: "newest items r = newest log r" if "jd_pino r = pino" for r
  proof -
    have "newest before r" by (rule newest_other) (use below that in force)
    then have "newest items r = newest ?s r" unfolding s newest_append by simp
    then show ?thesis using newest_cong [of ?s log r] by simp
  qed
  let ?live = "\<lambda>log r. jd_pino r = pino \<and> jd_ino r \<noteq> 0 \<and> newest log r"
  have "filter (?live items) items = filter (?live log) items"
    by (rule filter_cong [OF refl]) (use new in blast)
  also have "\<dots> = filter (?live log) ?s"
    unfolding s filter_append using below by (auto simp: filter_empty_conv)
  also have "\<dots> = jffs2_children log pino"
    by (simp add: jffs2_children_def dirent_order.filter_c_qsort)
  finally have "filter (?live items) items = jffs2_children log pino" .
  moreover have "sorted_wrt (\<lambda>a b. dirent_key a < dirent_key b) items"
    using strict unfolding s sorted_wrt_append by blast
  ultimately show ?thesis
    using each_live_child_visits [OF _ above, of visit st] unfolding items_def by simp
qed

lemma dirent_lower_bound_drop:
  "sorted (map dirent_key ds) \<Longrightarrow>
     drop (dirent_lower_bound ds pino) ds = dropWhile (\<lambda>r. jd_pino r < pino) ds"
  using sorted_by_fst [of jd_pino "\<lambda>r. (jd_name r, jd_version r)" ds]
  by (simp add: dirent_lower_bound_def drop_lower_bound)

lemma for_each_live_child_children:
  assumes "distinct (map dirent_key log)" and "jw_dirents ctx = c_qsort dirent_cmp log"
  shows "for_each_live_child ctx pino visit st = visit_all visit (jffs2_children log pino) st"
  unfolding for_each_live_child_def assms(2) dirent_lower_bound_drop [OF sorted_dirents]
  by (rule each_live_child_children [OF assms(1)])

section \<open>A child that cannot be visited\<close>

text \<open>
  Whatever order the sort leaves records of one directory, name and version in: the loop
  fails when every record that may be the newest of a name is one whose visit fails.
\<close>

lemma sorted_le_last: "sorted xs \<Longrightarrow> x \<in> set xs \<Longrightarrow> x \<le> last xs"
  by (induction xs rule: rev_induct) (auto simp: sorted_append)

lemma newest_of_run:
  assumes "sorted (map dirent_key run)" and "run \<noteq> []"
    and "\<And>r. r \<in> set run \<Longrightarrow> jd_pino r = pino \<and> jd_name r = name"
    and "\<And>r. r \<in> set rest \<Longrightarrow> \<not> (jd_pino r = pino \<and> jd_name r = name)"
  shows "newest (run @ rest) (last run)"
proof -
  have l: "last run \<in> set run" using assms(2) by simp
  have "dirent_key r \<le> dirent_key (last run)" if "r \<in> set run" for r
    using sorted_le_last [OF assms(1), of "dirent_key r"] that assms(2) by (simp add: last_map)
  then have "jd_version r \<le> jd_version (last run)" if "r \<in> set run" for r
    using that assms(3) [OF that] assms(3) [OF l] by (fastforce simp: less_eq_prod_def)
  then have "newest run (last run)" using newest_same [of run "last run"] assms(3) l by auto
  moreover have "newest rest (last run)" by (rule newest_other) (use assms(3) [OF l] assms(4) in auto)
  ultimately show ?thesis by (simp add: newest_append)
qed

lemma each_live_child_fails:
  assumes "sorted (map dirent_key items)" and "\<forall>r \<in> set items. pino \<le> jd_pino r"
    and "e \<in> set items" and "jd_pino e = pino"
    and "\<And>w st. w \<in> set items \<Longrightarrow> jd_pino w = pino \<Longrightarrow> jd_name w = jd_name e \<Longrightarrow> newest items w \<Longrightarrow>
      jd_ino w \<noteq> 0 \<and> fst (visit w st) = None"
  shows "fst (each_live_child visit pino items st) = None"
  using assms
proof (induction visit pino items st rule: each_live_child.induct)
  case (1 visit pino items st)
  obtain d rest where Cons: "items = d # rest" using "1.prems"(3) by (cases items) auto
  have le: "jd_pino d \<le> jd_pino e" using "1.prems"(1,3) Cons by (auto simp: less_eq_prod_def)
  then have pino: "jd_pino d = pino" using "1.prems"(2,4) Cons by (auto intro: antisym)
  let ?same = "\<lambda>r. jd_pino r = pino \<and> dirent_name_cmp (jd_name r) (jd_name d) = 0"
  define run where "run = takeWhile ?same rest"
  define rest' where "rest' = dropWhile ?same rest"
  have items: "items = (d # run) @ rest'" using Cons by (simp add: run_def rest'_def)
  have drop: "drop (length run) rest = rest'" by (simp add: run_def rest'_def dropWhile_eq_drop)
  have inrun: "jd_pino r = pino \<and> jd_name r = jd_name d" if "r \<in> set (d # run)" for r
    using that pino by (auto simp: run_def dest: set_takeWhileD)
  have behind: "\<not> (jd_pino r = pino \<and> jd_name r = jd_name d)" if "r \<in> set rest'" for r
    using behind_run [of d rest r] "1.prems"(1) Cons pino that by (simp add: rest'_def)
  have sorted: "sorted (map dirent_key (d # run))" "sorted (map dirent_key rest')"
    using "1.prems"(1) unfolding items map_append sorted_append by blast+
  have unfold: "each_live_child visit pino items st =
      sbind (if jd_ino (last (d # run)) \<noteq> 0 then visit (last (d # run)) else slift (Some ()))
        (\<lambda>_. each_live_child visit pino rest') st"
    by (subst each_live_child.simps)
      (simp add: Cons pino Let_def drop run_def [symmetric] del: dirent_name_cmp_zero)
  show ?case
  proof (cases "jd_name d = jd_name e")
    case True
    let ?w = "last (d # run)"
    have w: "?w \<in> set (d # run)" by (rule last_in_set) simp
    have "newest items ?w" unfolding items by (rule newest_of_run [OF sorted(1) _ inrun behind]) simp
    then have "jd_ino ?w \<noteq> 0 \<and> fst (visit ?w st) = None"
      using "1.prems"(5) [of ?w st] w inrun [OF w] True items by (metis Un_iff set_append)
    then show ?thesis unfolding unfold by (auto simp: sbind_def split: prod.split option.split)
  next
    case False
    then have e: "e \<in> set rest'" using "1.prems"(3) inrun [of e] items by auto
    have IH: "fst (each_live_child visit pino rest' st') = None" for st'
    proof (rule "1.IH" [OF Cons _ refl refl, folded run_def, unfolded drop])
      show "jd_ino w \<noteq> 0 \<and> fst (visit w st) = None"
        if "w \<in> set rest'" "jd_pino w = pino" "jd_name w = jd_name e" "newest rest' w" for w st
      proof -
        have "newest (d # run) w" by (rule newest_other) (use inrun that(3) False in fastforce)
        with that(4) have "newest items w" unfolding items newest_append by blast
        with that show ?thesis using "1.prems"(5) [of w st] items by auto
      qed
    qed (use sorted(2) "1.prems"(2,4) items e pino in auto)
    then show ?thesis unfolding unfold by (auto simp: sbind_def split: prod.split option.split)
  qed
qed

lemma for_each_live_child_fails:
  assumes "jw_dirents ctx = c_qsort dirent_cmp log" and "e \<in> set log" and "jd_pino e = pino"
    and fails: "\<And>w st. w \<in> set log \<Longrightarrow> jd_pino w = pino \<Longrightarrow> jd_name w = jd_name e \<Longrightarrow> newest log w \<Longrightarrow>
      jd_ino w \<noteq> 0 \<and> fst (visit w st) = None"
  shows "fst (for_each_live_child ctx pino visit st) = None"
proof -
  let ?s = "c_qsort dirent_cmp log"
  define before where "before = takeWhile (\<lambda>r. jd_pino r < pino) ?s"
  define items where "items = dropWhile (\<lambda>r. jd_pino r < pino) ?s"
  have s: "?s = before @ items" by (simp add: before_def items_def)
  have all: "set ?s = set log" using mset_c_qsort [of dirent_cmp log] by (metis set_mset_mset)
  have below: "jd_pino r < pino" if "r \<in> set before" for r
    using that by (auto simp: before_def dest: set_takeWhileD)
  have sorted: "sorted (map dirent_key items)"
    using sorted_dirents [of log] unfolding s map_append sorted_append by blast
  have "fst (each_live_child visit pino items st) = None"
  proof (rule each_live_child_fails [OF sorted])
    show "\<forall>r\<in>set items. pino \<le> jd_pino r"
      using sorted_by_fst [OF sorted_dirents [of log]] unfolding items_def
      by (rule sorted_dropWhile_le)
    show "e \<in> set items" using assms(2,3) below [of e] all unfolding s by auto
    show "jd_ino w \<noteq> 0 \<and> fst (visit w st) = None"
      if w: "w \<in> set items" "jd_pino w = pino" "jd_name w = jd_name e" "newest items w" for w st
    proof (rule fails [OF _ w(2,3)])
      show "w \<in> set log" using w(1) all s by auto
      have "newest before w" by (rule newest_other) (use below w(2) in force)
      then show "newest log w" using w(4) newest_cong [OF all, of w] unfolding s newest_append by blast
    qed
  qed (rule assms(3))
  then show ?thesis
    unfolding for_each_live_child_def assms(1) dirent_lower_bound_drop [OF sorted_dirents] items_def .
qed

section \<open>The newest metadata\<close>

lemma find_inode_meta_newest:
  assumes "find_inode_meta (c_qsort inode_rec_cmp log) ino = Some m"
  shows "m \<in> set log \<and> ji_ino m = ino \<and> (\<forall>r \<in> set log. ji_ino r = ino \<longrightarrow> ji_version r \<le> ji_version m)"
proof -
  let ?run = "filter (\<lambda>r. ji_ino r = ino) (c_qsort inode_rec_cmp log)"
  have m: "?run \<noteq> []" "m = last ?run"
    using assms unfolding find_inode_meta_last inode_run_filter [OF sorted_inodes]
    by (auto simp: Let_def split: if_splits)
  have "sorted (map inode_key ?run)"
    by (rule sorted_filter [OF sorted_inodes])
  moreover obtain xs where xs: "?run = xs @ [m]" using m by (metis append_butlast_last_id)
  ultimately have "\<forall>r \<in> set ?run. inode_key r \<le> inode_key m"
    by (auto simp: sorted_append)
  moreover have "m \<in> set ?run" using m by (metis last_in_set)
  ultimately show ?thesis by (auto simp: less_eq_prod_def)
qed

lemma find_inode_meta_None:
  "find_inode_meta (c_qsort inode_rec_cmp log) ino = None \<longleftrightarrow> (\<forall>r \<in> set log. ji_ino r \<noteq> ino)"
  unfolding find_inode_meta_last inode_run_filter [OF sorted_inodes]
  by (auto simp: Let_def filter_empty_conv)

section \<open>Properties\<close>

text \<open>
  C10: When no two records of the log share directory, name and version, the children
  a directory walk visits are exactly the records for that directory whose version is
  the highest of their name and which are not deletions, each once, in name order.
\<close>

theorem jffs2_live_children:
  assumes "distinct (map dirent_key log)" and "jw_dirents ctx = c_qsort dirent_cmp log"
  shows "for_each_live_child ctx pino visit st = visit_all visit (jffs2_children log pino) st"
  by (rule for_each_live_child_children [OF assms])

theorem jffs2_live_children_witness:
  "\<forall>visit st. for_each_live_child \<lparr>jw_codec = sample_codec, jw_f = [],
       jw_dirents = c_qsort dirent_cmp (log_dirents sample_log), jw_inodes = [], jw_output_dir = None\<rparr>
     1 visit st = visit_all visit [sample_dirent 3 2 ''a''] st"
proof -
  have d: "distinct (map dirent_key (log_dirents sample_log))"
    and c: "jffs2_children (log_dirents sample_log) 1 = [sample_dirent 3 2 ''a'']" by code_simp+
  show ?thesis by (intro allI, subst jffs2_live_children [OF d]) (simp_all add: c)
qed

text \<open>
  The metadata record looked up for an inode number is one of the log's records
  for it and no other record for it has a higher version; none is found exactly when
  the log has no record for the number.
\<close>

lemma jffs2_metadata_newest:
  "case find_inode_meta (c_qsort inode_rec_cmp log) ino of
     None \<Rightarrow> filter (\<lambda>r. ji_ino r = ino) log = []
   | Some m \<Rightarrow> m \<in> set log \<and> ji_ino m = ino \<and>
       filter (\<lambda>r. ji_ino r = ino \<and> ji_version m < ji_version r) log = []"
  using find_inode_meta_newest [of log ino] find_inode_meta_None [of log ino]
  by (auto simp: filter_empty_conv not_less split: option.split)

end
