(* ===== verification/Jffs2File.thy ===== *)
theory Jffs2File
  imports Jffs2Records
begin

text \<open>
  Regular files of a JFFS2 image: the replay of the fragments of an inode in version
  order, and that what is written is the fragments overlaid, the newest on top.
\<close>

section \<open>Regular file content\<close>

text \<open>Writing \<open>bytes\<close> into a buffer at an offset.\<close>

definition overwrite :: "byte list \<Rightarrow> nat \<Rightarrow> byte list \<Rightarrow> byte list" where
  "overwrite content off bytes = take off content @ bytes @ drop (off + length bytes) content"

definition fetch_fragment_none ::
  "byte list \<Rightarrow> jffs2_inode_rec \<Rightarrow> u32 \<Rightarrow> byte list \<Rightarrow> byte list option" where
  "fetch_fragment_none f rec usable content =
     (if ji_csize rec \<noteq> ji_dsize rec then None
      else do {
        data \<leftarrow> read_at f (ji_file_offset rec) (unat usable);
        if usable < ji_dsize rec \<and> crimp_fs_seek64 (ji_file_offset rec + ucast usable) = None then None
        else Some (overwrite content (unat (ji_frag_offset rec)) data) })"

definition fetch_fragment_zlib ::
  "codec \<Rightarrow> byte list \<Rightarrow> jffs2_inode_rec \<Rightarrow> u32 \<Rightarrow> byte list \<Rightarrow> byte list option" where
  "fetch_fragment_zlib cx f rec usable content =
     (if ji_dsize rec > JFFS2_MAX_EXTRACTED_FILE_SIZE then None
      else do {
        comp_buf \<leftarrow> read_at f (ji_file_offset rec) (unat (ji_csize rec));
        decomp_buf \<leftarrow> zlib_uncompress cx comp_buf (unat (ji_dsize rec));
        if length decomp_buf \<noteq> unat (ji_dsize rec) then None
        else Some (overwrite content (unat (ji_frag_offset rec)) (take (unat usable) decomp_buf)) })"

definition fetch_fragment ::
  "codec \<Rightarrow> byte list \<Rightarrow> jffs2_inode_rec \<Rightarrow> u32 \<Rightarrow> byte list \<Rightarrow> byte list option" where
  "fetch_fragment cx f rec usable content =
     (if ji_compr rec = JFFS2_COMPR_NONE then fetch_fragment_none f rec usable content
      else if ji_compr rec = JFFS2_COMPR_ZLIB then fetch_fragment_zlib cx f rec usable content
      else None)"

text \<open>The part of a fragment that lies inside the file: the loop's \<open>usable\<close>.\<close>

definition usable_bytes :: "u32 \<Rightarrow> jffs2_inode_rec \<Rightarrow> u32" where
  "usable_bytes final_isize rec =
     (let end = (ucast (ji_frag_offset rec) + ucast (ji_dsize rec) :: u64)
      in if end > ucast final_isize then final_isize - ji_frag_offset rec else ji_dsize rec)"

fun replay_fragments ::
  "codec \<Rightarrow> byte list \<Rightarrow> u32 \<Rightarrow> jffs2_inode_rec list \<Rightarrow> byte list \<Rightarrow> byte list option" where
  "replay_fragments cx f final_isize [] content = Some content"
| "replay_fragments cx f final_isize (rec # recs) content =
     (if ji_dsize rec = 0 then replay_fragments cx f final_isize recs content
      else if ji_frag_offset rec \<ge> final_isize then replay_fragments cx f final_isize recs content
      else case fetch_fragment cx f rec (usable_bytes final_isize rec) content of
             None \<Rightarrow> None
           | Some content' \<Rightarrow> replay_fragments cx f final_isize recs content')"

definition jffs2_extract_regular_file ::
  "codec \<Rightarrow> byte list \<Rightarrow> u32 \<Rightarrow> u32 \<Rightarrow> jffs2_inode_rec list \<Rightarrow> string \<Rightarrow> disk \<Rightarrow> bool \<times> disk" where
  "jffs2_extract_regular_file cx f ino final_isize inodes disk_path d =
     (if crimp_fs_path_is_symlink d disk_path then (False, d)
      else if final_isize > JFFS2_MAX_EXTRACTED_FILE_SIZE then (False, d)
      else if final_isize = 0 then
        (case fopen_wb disk_path d of None \<Rightarrow> (False, d) | Some (h, d1) \<Rightarrow> (True, d1))
      else case replay_fragments cx f final_isize (inode_run inodes ino)
                  (replicate (unat final_isize) 0) of
             None \<Rightarrow> (False, d)
           | Some content \<Rightarrow>
               (case fopen_wb disk_path d of None \<Rightarrow> (False, d)
                | Some (h, d1) \<Rightarrow>
                    (let written = take (unat final_isize) content;
                         d2 = sys_fwrite h written d1
                     in if length written \<noteq> unat final_isize then (False, sys_remove disk_path d2)
                        else (True, d2))))"

section \<open>File content is the fragments overlaid in version order\<close>

lemma length_overwrite [simp]:
  "off + length bs \<le> length c \<Longrightarrow> length (overwrite c off bs) = length c"
  by (simp add: overwrite_def)

lemma nth_overwrite:
  "off + length bs \<le> length c \<Longrightarrow> i < length c \<Longrightarrow>
     overwrite c off bs ! i = (if off \<le> i \<and> i < off + length bs then bs ! (i - off) else c ! i)"
  by (auto simp: overwrite_def nth_append min_def)

text \<open>What the last writer of a position left there, of writes \<open>(offset, bytes)\<close> in order.\<close>

definition last_write :: "(nat \<times> byte list) list \<Rightarrow> nat \<Rightarrow> byte option" where
  "last_write ws i =
     (case List.find (\<lambda>(off, bs). off \<le> i \<and> i < off + length bs) (rev ws) of
        None \<Rightarrow> None | Some (off, bs) \<Rightarrow> Some (bs ! (i - off)))"

lemma last_write_Cons:
  "last_write ((off, bs) # ws) i =
     (case last_write ws i of Some b \<Rightarrow> Some b
      | None \<Rightarrow> if off \<le> i \<and> i < off + length bs then Some (bs ! (i - off)) else None)"
  by (auto simp: last_write_def find_append split: option.splits)

lemma overwrites_last_write:
  assumes "\<forall>(off, bs) \<in> set ws. off + length bs \<le> length c"
  shows "foldl (\<lambda>c (off, bs). overwrite c off bs) c ws =
     map (\<lambda>i. case last_write ws i of None \<Rightarrow> c ! i | Some b \<Rightarrow> b) [0..<length c]"
  using assms
proof (induction ws arbitrary: c)
  case Nil
  then show ?case by (simp add: last_write_def map_nth)
next
  case (Cons w ws)
  obtain off bs where w: "w = (off, bs)" by (cases w)
  from Cons show ?case
    by (auto simp: w last_write_Cons nth_overwrite split: option.splits)
qed

text \<open>The bytes a fragment contributes, and the fragments that contribute at all.\<close>

definition fragment_bytes :: "codec \<Rightarrow> byte list \<Rightarrow> u32 \<Rightarrow> jffs2_inode_rec \<Rightarrow> byte list option" where
  "fragment_bytes cx f final_isize r =
     (let n = usable_bytes final_isize r
      in if ji_compr r = JFFS2_COMPR_NONE then
           (if ji_csize r \<noteq> ji_dsize r \<or>
               (n < ji_dsize r \<and> crimp_fs_seek64 (ji_file_offset r + ucast n) = None) then None
            else read_at f (ji_file_offset r) (unat n))
         else if ji_compr r = JFFS2_COMPR_ZLIB \<and> ji_dsize r \<le> JFFS2_MAX_EXTRACTED_FILE_SIZE then
           do { comp \<leftarrow> read_at f (ji_file_offset r) (unat (ji_csize r));
                out \<leftarrow> zlib_uncompress cx comp (unat (ji_dsize r));
                if length out = unat (ji_dsize r) then Some (take (unat n) out) else None }
         else None)"

definition live_fragment :: "u32 \<Rightarrow> jffs2_inode_rec \<Rightarrow> bool" where
  "live_fragment final_isize rec \<longleftrightarrow> ji_dsize rec \<noteq> 0 \<and> ji_frag_offset rec < final_isize"

definition jffs2_content :: "codec \<Rightarrow> byte list \<Rightarrow> u32 \<Rightarrow> jffs2_inode_rec list \<Rightarrow> byte list option" where
  "jffs2_content cx f final_isize recs =
     map_option (\<lambda>ws. map (\<lambda>i. case last_write ws i of None \<Rightarrow> 0 | Some b \<Rightarrow> b) [0..<unat final_isize])
       (those (map (\<lambda>r. map_option (Pair (unat (ji_frag_offset r))) (fragment_bytes cx f final_isize r))
         (filter (live_fragment final_isize) recs)))"

lemma usable_bytes_unat:
  assumes "ji_frag_offset r < sz"
  shows "unat (usable_bytes sz r) = min (unat (ji_dsize r)) (unat sz - unat (ji_frag_offset r))"
proof -
  have "unat (ucast (ji_frag_offset r) + ucast (ji_dsize r) :: u64) = unat (ji_frag_offset r) + unat (ji_dsize r)"
    using unat_plus_small(1) [of "ucast (ji_frag_offset r)" "ucast (ji_dsize r)", unfolded unat_widen]
      add_strict_mono [OF unat_u32_bound [of "ji_frag_offset r"] unat_u32_bound [of "ji_dsize r"]]
    by linarith
  moreover have "unat (sz - ji_frag_offset r) = unat sz - unat (ji_frag_offset r)"
    using assms by (intro unat_minus_small) simp
  ultimately show ?thesis
    using assms by (auto simp: usable_bytes_def Let_def word_less_nat_alt)
qed

text \<open>Whatever the buffer, a fragment replaces its own range by its own bytes.\<close>

lemma fetch_fragment_bytes:
  assumes "ji_frag_offset r < sz"
  shows "fetch_fragment cx f r (usable_bytes sz r) c =
      map_option (overwrite c (unat (ji_frag_offset r))) (fragment_bytes cx f sz r)"
    and "fragment_bytes cx f sz r = Some bs \<Longrightarrow> length bs = unat (usable_bytes sz r)"
proof -
  show "fetch_fragment cx f r (usable_bytes sz r) c =
      map_option (overwrite c (unat (ji_frag_offset r))) (fragment_bytes cx f sz r)"
  proof (cases "ji_compr r = JFFS2_COMPR_NONE")
    case True
    then show ?thesis
      by (cases "read_at f (ji_file_offset r) (unat (usable_bytes sz r))")
        (simp_all add: fragment_bytes_def Let_def fetch_fragment_def fetch_fragment_none_def)
  next
    case False
    then have "fetch_fragment cx f r u c = (if ji_compr r = JFFS2_COMPR_ZLIB
        then fetch_fragment_zlib cx f r u c else None)" for u
      by (simp add: fetch_fragment_def)
    moreover have "fragment_bytes cx f sz r = (if ji_compr r = JFFS2_COMPR_ZLIB \<and> ji_dsize r \<le> JFFS2_MAX_EXTRACTED_FILE_SIZE
        then do { comp \<leftarrow> read_at f (ji_file_offset r) (unat (ji_csize r));
                out \<leftarrow> zlib_uncompress cx comp (unat (ji_dsize r));
                if length out = unat (ji_dsize r) then Some (take (unat (usable_bytes sz r)) out) else None }
        else None)"
      using False by (simp add: fragment_bytes_def Let_def)
    ultimately show ?thesis
      by (cases "do { comp \<leftarrow> read_at f (ji_file_offset r) (unat (ji_csize r));
                      zlib_uncompress cx comp (unat (ji_dsize r)) }")
        (auto simp: fetch_fragment_zlib_def bind_eq_None_conv Option.bind_eq_Some_conv not_less
          split: Option.bind_split)
  qed
  show "fragment_bytes cx f sz r = Some bs \<Longrightarrow> length bs = unat (usable_bytes sz r)"
    using usable_bytes_unat [OF assms]
    by (auto simp: fragment_bytes_def Let_def Option.bind_eq_Some_conv dest: read_at_length split: if_splits)
qed

lemma replay_fragments_writes:
  "replay_fragments cx f sz recs c =
     map_option (foldl (\<lambda>c (off, bs). overwrite c off bs) c)
       (those (map (\<lambda>r. map_option (Pair (unat (ji_frag_offset r))) (fragment_bytes cx f sz r))
         (filter (live_fragment sz) recs)))"
proof (induction recs arbitrary: c)
  case (Cons r recs)
  show ?case
  proof (cases "live_fragment sz r")
    case False
    with Cons show ?thesis by (auto simp: live_fragment_def not_less)
  next
    case True
    then have l: "ji_frag_offset r < sz" "ji_dsize r \<noteq> 0" by (auto simp: live_fragment_def)
    with True Cons show ?thesis
      by (auto simp: fetch_fragment_bytes(1) [OF l(1)] not_le option.map_comp o_def split: option.split)
  qed
qed simp

lemma jffs2_replay_content:
  "replay_fragments cx f sz recs (replicate (unat sz) 0) = jffs2_content cx f sz recs"
proof -
  have "foldl (\<lambda>c (off, bs). overwrite c off bs) (replicate (unat sz) 0) ws =
      map (\<lambda>i. case last_write ws i of None \<Rightarrow> 0 | Some b \<Rightarrow> b) [0..<unat sz]"
    if ws: "those (map (\<lambda>r. map_option (Pair (unat (ji_frag_offset r))) (fragment_bytes cx f sz r))
         (filter (live_fragment sz) recs)) = Some ws" for ws
  proof -
    have "off + length bs \<le> unat sz" if "(off, bs) \<in> set ws" for off bs
    proof -
      from ws that obtain r where r: "live_fragment sz r" "off = unat (ji_frag_offset r)"
          "fragment_bytes cx f sz r = Some bs"
        unfolding those_Some_iff by (auto simp: list_eq_iff_nth_eq in_set_conv_nth) (metis nth_mem mem_Collect_eq set_filter Pair_inject option.inject)
      then show ?thesis
        using fetch_fragment_bytes(2) [OF _ r(3)] usable_bytes_unat [of r sz]
        by (auto simp: live_fragment_def word_less_nat_alt)
    qed
    then have "\<forall>(off, bs) \<in> set ws. off + length bs \<le> length (replicate (unat sz) (0 :: byte))" by auto
    from overwrites_last_write [OF this] show ?thesis
      by (auto intro!: map_cong split: option.split)
  qed
  then show ?thesis
    unfolding replay_fragments_writes jffs2_content_def by (rule option.map_cong0 [rotated]) auto
qed

section \<open>The regular-file writer\<close>

lemma jffs2_content_length: "jffs2_content cx f sz recs = Some bs \<Longrightarrow> length bs = unat sz"
  by (auto simp: jffs2_content_def)

lemma jffs2_content_empty: "jffs2_content cx f 0 recs = Some []"
  by (simp add: jffs2_content_def live_fragment_def)

lemma jffs2_extract_file_spec:
  assumes "\<not> crimp_fs_path_is_symlink d p" and "fopen_wb p d = Some (h, d1)"
  shows "if sz > JFFS2_MAX_EXTRACTED_FILE_SIZE \<or> jffs2_content cx f sz (inode_run inodes ino) = None
    then jffs2_extract_regular_file cx f ino sz inodes p d = (False, d)
    else \<exists>d2. jffs2_extract_regular_file cx f ino sz inodes p d = (True, d2) \<and>
           lookup d2 p = map_option RegFile (jffs2_content cx f sz (inode_run inodes ino)) \<and>
           changed d d2 \<subseteq> {p}"
proof -
  have h: "h = p" "d1 = put p (RegFile []) d"
    using fopen_wb_plain [OF symlink_False [OF assms(1)] assms(2)] by auto
  have opened: "changed d (put p (RegFile []) d) \<subseteq> {p}" by (auto simp: changed_def)
  have frame: "changed d (sys_fwrite p bs (put p (RegFile []) d)) \<subseteq> {p}" for bs
    by (rule changed_trans [OF opened fwrite_changed])
  have "lookup (sys_fwrite p bs (put p (RegFile []) d)) p = Some (RegFile bs)" for bs
    using lookup_fwrite_file [of "put p (RegFile []) d" p "[]" bs] by simp
  then show ?thesis
    using assms frame opened unfolding jffs2_extract_regular_file_def jffs2_replay_content
    by (cases "sz = 0"; cases "jffs2_content cx f sz (inode_run inodes ino)")
      (simp_all add: jffs2_content_empty h Let_def jffs2_content_length JFFS2_MAX_EXTRACTED_FILE_SIZE_def)
qed

text \<open>What the writer puts into a file: nothing when the size is over the limit.\<close>

definition jffs2_file :: "codec \<Rightarrow> byte list \<Rightarrow> u32 \<Rightarrow> u32 \<Rightarrow> jffs2_inode_rec list \<Rightarrow> byte list option" where
  "jffs2_file cx f ino sz inodes =
     (if sz > JFFS2_MAX_EXTRACTED_FILE_SIZE then None else jffs2_content cx f sz (inode_run inodes ino))"

lemma jffs2_extract_cases:
  obtains "jffs2_extract_regular_file cx f ino sz inodes p d = (False, d)"
  | d2 bs where "jffs2_extract_regular_file cx f ino sz inodes p d = (True, d2)"
      "jffs2_file cx f ino sz inodes = Some bs" "fopen_wb p d \<noteq> None"
      "lookup d2 p = Some (RegFile bs)" "changed d d2 \<subseteq> {p}"
proof (cases "crimp_fs_path_is_symlink d p \<or> fopen_wb p d = None")
  case True
  then show ?thesis
    by (intro that(1)) (auto simp: jffs2_extract_regular_file_def split: option.split)
next
  case False
  then obtain h d1 where "fopen_wb p d = Some (h, d1)" by auto
  with jffs2_extract_file_spec [of d p h d1 sz cx f inodes ino] False that show ?thesis
    by (auto simp: jffs2_file_def split: if_splits)
qed

interpretation jffs2_writer: content_writer
  "jffs2_extract_regular_file cx f ino sz inodes" "jffs2_file cx f ino sz inodes"
  for cx f ino sz inodes
proof
  fix p d d'
  let ?w = "jffs2_extract_regular_file cx f ino sz inodes p d"
  show "changed d (snd ?w) \<subseteq> {p}"
    by (cases rule: jffs2_extract_cases [of cx f ino sz inodes p d]) auto
  show "\<exists>bs. jffs2_file cx f ino sz inodes = Some bs \<and> lookup d' p = Some (RegFile bs)" if "?w = (True, d')"
    by (cases rule: jffs2_extract_cases [of cx f ino sz inodes p d]) (use that in auto)
  show "fopen_wb p d \<noteq> None" if "?w = (True, d')"
    by (cases rule: jffs2_extract_cases [of cx f ino sz inodes p d]) (use that in auto)
  show "lookup d' p = lookup d p \<or> lookup d' p = None \<and> fopen_wb p d \<noteq> None" if "?w = (False, d')"
    by (cases rule: jffs2_extract_cases [of cx f ino sz inodes p d]) (use that in auto)
  show "\<not> crimp_fs_path_is_symlink d p" if "?w = (True, d')"
    using that by (auto simp: jffs2_extract_regular_file_def)
  show "fst ?w = (jffs2_file cx f ino sz inodes \<noteq> None)" if plain: "\<not> crimp_fs_path_is_symlink d p" and opens: "fopen_wb p d \<noteq> None"
  proof -
    obtain h d1 where "fopen_wb p d = Some (h, d1)" using opens by auto
    from jffs2_extract_file_spec [OF plain this, of sz cx f inodes ino] show ?thesis
      by (auto simp: jffs2_file_def split: if_splits)
  qed
qed

section \<open>Properties\<close>

text \<open>
  C11: Writing a regular file (at a path that is no link and that can be opened)
  succeeds exactly when the size is within the 256 MiB limit and every fragment that
  reaches into the file can be fetched. The file then has the size of the metadata
  record, and each of its bytes is the one the fragment of the highest version covering
  it wrote, or zero; on failure the disk is unchanged.
\<close>

theorem jffs2_file_content:
  assumes "\<not> crimp_fs_path_is_symlink d p" and "fopen_wb p d = Some (h, d1)"
    and "content = jffs2_content cx f sz (c_qsort inode_rec_cmp (filter (\<lambda>r. ji_ino r = ino) log))"
    and "jffs2_extract_regular_file cx f ino sz (c_qsort inode_rec_cmp log) p d = (ok, d')"
  shows "ok = (sz \<le> JFFS2_MAX_EXTRACTED_FILE_SIZE \<and> content \<noteq> None) \<and>
    (if ok then lookup d' p = map_option RegFile content \<and> pred_option (\<lambda>bs. length bs = unat sz) content
     else d' = d)"
proof -
  have run: "inode_run (c_qsort inode_rec_cmp log) ino = c_qsort inode_rec_cmp (filter (\<lambda>r. ji_ino r = ino) log)"
    by (simp add: inode_run_filter [OF sorted_inodes] inode_order.filter_c_qsort)
  from jffs2_extract_file_spec [OF assms(1,2), of sz cx f "c_qsort inode_rec_cmp log" ino] assms(4)
  show ?thesis
    unfolding run assms(3) [symmetric]
    by (auto simp: not_less pred_option_def assms(3) jffs2_content_length split: if_splits)
qed

theorem jffs2_file_content_witness:
  "lookup (snd (jffs2_extract_regular_file sample_codec sample_jffs2 2 4
     (c_qsort inode_rec_cmp (log_inodes False 0 sample_log)) ''f'' [])) ''f'' = Some (RegFile [9, 1, 2, 3])"
proof -
  have c: "jffs2_content sample_codec sample_jffs2 4
      (c_qsort inode_rec_cmp (filter (\<lambda>r. ji_ino r = 2) (log_inodes False 0 sample_log))) = Some [9, 1, 2, 3]"
    by code_simp
  have s: "\<not> crimp_fs_path_is_symlink [] ''f''" by code_simp
  have o: "fopen_wb ''f'' [] = Some (''f'', [(''f'', RegFile [])])" by code_simp
  obtain ok d' where r: "jffs2_extract_regular_file sample_codec sample_jffs2 2 4
       (c_qsort inode_rec_cmp (log_inodes False 0 sample_log)) ''f'' [] = (ok, d')" by fastforce
  from jffs2_file_content [OF s o refl r] c r show ?thesis
    by (simp add: JFFS2_MAX_EXTRACTED_FILE_SIZE_def)
qed

end
