(* ===== verification/Jffs2.thy ===== *)
theory Jffs2
  imports Jffs2File
begin

text \<open>
  The directory walk of \<open>src/extract/jffs2.c\<close>, bounded by a depth, and on it
  identification, listing and extraction; and that they keep the contract of a reader.
\<close>

section \<open>Directory walk\<close>

definition visit_child ::
  "jffs2_walk_context \<Rightarrow> (u32 \<Rightarrow> string \<Rightarrow> wstate \<Rightarrow> unit option \<times> wstate) \<Rightarrow>
   string \<Rightarrow> jffs2_dirent_rec \<Rightarrow> wstate \<Rightarrow> unit option \<times> wstate" where
  "visit_child ctx walk parent_path dirent =
     (if \<not> crimp_fs_path_component_is_safe (jd_name dirent) then slift None
      else sbind (slift (find_inode_meta (jw_inodes ctx) (jd_ino dirent))) (\<lambda>meta.
           sbind (slift (child_path_of parent_path (jd_name dirent))) (\<lambda>child_path.
             let filetype = ji_mode meta AND JFFS2_S_IFMT;
                 is_dir = (filetype = JFFS2_S_IFDIR);
                 is_reg = (filetype = JFFS2_S_IFREG)
             in sbind (publish_entry (jw_output_dir ctx) child_path is_dir is_reg (ucast (ji_isize meta))
                         (jffs2_extract_regular_file (jw_codec ctx) (jw_f ctx) (jd_ino dirent)
                            (ji_isize meta) (jw_inodes ctx)))
                  (\<lambda>_. if is_dir then walk (jd_ino dirent) child_path else slift (Some ())))))"

function jffs2_walk_directory ::
  "jffs2_walk_context \<Rightarrow> u32 \<Rightarrow> string \<Rightarrow> nat \<Rightarrow> wstate \<Rightarrow> unit option \<times> wstate" where
  "jffs2_walk_directory ctx pino parent_path depth st =
     (if depth > JFFS2_MAX_DIR_DEPTH then (None, st)
      else for_each_live_child ctx pino
             (visit_child ctx (\<lambda>ino path st'. jffs2_walk_directory ctx ino path (depth + 1) st')
               parent_path) st)"
  by pat_completeness auto
termination
  by (relation "measure (\<lambda>(ctx, pino, parent, depth, st). JFFS2_MAX_DIR_DEPTH + 1 - depth)") auto

declare jffs2_walk_directory.simps [simp del]

section \<open>Identification, listing and extraction\<close>

definition scan_and_sort ::
  "disk \<Rightarrow> string \<Rightarrow> (byte list \<times> bool \<times> jffs2_dirent_rec list \<times> jffs2_inode_rec list) option" where
  "scan_and_sort d path =
     do { f \<leftarrow> fopen_rb path d;
          big_endian \<leftarrow> jffs2_detect_endianness f;
          let sz = jffs2_file_size f;
          if sz < ucast JFFS2_COMMON_HEADER_SIZE then None
          else do {
            (dirents, inodes) \<leftarrow> scan_log f sz big_endian;
            Some (f, big_endian, c_qsort dirent_cmp (v_items dirents),
                  c_qsort inode_rec_cmp (v_items inodes)) } }"

definition crimp_jffs2_identify :: "disk \<Rightarrow> string \<Rightarrow> crimp_fs_info option" where
  "crimp_jffs2_identify d path =
     do { f \<leftarrow> fopen_rb path d;
          big_endian \<leftarrow> jffs2_detect_endianness f;
          Some \<lparr>fi_type = CRIMP_FS_JFFS2, fi_inode_count = 0, fi_block_size = 0,
                fi_compression = 0, fi_bytes_used = jffs2_file_size f\<rparr> }"

definition crimp_jffs2_compression_name :: string where
  "crimp_jffs2_compression_name = ''zlib''"

definition jffs2_run ::
  "codec \<Rightarrow> string \<Rightarrow> string option \<Rightarrow> disk \<Rightarrow> bool \<times> crimp_fs_entry_list \<times> disk" where
  "jffs2_run cx path output_dir d =
     (let out = crimp_fs_entry_list_init
      in case scan_and_sort d path of
           None \<Rightarrow> (False, out, d)
         | Some (f, big_endian, dirents, inodes) \<Rightarrow>
             (case (case output_dir of None \<Rightarrow> (True, d) | Some od \<Rightarrow> crimp_fs_make_directory od d) of
                (False, d1) \<Rightarrow> (False, crimp_fs_entry_list_free out, d1)
              | (True, d1) \<Rightarrow>
                  (case jffs2_walk_directory
                          \<lparr>jw_codec = cx, jw_f = f, jw_dirents = dirents, jw_inodes = inodes,
                           jw_output_dir = output_dir\<rparr>
                          JFFS2_ROOT_INO [] 0 \<lparr>ws_entries = out, ws_disk = d1\<rparr> of
                     (None, st) \<Rightarrow> (False, crimp_fs_entry_list_free (ws_entries st), ws_disk st)
                   | (Some _, st) \<Rightarrow> (True, ws_entries st, ws_disk st))))"

definition crimp_jffs2_list ::
  "codec \<Rightarrow> disk \<Rightarrow> string \<Rightarrow> bool \<times> crimp_fs_entry_list" where
  "crimp_jffs2_list cx d path = (case jffs2_run cx path None d of (ok, out, _) \<Rightarrow> (ok, out))"

definition crimp_jffs2_extract ::
  "codec \<Rightarrow> string \<Rightarrow> string \<Rightarrow> disk \<Rightarrow> bool \<times> crimp_fs_entry_list \<times> disk" where
  "crimp_jffs2_extract cx path output_dir d = jffs2_run cx path (Some output_dir) d"

section \<open>The walk\<close>

lemma each_live_child_cases:
  fixes pino :: u32 and items :: "jffs2_dirent_rec list"
  obtains "\<And>(v :: jffs2_dirent_rec \<Rightarrow> 's \<Rightarrow> unit option \<times> 's) st. each_live_child v pino items st = (Some (), st)"
  | w items' where "length items' < length items"
      "\<And>(v :: jffs2_dirent_rec \<Rightarrow> 's \<Rightarrow> unit option \<times> 's) st. each_live_child v pino items st =
         sbind (if jd_ino w \<noteq> 0 then v w else slift (Some ())) (\<lambda>_. each_live_child v pino items') st"
proof (cases "items = [] \<or> jd_pino (hd items) \<noteq> pino")
  case True
  then show ?thesis by (intro that(1)) (cases items; simp add: each_live_child.simps)
next
  case False
  then obtain d rest where items: "items = d # rest" "jd_pino d = pino" by (cases items) auto
  let ?run = "takeWhile (\<lambda>r. jd_pino r = pino \<and> dirent_name_cmp (jd_name r) (jd_name d) = 0) rest"
  show ?thesis
  proof (rule that(2))
    show "length (drop (length ?run) rest) < length items" by (simp add: items)
    show "each_live_child v pino items st = sbind (if jd_ino (last (d # ?run)) \<noteq> 0 then v (last (d # ?run))
        else slift (Some ())) (\<lambda>_. each_live_child v pino (drop (length ?run) rest)) st"
      for v :: "jffs2_dirent_rec \<Rightarrow> 's \<Rightarrow> unit option \<times> 's" and st
      by (subst each_live_child.simps) (simp only: items list.case Let_def if_False simp_thms)
  qed
qed

lemma each_live_child_keeps:
  assumes "\<And>r. keeps I J (visit r)"
  shows "keeps I J (each_live_child visit pino items)"
proof (induction items rule: length_induct)
  case (1 items)
  show ?case
  proof (cases rule: each_live_child_cases [of pino items, where 's = 'a])
    case 1 then show ?thesis by (simp add: keeps_def)
  next
    case (2 w items')
    have "keeps I J (sbind (if jd_ino w \<noteq> 0 then visit w else slift (Some ()))
        (\<lambda>_. each_live_child visit pino items'))"
      using 2(1) 1 assms by (intro keeps_sbind keeps_if keeps_return) auto
    then show ?thesis by (simp add: keeps_def 2(2))
  qed
qed

lemma visit_child_walks:
  assumes "path_at n parent" and "n \<le> 32"
    and "\<And>ino path. path_at (Suc n) path \<Longrightarrow> walks True (jw_output_dir ctx) d0 (walk ino path)"
  shows "walks True (jw_output_dir ctx) d0 (visit_child ctx walk parent dirent)"
proof -
  have "walks True (jw_output_dir ctx) d0
      (publish_entry (jw_output_dir ctx) path is_dir is_reg (ucast sz)
        (jffs2_extract_regular_file (jw_codec ctx) (jw_f ctx) ino sz (jw_inodes ctx)))"
    if safe: "crimp_fs_path_component_is_safe name" and path: "child_path_of parent name = Some path"
    for name path is_dir is_reg ino and sz :: u32
  proof -
    note p = child_path_at [OF assms(1) safe path]
    show ?thesis
    proof (rule jffs2_writer.publish_walk [OF p(3)], rule item_ok_walk_item [OF p(1) assms(2) p(2)])
      fix bs assume "jffs2_file (jw_codec ctx) (jw_f ctx) ino sz (jw_inodes ctx) = Some bs"
      then show "length bs = unat (ucast sz :: u64)"
        by (auto simp: jffs2_file_def dest: jffs2_content_length split: if_splits)
    qed
  qed
  then show ?thesis
    unfolding visit_child_def
    using assms(3) child_path_at(1) [OF assms(1)] walk_ok_any
    by (auto intro!: keeps_intros simp: Let_def)
qed

lemma jffs2_walk_directory_walks:
  "path_at depth parent \<Longrightarrow> walks True (jw_output_dir ctx) d0 (jffs2_walk_directory ctx pino parent depth)"
proof (induction "33 - depth" arbitrary: depth pino parent rule: less_induct)
  case less
  show ?case
  proof (cases "depth > JFFS2_MAX_DIR_DEPTH")
    case True
    then show ?thesis using walk_ok_any by (auto simp: keeps_def jffs2_walk_directory.simps [of ctx])
  next
    case False
    then have here: "jffs2_walk_directory ctx pino parent depth = for_each_live_child ctx pino
        (visit_child ctx (\<lambda>ino path st'. jffs2_walk_directory ctx ino path (depth + 1) st') parent)"
      by (intro ext) (subst jffs2_walk_directory.simps, simp)
    show ?thesis
      unfolding here for_each_live_child_def
      using less False by (intro each_live_child_keeps visit_child_walks) (auto simp: JFFS2_MAX_DIR_DEPTH_def)
  qed
qed

lemma each_live_child_runs_as:
  assumes "\<And>r s t. R s t \<Longrightarrow> runs_as R (v r s) (v' r t)" and "R s t"
  shows "runs_as R (each_live_child v pino items s) (each_live_child v' pino items t)"
  using assms
proof (induction items arbitrary: s t rule: length_induct)
  case (1 items)
  show ?case
  proof (cases rule: each_live_child_cases [of pino items, where 's = wstate])
    case 1
    with "1.prems" show ?thesis by (simp add: runs_as_def)
  next
    case (2 w items')
    show ?thesis
      unfolding 2(2) using "1.IH" 2(1) "1.prems"
      by (intro runs_as_sbind) (auto intro!: runs_as_slift)
  qed
qed

text \<open>
  Two runs of the walk, the second with an output directory of its own or with none, stay
  related when recording and writing one entry keeps them so.
\<close>

lemma jffs2_walk_directory_runs_as:
  assumes publish: "\<And>child is_dir is_reg size ino sz s t. R s t \<Longrightarrow> runs_as R
       (publish_entry (Some od) child is_dir is_reg size (jffs2_extract_regular_file (jw_codec ctx) (jw_f ctx) ino sz (jw_inodes ctx)) s)
       (publish_entry od' child is_dir is_reg size (jffs2_extract_regular_file (jw_codec ctx) (jw_f ctx) ino sz (jw_inodes ctx)) t)"
  shows "R s t \<Longrightarrow> runs_as R (jffs2_walk_directory (ctx\<lparr>jw_output_dir := Some od\<rparr>) pino parent depth s)
             (jffs2_walk_directory (ctx\<lparr>jw_output_dir := od'\<rparr>) pino parent depth t)"
proof (induction "33 - depth" arbitrary: depth pino parent s t rule: less_induct)
  case less
  note unfold = jffs2_walk_directory.simps [of "ctx\<lparr>jw_output_dir := Some od\<rparr>" pino parent depth s]
    jffs2_walk_directory.simps [of "ctx\<lparr>jw_output_dir := od'\<rparr>" pino parent depth t]
  have dirents: "jw_dirents (ctx\<lparr>jw_output_dir := x\<rparr>) = jw_dirents ctx" for x by simp
  have visit: "runs_as R (visit_child (ctx\<lparr>jw_output_dir := Some od\<rparr>) walk parent dirent s)
      (visit_child (ctx\<lparr>jw_output_dir := od'\<rparr>) walk' parent dirent t)"
    if "R s t" and "\<And>ino path s t. R s t \<Longrightarrow> runs_as R (walk ino path s) (walk' ino path t)" for walk walk' dirent s t
    unfolding visit_child_def
    by (auto intro!: runs_as_sbind runs_as_slift publish that simp: Let_def)
  show ?case
  proof (cases "depth > JFFS2_MAX_DIR_DEPTH")
    case False
    then have "runs_as R (for_each_live_child (ctx\<lparr>jw_output_dir := Some od\<rparr>) pino (visit_child (ctx\<lparr>jw_output_dir := Some od\<rparr>)
          (\<lambda>ino path st'. jffs2_walk_directory (ctx\<lparr>jw_output_dir := Some od\<rparr>) ino path (depth + 1) st') parent) s)
        (for_each_live_child (ctx\<lparr>jw_output_dir := od'\<rparr>) pino (visit_child (ctx\<lparr>jw_output_dir := od'\<rparr>)
          (\<lambda>ino path st'. jffs2_walk_directory (ctx\<lparr>jw_output_dir := od'\<rparr>) ino path (depth + 1) st') parent) t)"
      unfolding for_each_live_child_def dirents
      using less by (intro each_live_child_runs_as visit less.hyps) (auto simp: JFFS2_MAX_DIR_DEPTH_def)
    with False show ?thesis by (simp add: unfold)
  qed (simp add: unfold)
qed

section \<open>Extraction\<close>

lemma jffs2_sample_run:
  "crimp_jffs2_extract sample_codec ''i'' ''o'' [(''i'', RegFile sample_jffs2)] =
     (True, \<lparr>v_items = [\<lparr>e_path = ''a'', e_is_dir = False, e_size = 4\<rparr>], v_capacity = 16\<rparr>,
      [(''i'', RegFile sample_jffs2), (''o'', Directory), (''o/a'', RegFile [9, 1, 2, 3])])"
  by code_simp

text \<open>What a run needs of the image, and the walk over it.\<close>

definition jffs2_parse ::
  "byte list \<Rightarrow> (byte list \<times> bool \<times> jffs2_dirent_rec list \<times> jffs2_inode_rec list) option" where
  "jffs2_parse f =
     do { big_endian \<leftarrow> jffs2_detect_endianness f;
          if jffs2_file_size f < ucast JFFS2_COMMON_HEADER_SIZE then None
          else do {
            (dirents, inodes) \<leftarrow> scan_log f (jffs2_file_size f) big_endian;
            Some (f, big_endian, c_qsort dirent_cmp (v_items dirents),
                  c_qsort inode_rec_cmp (v_items inodes)) } }"

definition jffs2_walk_root ::
  "codec \<Rightarrow> byte list \<times> bool \<times> jffs2_dirent_rec list \<times> jffs2_inode_rec list \<Rightarrow> string option \<Rightarrow>
   wstate \<Rightarrow> unit option \<times> wstate" where
  "jffs2_walk_root cx = (\<lambda>(f, be, dirents, inodes) output_dir.
     jffs2_walk_directory
       \<lparr>jw_codec = cx, jw_f = f, jw_dirents = dirents, jw_inodes = inodes, jw_output_dir = output_dir\<rparr>
       JFFS2_ROOT_INO [] 0)"

lemma scan_and_sort_parse: "scan_and_sort d path = Option.bind (fopen_rb path d) jffs2_parse"
  by (simp add: scan_and_sort_def jffs2_parse_def [abs_def] Let_def)

interpretation jffs2_extractor: walk_reader
  "crimp_jffs2_extract cx" crimp_jffs2_identify "\<lambda>d path l0. crimp_jffs2_list cx d path" True
  jffs2_parse "jffs2_walk_root cx" for cx
proof
  fix path od d f i d1 s t
  show "crimp_jffs2_extract cx path od d =
      (case Option.bind (fopen_rb path d) jffs2_parse of None \<Rightarrow> (False, crimp_fs_entry_list_init, d)
       | Some i \<Rightarrow> (case crimp_fs_make_directory od d of
           (False, d1) \<Rightarrow> (False, crimp_fs_entry_list_init, d1)
         | (True, d1) \<Rightarrow>
             (case jffs2_walk_root cx i (Some od) \<lparr>ws_entries = crimp_fs_entry_list_init, ws_disk = d1\<rparr> of
                (None, st) \<Rightarrow> (False, crimp_fs_entry_list_init, ws_disk st)
              | (Some _, st) \<Rightarrow> (True, ws_entries st, ws_disk st))))"
    by (auto simp: crimp_jffs2_extract_def jffs2_run_def scan_and_sort_parse jffs2_walk_root_def Let_def
        split: option.split prod.split bool.split)
  show "crimp_jffs2_list cx d path = (True, ws_entries st)"
    if "Option.bind (fopen_rb path d) jffs2_parse = Some i"
      "jffs2_walk_root cx i None \<lparr>ws_entries = crimp_fs_entry_list_init, ws_disk = d\<rparr> = (Some (), st)" for st
    using that by (auto simp: crimp_jffs2_list_def jffs2_run_def scan_and_sort_parse jffs2_walk_root_def Let_def
        split: prod.splits)
  obtain f' be ds rs where i: "i = (f', be, ds, rs)" by (cases i) auto
  let ?ctx = "\<lparr>jw_codec = cx, jw_f = f', jw_dirents = ds, jw_inodes = rs, jw_output_dir = None\<rparr>"
  show "walks True (Some od) d1 (jffs2_walk_root cx i (Some od))"
    using jffs2_walk_directory_walks [of 0 "[]" "?ctx\<lparr>jw_output_dir := Some od\<rparr>"] by (simp add: i jffs2_walk_root_def)
  show "runs_as same_entries (jffs2_walk_root cx i (Some od) s) (jffs2_walk_root cx i None t)" if "same_entries s t"
    using jffs2_walk_directory_runs_as [where ctx = ?ctx and od = od and od' = None, OF publish_lists that]
    by (simp add: i jffs2_walk_root_def)
  show "runs_as (same_under od) (jffs2_walk_root cx i (Some od) s) (jffs2_walk_root cx i (Some od) t)" if "same_under od s t"
    using jffs2_walk_directory_runs_as [where ctx = ?ctx and od = od and od' = "Some od", OF jffs2_writer.publish_again that]
    by (simp add: i jffs2_walk_root_def)
qed (auto simp: crimp_jffs2_identify_def jffs2_parse_def fopen_rb_plain bind_eq_None_conv)

end
