(* ===== verification/FsExtract.thy ===== *)
theory FsExtract
  imports Squashfs Cramfs Jffs2
begin

text \<open>
  \<open>src/extract/identify.c\<close>: the choice of a filesystem by its magic, the recursive
  removal of a directory that never follows a link, and extraction into a staging
  directory that replaces the output directory only when it is complete.
\<close>

section \<open>Identification\<close>

definition crimp_fs_identify :: "disk \<Rightarrow> string \<Rightarrow> crimp_fs_info option" where
  "crimp_fs_identify d path =
     (case crimp_squashfs_identify d path of Some out \<Rightarrow> Some out
      | None \<Rightarrow> (case crimp_cramfs_identify d path of Some out \<Rightarrow> Some out
      | None \<Rightarrow> (case crimp_jffs2_identify d path of Some out \<Rightarrow> Some out
      | None \<Rightarrow> None)))"

definition crimp_fs_compression_name :: "crimp_fs_type \<Rightarrow> u16 \<Rightarrow> string" where
  "crimp_fs_compression_name type compression =
     (if type = CRIMP_FS_SQUASHFS then crimp_squashfs_compression_name compression
      else if type = CRIMP_FS_CRAMFS then crimp_cramfs_compression_name
      else if type = CRIMP_FS_JFFS2 then crimp_jffs2_compression_name
      else ''unknown'')"

section \<open>Removing a directory tree\<close>

definition is_real_directory_not_symlink :: "disk \<Rightarrow> string \<Rightarrow> bool" where
  "is_real_directory_not_symlink d p \<longleftrightarrow> lookup d p = Some Directory"

text \<open>
  The names are those listed when the directory is opened. \<open>remove\<close> and \<open>rmdir\<close> are
  best effort; a child path that does not fit the 1280-byte buffer is left alone, and
  that also bounds the recursion.
\<close>

function remove_tree :: "string \<Rightarrow> disk \<Rightarrow> disk" where
  "remove_tree path d =
     (if \<not> is_real_directory_not_symlink d path then sys_remove path d
      else (let names = filter (\<lambda>n. n \<noteq> ''.'' \<and> n \<noteq> ''..'') (readdir_names d path);
                d' = foldl (\<lambda>d n. if length (path_join path n) \<ge> 1280 then d
                                  else remove_tree (path_join path n) d) d names
            in sys_remove path d'))"
  by pat_completeness auto
termination
  by (relation "measure (\<lambda>(path, d). 1280 - length path)") (auto simp: path_join_def)

declare remove_tree.simps [simp del]

section \<open>Extraction\<close>

definition extract_dispatch :: "codec \<Rightarrow> string \<Rightarrow> string \<Rightarrow> disk \<Rightarrow> bool \<times> disk" where
  "extract_dispatch cx path dir d =
     (case crimp_squashfs_extract cx path dir d of
        (True, _, d1) \<Rightarrow> (True, d1)
      | (False, _, d1) \<Rightarrow>
          (case crimp_cramfs_extract cx path dir d1 of
             (True, _, d2) \<Rightarrow> (True, d2)
           | (False, _, d2) \<Rightarrow>
               (case crimp_jffs2_extract cx path dir d2 of
                  (True, _, d3) \<Rightarrow> (True, d3)
                | (False, _, d3) \<Rightarrow> (False, d3))))"

definition staging_dir :: "string \<Rightarrow> string" where
  "staging_dir output_dir = output_dir @ ''.tmp''"

definition crimp_fs_extract :: "codec \<Rightarrow> string \<Rightarrow> string \<Rightarrow> disk \<Rightarrow> bool \<times> disk" where
  "crimp_fs_extract cx path output_dir d =
     (let tmp_dir = staging_dir output_dir
      in if length tmp_dir \<ge> 1280 then (False, d)
         else case extract_dispatch cx path tmp_dir (remove_tree tmp_dir d) of
                (False, d1) \<Rightarrow> (False, remove_tree tmp_dir d1)
              | (True, d1) \<Rightarrow>
                  (let d2 = remove_tree output_dir d1
                   in case sys_rename tmp_dir output_dir d2 of
                        Some d3 \<Rightarrow> (True, d3)
                      | None \<Rightarrow> (False, d2)))"

section \<open>At most one magic matches\<close>

lemma squashfs_superblock_magic: "squashfs_read_superblock f = Some sb \<Longrightarrow> take 4 f = [0x68, 0x73, 0x71, 0x73]"
proof -
  assume "squashfs_read_superblock f = Some sb"
  then have "take 4 f = map byte_of_chr ''hsqs''"
    by (auto simp: squashfs_read_superblock_def file_read_def Option.bind_eq_Some_conv split: if_splits)
  also have "\<dots> = [0x68, 0x73, 0x71, 0x73]" by code_simp
  finally show ?thesis .
qed

lemma cramfs_superblock_magic:
  "cramfs_read_superblock f = Some sb \<Longrightarrow> take 4 f = encode_u32 CRAMFS_MAGIC False \<or> take 4 f = encode_u32 CRAMFS_MAGIC True"
proof -
  assume a: "cramfs_read_superblock f = Some sb"
  then have l: "76 \<le> length f"
    by (auto simp: cramfs_read_superblock_def file_read_def CRAMFS_SUPER_SIZE_def Option.bind_eq_Some_conv split: if_splits)
  from a obtain be where "cramfs_detect_endian (take 76 f) = Some be"
    by (auto simp: cramfs_read_superblock_def file_read_def CRAMFS_SUPER_SIZE_def Option.bind_eq_Some_conv split: if_splits)
  then have "crimp_fs_decode_u32 (take 4 f) be = CRAMFS_MAGIC"
    by (auto simp: cramfs_detect_endian_def decode_u32_take split: if_splits)
  then have "take 4 f = encode_u32 CRAMFS_MAGIC be"
    using decode_u32_inverse [of "take 4 f" be] l by simp
  then show ?thesis by (cases be) simp_all
qed

lemma jffs2_endianness_magic:
  "jffs2_detect_endianness f = Some be \<Longrightarrow> take 2 f = encode_u16 JFFS2_MAGIC False \<or> take 2 f = encode_u16 JFFS2_MAGIC True"
proof -
  assume a: "jffs2_detect_endianness f = Some be"
  then have r: "crimp_fs_decode_u16 (take 2 f) False = JFFS2_MAGIC \<or> crimp_fs_decode_u16 (take 2 f) True = JFFS2_MAGIC"
    and l: "2 \<le> length f"
    by (auto simp: jffs2_detect_endianness_def read_at_def crimp_fs_seek64_def file_read_def
        Option.bind_eq_Some_conv split: if_splits)
  then show ?thesis
    using decode_u16_inverse [of "take 2 f" False] decode_u16_inverse [of "take 2 f" True] l by auto
qed

lemma magic_prefixes:
  "encode_u32 CRAMFS_MAGIC False = [0x45, 0x3d, 0xcd, 0x28]" "encode_u32 CRAMFS_MAGIC True = [0x28, 0xcd, 0x3d, 0x45]"
  "encode_u16 JFFS2_MAGIC False = [0x85, 0x19]" "encode_u16 JFFS2_MAGIC True = [0x19, 0x85]"
  by code_simp+

lemma magics_exclusive:
  "squashfs_read_superblock f \<noteq> None \<Longrightarrow> cramfs_read_superblock f = None \<and> jffs2_detect_endianness f = None"
  "cramfs_read_superblock f \<noteq> None \<Longrightarrow> jffs2_detect_endianness f = None"
proof -
  have two: "take 4 f = v \<Longrightarrow> take 2 f = take 2 v" for v
    using take_take [of 2 4 f] by (simp add: min_def)
  have j: "jffs2_detect_endianness f = None" if "take 4 f = v" "take 2 v \<notin> {[0x85, 0x19], [0x19, 0x85]}" for v
    using jffs2_endianness_magic [of f] two [OF that(1)] that(2) unfolding magic_prefixes
    by (cases "jffs2_detect_endianness f") auto
  show "squashfs_read_superblock f \<noteq> None \<Longrightarrow> cramfs_read_superblock f = None \<and> jffs2_detect_endianness f = None"
  proof -
    assume "squashfs_read_superblock f \<noteq> None"
    then have s: "take 4 f = [0x68, 0x73, 0x71, 0x73]" using squashfs_superblock_magic by auto
    then have "cramfs_read_superblock f = None"
      using cramfs_superblock_magic [of f] unfolding magic_prefixes by (cases "cramfs_read_superblock f") auto
    with j [OF s] show ?thesis by simp
  qed
  show "cramfs_read_superblock f \<noteq> None \<Longrightarrow> jffs2_detect_endianness f = None"
  proof -
    assume "cramfs_read_superblock f \<noteq> None"
    then have "take 4 f = [0x45, 0x3d, 0xcd, 0x28] \<or> take 4 f = [0x28, 0xcd, 0x3d, 0x45]"
      using cramfs_superblock_magic unfolding magic_prefixes by blast
    then show ?thesis by (elim disjE) (erule j, simp)+
  qed
qed

section \<open>What \<open>remove_tree\<close> removes\<close>

lemma lookup_remove_cases: "lookup (sys_remove p d) q = lookup d q \<or> lookup (sys_remove p d) q = None \<and> q = p"
  by (auto simp: sys_remove_def split: option.split fnode.split)

lemma remove_tree_only:
  "lookup (remove_tree p d) q = lookup d q \<or> lookup (remove_tree p d) q = None \<and> at_or_below p q"
proof (induction p d rule: remove_tree.induct)
  case (1 p d)
  show ?case
  proof (cases "is_real_directory_not_symlink d p")
    case False
    then show ?thesis using lookup_remove_cases [of p d q] by (auto simp: remove_tree.simps [of p d] at_or_below_def)
  next
    case True
    define names where "names = filter (\<lambda>n. n \<noteq> ''.'' \<and> n \<noteq> ''..'') (readdir_names d p)"
    have sub: "at_or_below (path_join p n) q \<Longrightarrow> at_or_below p q" for n
      by (metis at_or_below_def below_path_join below_trans)
    have "lookup (foldl (\<lambda>d n. if length (path_join p n) \<ge> 1280 then d else remove_tree (path_join p n) d) d' ns) q = lookup d' q \<or>
        lookup (foldl (\<lambda>d n. if length (path_join p n) \<ge> 1280 then d else remove_tree (path_join p n) d) d' ns) q = None \<and> at_or_below p q"
      if "set ns \<subseteq> set names" for ns d'
      using that
    proof (induction ns arbitrary: d')
      case (Cons n ns)
      have step: "lookup (remove_tree (path_join p n) d') q = lookup d' q \<or>
          lookup (remove_tree (path_join p n) d') q = None \<and> at_or_below p q" if "\<not> 1280 \<le> length (path_join p n)"
        using "1.IH" [of names n d'] True that Cons.prems sub unfolding names_def by auto
      show ?case
        using Cons.IH [of "if length (path_join p n) \<ge> 1280 then d' else remove_tree (path_join p n) d'"] Cons.prems step
        by (auto split: if_splits)
    qed simp
    note all = this [of names d, OF order_refl]
    define d' where "d' = foldl (\<lambda>d n. if length (path_join p n) \<ge> 1280 then d else remove_tree (path_join p n) d) d names"
    have "remove_tree p d = sys_remove p d'"
      using True unfolding d'_def by (simp add: remove_tree.simps [of p d] names_def [symmetric] Let_def)
    moreover have "at_or_below p p" by (simp add: at_or_below_def)
    ultimately show ?thesis using all [folded d'_def] lookup_remove_cases [of p d' q] by metis
  qed
qed

text \<open>
  A tree whose every node below \<open>p\<close> is an ordinary name in a real directory and has a
  path that fits the 1280-byte buffer.
\<close>

definition tree_ok :: "disk \<Rightarrow> string \<Rightarrow> bool" where
  "tree_ok d p \<longleftrightarrow> (\<forall>q. below p q \<and> lookup d q \<noteq> None \<longrightarrow> length q < 1280 \<and>
     (\<exists>dir n. q = path_join dir n \<and> n \<noteq> [] \<and> CHR ''/'' \<notin> set n \<and> n \<noteq> ''.'' \<and> n \<noteq> ''..'' \<and>
        at_or_below p dir \<and> lookup d dir = Some Directory))"

lemma readdir_member:
  "lookup d (path_join p n) \<noteq> None \<Longrightarrow> n \<noteq> [] \<Longrightarrow> CHR ''/'' \<notin> set n \<Longrightarrow> n \<in> set (readdir_names d p)"
proof -
  assume a: "lookup d (path_join p n) \<noteq> None" "n \<noteq> []" "CHR ''/'' \<notin> set n"
  then obtain x where "(path_join p n, x) \<in> set d" unfolding lookup_def by (metis map_of_SomeD not_Some_eq)
  moreover have "drop (length p + 1) (path_join p n) = n" by (simp add: path_join_def)
  ultimately show ?thesis using a unfolding readdir_names_def by (force simp: image_iff)
qed

lemma tree_child:
  assumes "tree_ok d p"
  shows "below p q \<Longrightarrow> lookup d q \<noteq> None \<Longrightarrow> lookup d p = Some Directory \<and>
    (\<exists>n \<in> set (readdir_names d p). n \<noteq> ''.'' \<and> n \<noteq> ''..'' \<and> length (path_join p n) < 1280 \<and> at_or_below (path_join p n) q)"
proof (induction "length q" arbitrary: q rule: less_induct)
  case less
  then obtain dir n where q: "length q < 1280" "q = path_join dir n" "n \<noteq> []" "CHR ''/'' \<notin> set n"
    "n \<noteq> ''.''" "n \<noteq> ''..''" "at_or_below p dir" "lookup d dir = Some Directory"
    using assms unfolding tree_ok_def by blast
  show ?case
  proof (cases "dir = p")
    case True
    then have "n \<in> set (readdir_names d p)" using readdir_member less.prems(2) q by simp
    with True q show ?thesis by (metis at_or_below_def)
  next
    case False
    then have "below p dir" using q(7) by (simp add: at_or_below_def)
    moreover have "length dir < length q" using q(2) by (simp add: path_join_def)
    ultimately obtain m where "lookup d p = Some Directory" "m \<in> set (readdir_names d p)" "m \<noteq> ''.''" "m \<noteq> ''..''"
      "length (path_join p m) < 1280" "at_or_below (path_join p m) dir"
      using less.hyps [of dir] q(8) by auto
    moreover have "at_or_below (path_join p m) q"
      using \<open>at_or_below (path_join p m) dir\<close> q(2) by (metis at_or_below_def below_path_join below_trans)
    ultimately show ?thesis by blast
  qed
qed

lemma tree_ok_child:
  assumes "tree_ok d p" and "\<And>q. at_or_below (path_join p n) q \<Longrightarrow> lookup d' q = lookup d q"
    and "CHR ''/'' \<notin> set n"
  shows "tree_ok d' (path_join p n)"
  unfolding tree_ok_def
proof (intro allI impI)
  fix q assume q: "below (path_join p n) q \<and> lookup d' q \<noteq> None"
  then have "below p q" "lookup d q \<noteq> None" using assms(2) by (auto simp: at_or_below_def intro: below_trans [OF below_path_join])
  then obtain dir m where m: "length q < 1280" "q = path_join dir m" "m \<noteq> []" "CHR ''/'' \<notin> set m" "m \<noteq> ''.''" "m \<noteq> ''..''"
      "at_or_below p dir" "lookup d dir = Some Directory"
    using assms(1) unfolding tree_ok_def by blast
  have "at_or_below (path_join p n) dir"
  proof -
    from q obtain rel where "q = path_join (path_join p n) rel" by (auto simp: below_iff)
    then have "dir @ ''/'' @ m = path_join p n @ ''/'' @ rel" using m(2) by (simp add: path_join_def)
    then obtain u where "dir = path_join p n @ u \<and> u @ ''/'' @ m = ''/'' @ rel \<or> dir @ u = path_join p n \<and> ''/'' @ m = u @ ''/'' @ rel"
      by (auto simp: append_eq_append_conv2)
    then show ?thesis
    proof
      assume "dir = path_join p n @ u \<and> u @ ''/'' @ m = ''/'' @ rel"
      then show ?thesis unfolding at_or_below_iff by (cases u) auto
    next
      assume u: "dir @ u = path_join p n \<and> ''/'' @ m = u @ ''/'' @ rel"
      then have "u = []" using m(4) by (cases u) auto
      with u show ?thesis by (simp add: at_or_below_def)
    qed
  qed
  with m assms(2) show "length q < 1280 \<and> (\<exists>dir m. q = path_join dir m \<and> m \<noteq> [] \<and> CHR ''/'' \<notin> set m \<and> m \<noteq> ''.'' \<and> m \<noteq> ''..'' \<and>
      at_or_below (path_join p n) dir \<and> lookup d' dir = Some Directory)" by metis
qed

lemma readdir_plain: "n \<in> set (readdir_names d p) \<Longrightarrow> CHR ''/'' \<notin> set n"
  by (auto simp: readdir_names_def)

lemma siblings_apart:
  "CHR ''/'' \<notin> set a \<Longrightarrow> CHR ''/'' \<notin> set b \<Longrightarrow> at_or_below (path_join p a) q \<Longrightarrow> at_or_below (path_join p b) q \<Longrightarrow> a = b"
proof -
  assume a: "CHR ''/'' \<notin> set a" "CHR ''/'' \<notin> set b" "at_or_below (path_join p a) q" "at_or_below (path_join p b) q"
  have "takeWhile (\<lambda>c. c \<noteq> CHR ''/'') (drop (length p + 1) q) = n" if n: "CHR ''/'' \<notin> set n" "at_or_below (path_join p n) q" for n
  proof -
    obtain r where r: "q = path_join p n @ r" "r = [] \<or> hd r = CHR ''/''" using n(2) unfolding at_or_below_iff by blast
    then have "drop (length p + 1) q = n @ r" by (simp add: path_join_def)
    then show ?thesis using n(1) r(2) by (cases r) (auto simp: takeWhile_tail takeWhile_eq_all_conv)
  qed
  then show ?thesis using a by metis
qed

text \<open>The loop over the entries of one directory.\<close>

definition remove_entry :: "string \<Rightarrow> disk \<Rightarrow> string \<Rightarrow> disk" where
  "remove_entry p d n = (if length (path_join p n) \<ge> 1280 then d else remove_tree (path_join p n) d)"

lemma remove_entries_only:
  "lookup (foldl (remove_entry p) d ns) q = lookup d q \<or>
   lookup (foldl (remove_entry p) d ns) q = None \<and> (\<exists>n \<in> set ns. at_or_below (path_join p n) q)"
proof (induction ns arbitrary: d)
  case (Cons n ns)
  have "lookup (remove_entry p d n) q = lookup d q \<or> lookup (remove_entry p d n) q = None \<and> at_or_below (path_join p n) q"
    using remove_tree_only [of "path_join p n" d q] by (simp add: remove_entry_def)
  then show ?case using Cons [of "remove_entry p d n"] by auto
qed simp

lemma remove_entries_all:
  assumes "tree_ok d p" and plain: "\<And>n. n \<in> set ns \<Longrightarrow> CHR ''/'' \<notin> set n"
    and each: "\<And>n d q. n \<in> set ns \<Longrightarrow> length (path_join p n) < 1280 \<Longrightarrow> tree_ok d (path_join p n) \<Longrightarrow>
        at_or_below (path_join p n) q \<Longrightarrow> lookup (remove_tree (path_join p n) d) q = None"
    and "n \<in> set ns" and "length (path_join p n) < 1280" and "at_or_below (path_join p n) q"
  shows "lookup (foldl (remove_entry p) d ns) q = None"
  using assms(2-)
proof (induction ns rule: rev_induct)
  case (snoc m ns)
  show ?case
  proof (cases "n \<in> set ns")
    case True
    then have "lookup (foldl (remove_entry p) d ns) q = None" using snoc by simp
    then show ?thesis using remove_entries_only [of p "foldl (remove_entry p) d ns" "[m]" q] by auto
  next
    case False
    then have nm: "n = m" using snoc.prems by simp
    have "lookup (foldl (remove_entry p) d ns) r = lookup d r" if "at_or_below (path_join p n) r" for r
    proof -
      have "k = n" if "k \<in> set ns" "at_or_below (path_join p k) r" for k
        using siblings_apart [OF _ _ that(2) \<open>at_or_below (path_join p n) r\<close>] snoc.prems(1,3) that(1) by auto
      then show ?thesis using remove_entries_only [of p d ns r] False by blast
    qed
    then have "tree_ok (foldl (remove_entry p) d ns) (path_join p n)"
      using tree_ok_child [OF assms(1)] snoc.prems(1,3) by auto
    then have "lookup (remove_tree (path_join p n) (foldl (remove_entry p) d ns)) q = None"
      by (rule snoc.prems(2) [OF snoc.prems(3,4) _ snoc.prems(5)])
    then show ?thesis using snoc.prems(4) by (simp add: nm [symmetric] remove_entry_def [of p _ n])
  qed
qed simp

lemma remove_tree_all:
  "tree_ok d p \<Longrightarrow> at_or_below p q \<Longrightarrow> lookup (remove_tree p d) q = None"
proof (induction p d arbitrary: q rule: remove_tree.induct)
  case (1 p d)
  show ?case
  proof (cases "is_real_directory_not_symlink d p")
    case False
    then have nd: "lookup d p \<noteq> Some Directory" by (simp add: is_real_directory_not_symlink_def)
    then have "below p q \<Longrightarrow> lookup d q = None" using tree_child [OF "1.prems"(1)] by blast
    with nd "1.prems"(2) False lookup_remove_cases [of p d q] show ?thesis
      by (auto simp: remove_tree.simps [of p d] at_or_below_def lookup_remove_file)
  next
    case True
    define names where "names = filter (\<lambda>n. n \<noteq> ''.'' \<and> n \<noteq> ''..'') (readdir_names d p)"
    have plain: "n \<in> set names \<Longrightarrow> CHR ''/'' \<notin> set n" for n by (auto simp: names_def readdir_plain)
    have each: "lookup (remove_tree (path_join p n) e) r = None"
      if "n \<in> set names" "length (path_join p n) < 1280" "tree_ok e (path_join p n)" "at_or_below (path_join p n) r" for n e r
      using "1.IH" [of names n e r] that True unfolding names_def by auto
    have gone: "lookup (foldl (remove_entry p) d names) r = None" if pr: "below p r" for r
    proof (cases "lookup d r = None")
      case True then show ?thesis using remove_entries_only [of p d names r] by auto
    next
      case False
      then obtain n where "n \<in> set names" "length (path_join p n) < 1280" "at_or_below (path_join p n) r"
        using tree_child [OF "1.prems"(1) pr] by (auto simp: names_def)
      then show ?thesis by (intro remove_entries_all [OF "1.prems"(1) plain each])
    qed
    then have "\<not> has_children (foldl (remove_entry p) d names) p" by (auto simp: has_children_iff)
    moreover have "lookup (foldl (remove_entry p) d names) p = lookup d p"
      using remove_entries_only [of p d names p] by (auto simp: at_or_below_def) (metis below_path_join below_trans not_below_self)
    ultimately have "remove_tree p d = drop_path p (foldl (remove_entry p) d names)"
      using True by (simp add: remove_tree.simps [of p d] names_def [symmetric] remove_entry_def [abs_def] Let_def
          sys_remove_def is_real_directory_not_symlink_def)
    then show ?thesis using "1.prems"(2) gone by (auto simp: at_or_below_def)
  qed
qed

section \<open>Dispatch and replacement\<close>

definition reader_of ::
  "codec \<Rightarrow> crimp_fs_type \<Rightarrow> string \<Rightarrow> string \<Rightarrow> disk \<Rightarrow> bool \<times> crimp_fs_entry_list \<times> disk" where
  "reader_of cx type =
     (case type of CRIMP_FS_SQUASHFS \<Rightarrow> crimp_squashfs_extract cx
      | CRIMP_FS_CRAMFS \<Rightarrow> crimp_cramfs_extract cx
      | CRIMP_FS_JFFS2 \<Rightarrow> crimp_jffs2_extract cx
      | _ \<Rightarrow> (\<lambda>path dir d. (False, vec_init, d)))"

definition info_of :: "crimp_fs_type \<Rightarrow> disk \<Rightarrow> string \<Rightarrow> crimp_fs_info option" where
  "info_of type =
     (case type of CRIMP_FS_SQUASHFS \<Rightarrow> crimp_squashfs_identify
      | CRIMP_FS_CRAMFS \<Rightarrow> crimp_cramfs_identify
      | CRIMP_FS_JFFS2 \<Rightarrow> crimp_jffs2_identify
      | _ \<Rightarrow> (\<lambda>d path. None))"

definition lister_of :: "codec \<Rightarrow> crimp_fs_type \<Rightarrow> disk \<Rightarrow> string \<Rightarrow> bool \<times> crimp_fs_entry_list" where
  "lister_of cx type d path =
     (case type of CRIMP_FS_SQUASHFS \<Rightarrow> crimp_squashfs_list cx d path crimp_fs_entry_list_init
      | CRIMP_FS_CRAMFS \<Rightarrow> crimp_cramfs_list cx d path crimp_fs_entry_list_init
      | CRIMP_FS_JFFS2 \<Rightarrow> crimp_jffs2_list cx d path
      | _ \<Rightarrow> (False, crimp_fs_entry_list_init))"

text \<open>Whatever the type, the reader of it keeps the contract.\<close>

lemma squashfs_kept: "fs_extractor (reader_of cx CRIMP_FS_SQUASHFS) (info_of CRIMP_FS_SQUASHFS)
    (\<lambda>d path l0. lister_of cx CRIMP_FS_SQUASHFS d path) (codec_bounded cx)"
  unfolding reader_of_def info_of_def lister_of_def crimp_fs_type.case
  by (rule fs_extractor_weaken [OF squashfs_extractor.fs_extractor_axioms])

lemma cramfs_kept: "fs_extractor (reader_of cx CRIMP_FS_CRAMFS) (info_of CRIMP_FS_CRAMFS)
    (\<lambda>d path l0. lister_of cx CRIMP_FS_CRAMFS d path) (codec_bounded cx)"
  unfolding reader_of_def info_of_def lister_of_def crimp_fs_type.case
  by (rule fs_extractor_weaken [OF cramfs_extractor.fs_extractor_axioms]) simp

lemma jffs2_kept: "fs_extractor (reader_of cx CRIMP_FS_JFFS2) (info_of CRIMP_FS_JFFS2)
    (\<lambda>d path l0. lister_of cx CRIMP_FS_JFFS2 d path) (codec_bounded cx)"
  unfolding reader_of_def info_of_def lister_of_def crimp_fs_type.case
  by (rule fs_extractor_weaken [OF jffs2_extractor.fs_extractor_axioms]) simp

lemma unknown_kept: "fs_extractor (reader_of cx CRIMP_FS_UNKNOWN) (info_of CRIMP_FS_UNKNOWN)
    (\<lambda>d path l0. lister_of cx CRIMP_FS_UNKNOWN d path) sized"
  by unfold_locales (simp_all add: reader_of_def info_of_def lister_of_def vec_init_def)

interpretation any_reader: fs_extractor
  "reader_of cx type" "info_of type" "\<lambda>d path l0. lister_of cx type d path" "codec_bounded cx" for cx type
  by (cases type) (simp_all only: squashfs_kept cramfs_kept jffs2_kept unknown_kept)

lemma identify_exclusive:
  "crimp_squashfs_identify d path \<noteq> None \<Longrightarrow> crimp_cramfs_identify d path = None \<and> crimp_jffs2_identify d path = None"
  "crimp_cramfs_identify d path \<noteq> None \<Longrightarrow> crimp_jffs2_identify d path = None"
  using magics_exclusive [of "the (fopen_rb path d)"]
  by (cases "fopen_rb path d";
      auto simp: crimp_squashfs_identify_def crimp_cramfs_identify_def crimp_jffs2_identify_def bind_eq_None_conv)+

lemma identify_type:
  "crimp_squashfs_identify d path = Some i \<Longrightarrow> fi_type i = CRIMP_FS_SQUASHFS"
  "crimp_cramfs_identify d path = Some i \<Longrightarrow> fi_type i = CRIMP_FS_CRAMFS"
  "crimp_jffs2_identify d path = Some i \<Longrightarrow> fi_type i = CRIMP_FS_JFFS2"
  by (auto simp: crimp_squashfs_identify_def crimp_cramfs_identify_def crimp_jffs2_identify_def
      bind_eq_Some_conv)

lemma changed_union: "changed a b \<subseteq> S \<Longrightarrow> changed b c \<subseteq> T \<Longrightarrow> changed a c \<subseteq> S \<union> T"
  unfolding changed_def subset_iff Un_iff mem_Collect_eq by metis

lemma dispatch_frame:
  "changed d (snd (extract_dispatch cx path dir d)) \<subseteq> {q. at_or_below dir q} \<and>
   (fst (extract_dispatch cx path dir d) \<longrightarrow> lookup (snd (extract_dispatch cx path dir d)) dir = Some Directory)"
proof -
  obtain ok1 e1 d1 where s: "crimp_squashfs_extract cx path dir d = (ok1, e1, d1)" by (rule prod_cases3)
  obtain ok2 e2 d2 where c: "crimp_cramfs_extract cx path dir d1 = (ok2, e2, d2)" by (rule prod_cases3)
  obtain ok3 e3 d3 where j: "crimp_jffs2_extract cx path dir d2 = (ok3, e3, d3)" by (rule prod_cases3)
  have f: "changed d d1 \<subseteq> {q. at_or_below dir q}" "changed d1 d2 \<subseteq> {q. at_or_below dir q}" "changed d2 d3 \<subseteq> {q. at_or_below dir q}"
    using squashfs_extractor.writes_below [of d cx path dir] cramfs_extractor.writes_below [of d1 cx path dir]
      jffs2_extractor.writes_below [of d2 cx path dir] s c j by simp_all
  have l: "ok1 \<Longrightarrow> lookup d1 dir = Some Directory" "ok2 \<Longrightarrow> lookup d2 dir = Some Directory" "ok3 \<Longrightarrow> lookup d3 dir = Some Directory"
    using squashfs_extractor.leaves_directory [of cx path dir d] cramfs_extractor.leaves_directory [of cx path dir d1]
      jffs2_extractor.leaves_directory [of cx path dir d2] s c j by simp_all
  show ?thesis
    using f(1) changed_trans [OF f(1,2)] changed_trans [OF changed_trans [OF f(1,2)] f(3)] l s c j
    by (cases ok1; cases ok2; cases ok3) (simp_all add: extract_dispatch_def)
qed

lemma dispatch_identified:
  assumes "lookup d path = Some (RegFile f)" and "\<not> at_or_below dir path"
  shows "extract_dispatch cx path dir d =
    (case crimp_fs_identify d path of None \<Rightarrow> (False, d)
     | Some i \<Rightarrow> (case reader_of cx (fi_type i) path dir d of (ok, entries, d') \<Rightarrow> (ok, d')))"
proof -
  obtain ok1 e1 d1 where s: "crimp_squashfs_extract cx path dir d = (ok1, e1, d1)" by (rule prod_cases3)
  obtain ok2 e2 d2 where c: "crimp_cramfs_extract cx path dir d1 = (ok2, e2, d2)" by (rule prod_cases3)
  obtain ok3 e3 d3 where j: "crimp_jffs2_extract cx path dir d2 = (ok3, e3, d3)" by (rule prod_cases3)
  have k1: "lookup d1 path = Some (RegFile f)" using squashfs_extractor.keeps_image [OF assms, of cx path] s by simp
  have k2: "lookup d2 path = Some (RegFile f)" using cramfs_extractor.keeps_image [OF k1 assms(2), of cx path] c by simp
  have same: "crimp_squashfs_identify d1 path = crimp_squashfs_identify d path"
    "crimp_cramfs_identify d1 path = crimp_cramfs_identify d path" "crimp_squashfs_identify d2 path = crimp_squashfs_identify d path"
    "crimp_cramfs_identify d2 path = crimp_cramfs_identify d path" "crimp_jffs2_identify d2 path = crimp_jffs2_identify d path"
    using squashfs_extractor.identifies_bytes cramfs_extractor.identifies_bytes jffs2_extractor.identifies_bytes assms(1) k1 k2
    by metis+
  have no_s: "\<not> ok1 \<and> d1 = d" if "crimp_squashfs_identify d path = None"
    using squashfs_extractor.inert [OF that, of cx dir] s by simp
  have no_c: "\<not> ok2 \<and> d2 = d1" if "crimp_cramfs_identify d path = None"
    using cramfs_extractor.inert [of d1 path cx dir] that same c by simp
  have no_j: "\<not> ok3 \<and> d3 = d2" if "crimp_jffs2_identify d path = None"
    using jffs2_extractor.inert [of d2 path cx dir] that same j by simp
  consider (sq) i where "crimp_squashfs_identify d path = Some i" | (cr) i where "crimp_squashfs_identify d path = None" "crimp_cramfs_identify d path = Some i"
    | (jf) i where "crimp_squashfs_identify d path = None" "crimp_cramfs_identify d path = None" "crimp_jffs2_identify d path = Some i"
    | (no) "crimp_squashfs_identify d path = None" "crimp_cramfs_identify d path = None" "crimp_jffs2_identify d path = None"
    by (meson not_Some_eq)
  then show ?thesis
  proof cases
    case sq
    then have "crimp_cramfs_identify d path = None" "crimp_jffs2_identify d path = None" using identify_exclusive(1) by simp_all
    then show ?thesis using sq s c j no_c no_j identify_type(1)
      by (cases ok1) (auto simp: extract_dispatch_def crimp_fs_identify_def reader_of_def)
  next
    case cr
    then have "crimp_jffs2_identify d path = None" using identify_exclusive(2) by simp
    then show ?thesis using cr s c j no_s no_j identify_type(2)
      by (cases ok2) (auto simp: extract_dispatch_def crimp_fs_identify_def reader_of_def)
  next
    case jf
    then show ?thesis using s c j no_s no_c identify_type(3)
      by (cases ok3) (auto simp: extract_dispatch_def crimp_fs_identify_def reader_of_def)
  next
    case no
    then show ?thesis using s c j no_s no_c no_j
      by (simp add: extract_dispatch_def crimp_fs_identify_def)
  qed
qed

lemma remove_tree_changed: "changed d (remove_tree p d) \<subseteq> {q. at_or_below p q}"
  using remove_tree_only [of p d] by (fastforce simp: changed_def)

lemma staging_apart [simp]: "\<not> at_or_below od (staging_dir od)" "\<not> at_or_below (staging_dir od) od" "staging_dir od \<noteq> od"
  by (auto simp: at_or_below_iff staging_dir_def)

lemma extract_frame:
  "changed d (snd (crimp_fs_extract cx path od d)) \<subseteq> {q. at_or_below (staging_dir od) q} \<union>
     (if fst (extract_dispatch cx path (staging_dir od) (remove_tree (staging_dir od) d)) then {q. at_or_below od q} else {})"
proof (cases "length (staging_dir od) \<ge> 1280")
  case True
  then show ?thesis by (simp add: crimp_fs_extract_def)
next
  case False
  let ?tmp = "staging_dir od"
  define d0 where "d0 = remove_tree ?tmp d"
  obtain ok d1 where x: "extract_dispatch cx path ?tmp d0 = (ok, d1)" by fastforce
  have c1: "changed d d1 \<subseteq> {q. at_or_below ?tmp q}"
    using changed_trans [OF remove_tree_changed [of d ?tmp]] dispatch_frame [of d0 cx path ?tmp] x unfolding d0_def by simp
  show ?thesis
  proof (cases ok)
    case False
    have "changed d (remove_tree ?tmp d1) \<subseteq> {q. at_or_below ?tmp q}"
      by (rule changed_trans [OF c1 remove_tree_changed])
    then show ?thesis using False x \<open>\<not> 1280 \<le> length ?tmp\<close>
      by (simp add: crimp_fs_extract_def d0_def [symmetric])
  next
    case True
    define d2 where "d2 = remove_tree od d1"
    have c2: "changed d d2 \<subseteq> {q. at_or_below ?tmp q} \<union> {q. at_or_below od q}"
      unfolding d2_def by (rule changed_union [OF c1 remove_tree_changed])
    show ?thesis
    proof (cases "sys_rename ?tmp od d2")
      case None
      then show ?thesis using c2 True x \<open>\<not> 1280 \<le> length ?tmp\<close>
        by (simp add: crimp_fs_extract_def d0_def [symmetric] d2_def [symmetric])
    next
      case (Some d3)
      have "changed d2 d3 \<subseteq> {q. at_or_below ?tmp q} \<union> {q. at_or_below od q}"
        by (auto simp: changed_def lookup_rename [OF Some] split: if_splits)
      then have "changed d d3 \<subseteq> {q. at_or_below ?tmp q} \<union> {q. at_or_below od q}"
        by (rule changed_trans [OF c2])
      then show ?thesis using Some True x \<open>\<not> 1280 \<le> length ?tmp\<close>
        by (simp add: crimp_fs_extract_def d0_def [symmetric] d2_def [symmetric])
    qed
  qed
qed

lemma extract_success:
  assumes "crimp_fs_extract cx path od d = (True, d')"
  obtains staged where "extract_dispatch cx path (staging_dir od) (remove_tree (staging_dir od) d) = (True, staged)"
    and "\<And>q. lookup d' q = (if at_or_below od q then lookup staged (staging_dir od @ drop (length od) q)
      else if at_or_below (staging_dir od) q then None else lookup d q)"
proof -
  let ?tmp = "staging_dir od"
  define d0 where "d0 = remove_tree ?tmp d"
  obtain ok d1 where x: "extract_dispatch cx path ?tmp d0 = (ok, d1)" by fastforce
  from assms x have ok: "ok" and rn: "sys_rename ?tmp od (remove_tree od d1) = Some d'"
    by (auto simp: crimp_fs_extract_def d0_def [symmetric] Let_def split: if_splits bool.splits option.splits)
  have c1: "changed d d1 \<subseteq> {q. at_or_below ?tmp q}"
    using changed_trans [OF remove_tree_changed [of d ?tmp]] dispatch_frame [of d0 cx path ?tmp] x unfolding d0_def by simp
  have same: "lookup (remove_tree od d1) r = lookup d1 r" if "\<not> at_or_below od r" for r
    using remove_tree_only [of od d1 r] that by blast
  have moved: "\<not> at_or_below od (?tmp @ drop (length od) q)" if "at_or_below od q" for q
    using that by (auto simp: at_or_below_iff staging_dir_def)
  have key: "lookup d' q = (if at_or_below od q then lookup d1 (?tmp @ drop (length od) q)
      else if at_or_below ?tmp q then None else lookup d q)" for q
  proof (cases "at_or_below od q")
    case True
    then show ?thesis using lookup_rename [OF rn, of q] same [OF moved [OF True]] by simp
  next
    case False
    have "lookup d1 q = lookup d q" if "\<not> at_or_below ?tmp q"
      using c1 that unfolding changed_def subset_iff mem_Collect_eq by metis
    then show ?thesis using lookup_rename [OF rn, of q] False same [OF False] by simp
  qed
  have "extract_dispatch cx path ?tmp (remove_tree ?tmp d) = (True, d1)" using x ok unfolding d0_def by simp
  then show ?thesis using key by (rule that)
qed

section \<open>Properties\<close>

text \<open>
  C33: An image is identified as a type exactly when that type's own check accepts it:
  no image is accepted by two of them, so the order in which they are tried does not
  matter.
\<close>

theorem identify_order_free:
  "(crimp_fs_identify d path = Some i) =
     (crimp_squashfs_identify d path = Some i \<or> crimp_cramfs_identify d path = Some i \<or>
      crimp_jffs2_identify d path = Some i) \<and>
   length (filter (\<lambda>r. r \<noteq> None)
     [crimp_squashfs_identify d path, crimp_cramfs_identify d path, crimp_jffs2_identify d path]) \<le> 1"
  using identify_exclusive [of d path]
  by (cases "crimp_squashfs_identify d path"; cases "crimp_cramfs_identify d path"; cases "crimp_jffs2_identify d path")
    (auto simp: crimp_fs_identify_def)

text \<open>
  C8: Each of the three readers, on any image whatever, well-formed or crafted, successful
  or not, changes nothing on the disk but the directory it is given and paths
  \<open>dir/rel\<close> with every component of \<open>rel\<close> a safe name, and every entry it reports has
  such a relative path.
\<close>

theorem readers_contained:
  "changed d (snd (snd (reader_of cx type path dir d))) \<subseteq> insert dir (inside dir) \<and>
   e_path ` set (v_items (fst (snd (reader_of cx type path dir d)))) \<subseteq> Collect safe_rel"
  using any_reader.writes_inside any_reader.reports_safe by blast

text \<open>
  Removing a tree changes nothing but paths at or below it, whatever links it holds
  (their targets stay), and the only change is that nodes are gone.
\<close>

lemma remove_tree_contained:
  "lookup (remove_tree p d) q = lookup d q \<or> (lookup (remove_tree p d) q = None \<and> at_or_below p q)"
  by (rule remove_tree_only)

text \<open>
  C31: When every node of the tree has an ordinary name in a real directory and a path
  that fits the buffer, nothing at or below the path is left and everything else is as
  it was.
\<close>

theorem remove_tree_complete:
  assumes "tree_ok d p"
  shows "lookup (remove_tree p d) q = (if at_or_below p q then None else lookup d q)"
  using remove_tree_all [OF assms] remove_tree_only [of p d q] by auto

definition sample_tree :: disk where
  "sample_tree = [(''t'', Directory), (''t/a'', RegFile [1]), (''t/s'', Directory), (''t/s/l'', SymLink ''x''), (''x'', RegFile [2])]"

lemma sample_tree_ok: "tree_ok sample_tree ''t''"
proof -
  have keys: "q \<in> {''t/a'', ''t/s'', ''t/s/l''}" if "below ''t'' q" "lookup sample_tree q \<noteq> None" for q
    using that by (auto simp: sample_tree_def lookup_def below_def split: if_splits)
  have k: "at_or_below ''t'' ''t''" "at_or_below ''t'' ''t/s''" by (simp_all add: at_or_below_def below_def)
  have l: "lookup sample_tree ''t'' = Some Directory" "lookup sample_tree ''t/s'' = Some Directory" by code_simp+
  have "length q < 1280 \<and> (\<exists>dir n. q = path_join dir n \<and> n \<noteq> [] \<and> CHR ''/'' \<notin> set n \<and> n \<noteq> ''.'' \<and> n \<noteq> ''..'' \<and>
      at_or_below ''t'' dir \<and> lookup sample_tree dir = Some Directory)"
    if bq: "below ''t'' q" and lq: "lookup sample_tree q \<noteq> None" for q
  proof -
    consider "q = path_join ''t'' ''a''" | "q = path_join ''t'' ''s''" | "q = path_join ''t/s'' ''l''"
      using keys [OF bq lq] by (auto simp: path_join_def)
    then show ?thesis
    proof cases
      case 1 then show ?thesis using k l by (intro conjI exI [of _ "''t''"] exI [of _ "''a''"]) (simp_all add: path_join_def)
    next
      case 2 then show ?thesis using k l by (intro conjI exI [of _ "''t''"] exI [of _ "''s''"]) (simp_all add: path_join_def)
    next
      case 3 then show ?thesis using k l by (intro conjI exI [of _ "''t/s''"] exI [of _ "''l''"]) (simp_all add: path_join_def)
    qed
  qed
  then show ?thesis unfolding tree_ok_def by blast
qed

theorem remove_tree_complete_witness:
  "lookup (remove_tree ''t'' sample_tree) ''t/s/l'' = None \<and> lookup (remove_tree ''t'' sample_tree) ''t'' = None \<and>
   lookup (remove_tree ''t'' sample_tree) ''x'' = Some (RegFile [2])"
proof -
  have b: "at_or_below ''t'' ''t/s/l''" "at_or_below ''t'' ''t''" "\<not> at_or_below ''t'' ''x''"
    by (simp_all add: at_or_below_def below_def)
  have x: "lookup sample_tree ''x'' = Some (RegFile [2])" by code_simp
  show ?thesis using remove_tree_complete [OF sample_tree_ok] b x by simp
qed

text \<open>
  C24: For an image file outside the target directory, trying the three readers one after
  the other is the same as running the reader of the identified type alone, and does
  nothing when no type is identified.
\<close>

theorem dispatch_runs_identified_reader:
  assumes "lookup d path = Some (RegFile f)" and "\<not> at_or_below dir path"
  shows "extract_dispatch cx path dir d =
    (case crimp_fs_identify d path of None \<Rightarrow> (False, d)
     | Some i \<Rightarrow> (case reader_of cx (fi_type i) path dir d of (ok, entries, d') \<Rightarrow> (ok, d')))"
  by (rule dispatch_identified [OF assms])

theorem dispatch_runs_identified_reader_witness:
  "extract_dispatch sample_codec ''i'' ''o'' [(''i'', RegFile (cramfs_sample_image True))] =
     (True, [(''i'', RegFile (cramfs_sample_image True)), (''o'', Directory), (''o/a'', RegFile [1, 2, 3])])"
proof -
  let ?d = "[(''i'', RegFile (cramfs_sample_image True))]"
  have l: "lookup ?d ''i'' = Some (RegFile (cramfs_sample_image True))" by (simp add: lookup_def)
  have b: "\<not> at_or_below ''o'' ''i''" by (simp add: at_or_below_def below_def)
  have "map_option fi_type (crimp_fs_identify ?d ''i'') = Some CRIMP_FS_CRAMFS" by code_simp
  then obtain i where i: "crimp_fs_identify ?d ''i'' = Some i" "fi_type i = CRIMP_FS_CRAMFS" by auto
  show ?thesis
    using dispatch_runs_identified_reader [OF l b, of sample_codec] i cramfs_sample_run by (simp add: reader_of_def)
qed

text \<open>
  C7: Extraction of any image, successful or not, changes nothing on the disk outside
  the output directory and its \<open>.tmp\<close> sibling, and nothing of the output directory
  either unless the staged extraction succeeded.
\<close>

theorem fs_extract_contained:
  "changed d (snd (crimp_fs_extract cx path od d)) \<subseteq> {q. at_or_below (staging_dir od) q} \<union>
     (if fst (extract_dispatch cx path (staging_dir od) (remove_tree (staging_dir od) d)) then {q. at_or_below od q} else {})"
  by (rule extract_frame)

text \<open>
  C6: After a successful extraction the output directory is exactly the tree that was
  extracted into the staging directory, with nothing of what it held before, the staging
  directory is gone and the rest of the disk is as it was.
\<close>

theorem fs_extract_replaces:
  assumes "crimp_fs_extract cx path od d = (True, d')"
  shows "\<exists>staged. extract_dispatch cx path (staging_dir od) (remove_tree (staging_dir od) d) = (True, staged) \<and>
    lookup d' = (\<lambda>q. if at_or_below od q then lookup staged (staging_dir od @ drop (length od) q)
      else if at_or_below (staging_dir od) q then None else lookup d q)"
  using extract_success [OF assms] by (metis (no_types, lifting) ext)

theorem fs_extract_replaces_witness:
  "lookup (snd (crimp_fs_extract sample_codec ''i'' ''o''
       [(''i'', RegFile (cramfs_sample_image True)), (''o'', Directory), (''o/old'', RegFile [9])])) ''o/a'' = Some (RegFile [1, 2, 3]) \<and>
   lookup (snd (crimp_fs_extract sample_codec ''i'' ''o''
       [(''i'', RegFile (cramfs_sample_image True)), (''o'', Directory), (''o/old'', RegFile [9])])) ''o/old'' = None"
proof -
  define d where "d = [(''i'', RegFile (cramfs_sample_image True)), (''o'', Directory), (''o/old'', RegFile [9])]"
  have ok: "fst (crimp_fs_extract sample_codec ''i'' ''o'' d)" unfolding d_def by code_simp
  obtain d' where r: "crimp_fs_extract sample_codec ''i'' ''o'' d = (True, d')" using ok by (metis (full_types) prod.collapse)
  have st: "staging_dir ''o'' = ''o.tmp''" "length ''o'' = 1" by (simp_all add: staging_dir_def)
  obtain staged where s: "extract_dispatch sample_codec ''i'' ''o.tmp'' (remove_tree ''o.tmp'' d) = (True, staged)"
    and l: "lookup d' = (\<lambda>q. if at_or_below ''o'' q then lookup staged (''o.tmp'' @ drop 1 q)
      else if at_or_below ''o.tmp'' q then None else lookup d q)"
    using fs_extract_replaces [OF r] unfolding st by blast
  have "lookup (snd (extract_dispatch sample_codec ''i'' ''o.tmp'' (remove_tree ''o.tmp'' d))) ''o.tmp/a'' = Some (RegFile [1, 2, 3])"
    "lookup (snd (extract_dispatch sample_codec ''i'' ''o.tmp'' (remove_tree ''o.tmp'' d))) ''o.tmp/old'' = None"
    unfolding d_def by code_simp+
  then show ?thesis unfolding d_def [symmetric] r using s l by (simp add: at_or_below_def below_def)
qed

end
