(* ===== verification/ExtractTree.thy ===== *)
theory ExtractTree
  imports FsExtract
begin

text \<open>
  What the output directory of \<open>crimp_fs_extract\<close> is: that removing, renaming and
  extracting keep directories under directories, that after a success the directory
  holds exactly what listing the image reports, and what is left of it when the
  replacement at the end fails.
\<close>

section \<open>The directory a path is in\<close>

lemma disk_wf_iff:
  "disk_wf d \<longleftrightarrow> lookup d [] = None \<and>
     (\<forall>r n. CHR ''/'' \<notin> set n \<longrightarrow> lookup d (path_join r n) \<noteq> None \<longrightarrow> r = [] \<or> lookup d r = Some Directory)"
proof
  assume wf: "disk_wf d"
  show "lookup d [] = None \<and> (\<forall>r n. CHR ''/'' \<notin> set n \<longrightarrow> lookup d (path_join r n) \<noteq> None \<longrightarrow> r = [] \<or> lookup d r = Some Directory)"
    using wf parent_of_join by (force simp: disk_wf_def parent_ok_def)
next
  assume a: "lookup d [] = None \<and> (\<forall>r n. CHR ''/'' \<notin> set n \<longrightarrow> lookup d (path_join r n) \<noteq> None \<longrightarrow> r = [] \<or> lookup d r = Some Directory)"
  show "disk_wf d"
    unfolding disk_wf_def
  proof (intro allI impI)
    fix q assume q: "lookup d q \<noteq> None"
    with a have "q \<noteq> []" by auto
    with a q show "parent_ok d q"
      by (cases "parent_of q") (auto simp: parent_ok_def parent_of_Some parent_of_join)
  qed
qed

lemma disk_wf_parent:
  "disk_wf d \<Longrightarrow> lookup d (path_join r n) \<noteq> None \<Longrightarrow> CHR ''/'' \<notin> set n \<Longrightarrow> r \<noteq> [] \<Longrightarrow> lookup d r = Some Directory"
  by (auto simp: disk_wf_iff)

section \<open>Every call keeps directories under directories\<close>

lemma disk_wf_remove:
  assumes "disk_wf d"
  shows "disk_wf (sys_remove p d)"
proof -
  have "disk_wf (drop_path p d)" if leaf: "lookup d p = Some Directory \<Longrightarrow> \<not> has_children d p"
    unfolding disk_wf_iff
  proof (intro conjI allI impI)
    show "lookup (drop_path p d) [] = None" using assms by (simp add: disk_wf_iff)
    fix r n assume n: "CHR ''/'' \<notin> set n" and l: "lookup (drop_path p d) (path_join r n) \<noteq> None"
    then have "lookup d (path_join r n) \<noteq> None" by (auto split: if_splits)
    with assms n have r: "r = [] \<or> lookup d r = Some Directory" by (auto simp: disk_wf_iff)
    have "r \<noteq> p" if "r \<noteq> []"
    proof
      assume "r = p"
      with r that \<open>lookup d (path_join r n) \<noteq> None\<close> leaf show False by (auto simp: has_children_iff)
    qed
    with r show "r = [] \<or> lookup (drop_path p d) r = Some Directory" by auto
  qed
  then show ?thesis using assms by (auto simp: sys_remove_def split: option.split fnode.split)
qed

lemma disk_wf_remove_tree: "disk_wf d \<Longrightarrow> disk_wf (remove_tree p d)"
proof (induction p d rule: remove_tree.induct)
  case (1 p d)
  show ?case
  proof (cases "is_real_directory_not_symlink d p")
    case True
    define names where "names = filter (\<lambda>n. n \<noteq> ''.'' \<and> n \<noteq> ''..'') (readdir_names d p)"
    have "disk_wf (foldl (\<lambda>d n. if length (path_join p n) \<ge> 1280 then d else remove_tree (path_join p n) d) d' ns)"
      if "set ns \<subseteq> set names" "disk_wf d'" for ns d'
      using that
    proof (induction ns arbitrary: d')
      case (Cons n ns)
      then have "disk_wf (if length (path_join p n) \<ge> 1280 then d' else remove_tree (path_join p n) d')"
        using "1.IH" [of names n d'] True unfolding names_def by auto
      with Cons show ?case by simp
    qed simp
    from this [of names d] "1.prems" show ?thesis
      using True by (simp add: remove_tree.simps [of p d] names_def [symmetric] Let_def disk_wf_remove)
  qed (use "1.prems" in \<open>simp add: remove_tree.simps disk_wf_remove\<close>)
qed

lemma disk_wf_rename:
  assumes wf: "disk_wf d" and ren: "sys_rename old new d = Some d'" and "old \<noteq> new"
  shows "disk_wf d'"
proof -
  note l = lookup_rename [OF ren assms(3)]
  have ok: "parent_ok d new" and apart: "\<not> below old new" "\<not> below new old" and there: "lookup d old \<noteq> None"
    using ren assms(3) by (auto simp: sys_rename_def split: option.splits if_splits)
  have "old \<noteq> []" "new \<noteq> []" using there wf ok by (auto simp: disk_wf_iff parent_ok_def)
  have apart': "\<not> at_or_below old new" "\<not> at_or_below new old" using apart assms(3) by (auto simp: at_or_below_def)
  have empty: "\<not> at_or_below new []" using \<open>new \<noteq> []\<close> by (auto simp: at_or_below_iff)
  show ?thesis
    unfolding disk_wf_iff
  proof (intro conjI allI impI)
    show "lookup d' [] = None" using wf empty by (simp add: l disk_wf_iff)
    fix r n assume n: "CHR ''/'' \<notin> set n" and q: "lookup d' (path_join r n) \<noteq> None"
    show "r = [] \<or> lookup d' r = Some Directory"
    proof (cases "at_or_below new (path_join r n)")
      case True
      show ?thesis
      proof (cases "at_or_below new r")
        case True
        then obtain x where r: "r = new @ x" by (auto simp: at_or_below_iff)
        have "lookup d' (path_join r n) = lookup d (path_join (old @ x) n)"
          using \<open>at_or_below new (path_join r n)\<close> by (simp add: l r path_join_def)
        with q disk_wf_parent [OF wf _ n] \<open>old \<noteq> []\<close> have "lookup d (old @ x) = Some Directory" by simp
        with True show ?thesis by (simp add: l r)
      next
        case False
        with True n parent_at_or_below [of new r n] have new: "path_join r n = new" by (auto simp: at_or_below_def)
        have "\<not> at_or_below old r" using at_or_below_join [of old r n] apart' new by auto
        moreover have "r = [] \<or> lookup d r = Some Directory"
          using ok parent_of_join [OF n, of r] by (auto simp: parent_ok_def new [symmetric])
        ultimately show ?thesis using False by (simp add: l)
      qed
    next
      case out: False
      have "\<not> at_or_below old (path_join r n)" and there: "lookup d (path_join r n) \<noteq> None"
        using q out by (auto simp: l split: if_splits)
      then have "\<not> at_or_below old r" "\<not> at_or_below new r" using out at_or_below_join by blast+
      then show ?thesis using disk_wf_parent [OF wf there n] by (cases "r = []") (simp_all add: l)
    qed
  qed
qed

lemma dispatch_wf:
  assumes "disk_wf d"
  shows "disk_wf (snd (extract_dispatch cx path dir d))"
proof -
  obtain ok1 e1 d1 where s: "crimp_squashfs_extract cx path dir d = (ok1, e1, d1)" by (rule prod_cases3)
  obtain ok2 e2 d2 where c: "crimp_cramfs_extract cx path dir d1 = (ok2, e2, d2)" by (rule prod_cases3)
  obtain ok3 e3 d3 where j: "crimp_jffs2_extract cx path dir d2 = (ok3, e3, d3)" by (rule prod_cases3)
  have d1: "disk_wf d1" using squashfs_extractor.keeps_wf [OF assms, of cx path dir] s by simp
  have d2: "disk_wf d2" using cramfs_extractor.keeps_wf [OF d1, of cx path dir] c by simp
  have d3: "disk_wf d3" using jffs2_extractor.keeps_wf [OF d2, of cx path dir] j by simp
  show ?thesis using s c j d1 d2 d3 by (cases ok1; cases ok2; cases ok3) (simp_all add: extract_dispatch_def)
qed

lemma extract_wf:
  assumes "disk_wf d"
  shows "disk_wf (snd (crimp_fs_extract cx path od d))"
proof -
  obtain ok d1 where x: "extract_dispatch cx path (staging_dir od) (remove_tree (staging_dir od) d) = (ok, d1)" by fastforce
  have "disk_wf d1"
    using dispatch_wf [OF disk_wf_remove_tree [OF assms, of "staging_dir od"], of cx path "staging_dir od"] x by simp
  note wf = disk_wf_remove_tree [OF this, of "staging_dir od"] disk_wf_remove_tree [OF this, of od]
  have "disk_wf d3" if "sys_rename (staging_dir od) od (remove_tree od d1) = Some d3" for d3
    by (rule disk_wf_rename [OF wf(2) that]) simp
  with wf assms x show ?thesis
    by (cases ok; cases "sys_rename (staging_dir od) od (remove_tree od d1)") (simp_all add: crimp_fs_extract_def Let_def)
qed

section \<open>The output directory is the listing of the image\<close>

text \<open>
  A node of the output directory is what an entry of the listing says: a directory, or
  a regular file with the size that is listed.
\<close>

definition node_as_listed :: "crimp_fs_entry \<Rightarrow> fnode option \<Rightarrow> bool" where
  "node_as_listed e node \<longleftrightarrow>
     (if e_is_dir e then node = Some Directory
      else (case node of Some (RegFile bs) \<Rightarrow> length bs = unat (e_size e) | _ \<Rightarrow> False))"

text \<open>A directory that holds the items and nothing else.\<close>

definition tree_is :: "string \<Rightarrow> fs_item list \<Rightarrow> disk \<Rightarrow> bool" where
  "tree_is od items d \<longleftrightarrow> lookup d od = Some Directory \<and>
     (\<forall>it \<in> set items. item_on_disk od items d it \<and> length (path_join od (it_path it)) < 1280) \<and>
     (\<forall>rel. lookup d (path_join od rel) \<noteq> None \<longrightarrow>
        (\<exists>it \<in> set items. it_kind it \<noteq> OtherItem \<and> rel = it_path it))"

lemma item_node:
  assumes "tree_is dir items d" and "it \<in> set items" and "it_kind it \<noteq> OtherItem"
    and "list_all (item_ok True) items"
  shows "\<exists>it' \<in> set items. it_path it' = it_path it \<and>
    node_as_listed (item_entry it') (lookup d (path_join dir (it_path it)))"
proof -
  have on: "item_on_disk dir items d it" using assms(1,2) by (simp add: tree_is_def)
  show ?thesis
  proof (cases "it_kind it")
    case DirItem
    with on assms(2) show ?thesis
      by (intro bexI [of _ it]) (auto simp: item_on_disk_def node_as_listed_def item_entry_def)
  next
    case (RegItem c)
    with on obtain it' bs where it': "it' \<in> set items" "it_path it' = it_path it" "it_kind it' = RegItem (Some bs)"
      "lookup d (path_join dir (it_path it)) = Some (RegFile bs)" by (auto simp: item_on_disk_def)
    then have "length bs = unat (it_size it')" using assms(4) by (auto simp: list_all_iff item_ok_def)
    with it' show ?thesis by (intro bexI [of _ it']) (auto simp: node_as_listed_def item_entry_def)
  qed (use assms(3) in simp)
qed

lemma built_tree_moved:
  assumes built: "tree_built tmp items (snd (crimp_fs_make_directory tmp d0)) staged"
    and dir: "lookup staged tmp = Some Directory" and clean: "\<And>q. below tmp q \<Longrightarrow> lookup d0 q = None"
    and moved: "\<And>q. at_or_below od q \<Longrightarrow> lookup d' q = lookup staged (tmp @ drop (length od) q)"
    and shorter: "length od \<le> length tmp"
  shows "tree_is od items d'"
proof -
  have at: "lookup d' (path_join od rel) = lookup staged (path_join tmp rel)" for rel
    using moved [of "path_join od rel"] by (simp add: at_or_below_def) (simp add: path_join_def)
  have on: "item_on_disk od items d' it" if "item_on_disk tmp items staged it" for it
    using that by (simp add: item_on_disk_def at split: item_kind.splits)
  have only: "\<exists>it \<in> set items. it_kind it \<noteq> OtherItem \<and> rel = it_path it" if "lookup staged (path_join tmp rel) \<noteq> None" for rel
  proof -
    have "path_join tmp rel \<notin> changed d0 (snd (crimp_fs_make_directory tmp d0))"
      using make_directory_changed [of d0 tmp] by auto
    then have "lookup (snd (crimp_fs_make_directory tmp d0)) (path_join tmp rel) = None"
      using clean [of "path_join tmp rel"] by (simp add: changed_def)
    with that have "path_join tmp rel \<in> changed (snd (crimp_fs_make_directory tmp d0)) staged" by (simp add: changed_def)
    with built have "path_join tmp rel \<in> {path_join tmp (it_path it) | it. it \<in> set items \<and> it_kind it \<noteq> OtherItem}"
      unfolding tree_built_def by blast
    then show ?thesis by auto
  qed
  have "lookup d' od = Some Directory" using moved [of od] dir by (simp add: at_or_below_def)
  with built on only shorter show ?thesis
    unfolding tree_is_def tree_built_def at by (fastforce simp: path_join_def)
qed

lemma fopen_rb_same: "lookup d p = Some (RegFile f) \<Longrightarrow> lookup d2 p = Some (RegFile f) \<Longrightarrow> fopen_rb p d2 = fopen_rb p d"
  by (simp add: fopen_rb_plain)

lemma identify_bytes:
  assumes "fopen_rb p d2 = fopen_rb p d"
  shows "crimp_fs_identify d2 p = crimp_fs_identify d p"
proof -
  have "crimp_squashfs_identify d2 p = crimp_squashfs_identify d p"
    "crimp_cramfs_identify d2 p = crimp_cramfs_identify d p" "crimp_jffs2_identify d2 p = crimp_jffs2_identify d p"
    by (simp_all add: crimp_squashfs_identify_def crimp_cramfs_identify_def crimp_jffs2_identify_def assms)
  then show ?thesis by (simp only: crimp_fs_identify_def)
qed

lemma extract_tree:
  assumes run: "crimp_fs_extract cx path od d = (True, d')" and image: "lookup d path = Some (RegFile f)"
    and out: "\<not> at_or_below (staging_dir od) path" and tmp: "tree_ok d (staging_dir od)"
  obtains i out items where "crimp_fs_identify d path = Some i" and "lister_of cx (fi_type i) d path = (True, out)"
    and "v_items out = map item_entry items" and "list_all (item_ok (codec_bounded cx)) items" and "tree_is od items d'"
proof -
  let ?tmp = "staging_dir od"
  define d0 where "d0 = remove_tree ?tmp d"
  obtain staged where x: "extract_dispatch cx path ?tmp d0 = (True, staged)"
    and l: "\<And>q. lookup d' q = (if at_or_below od q then lookup staged (?tmp @ drop (length od) q)
      else if at_or_below ?tmp q then None else lookup d q)"
    using extract_success [OF run] unfolding d0_def by blast
  have image0: "lookup d0 path = Some (RegFile f)" using remove_tree_only [of ?tmp d path] image out by (simp add: d0_def)
  note same = fopen_rb_same [OF image image0] fopen_rb_same [OF image0 image]
  from x dispatch_identified [OF image0 out, of cx] obtain i r where i: "crimp_fs_identify d0 path = Some i"
    and r: "reader_of cx (fi_type i) path ?tmp d0 = (True, r, staged)"
    by (auto split: option.splits prod.splits)
  obtain items where items: "v_items r = map item_entry items" "list_all (item_ok (codec_bounded cx)) items"
    and built: "tree_built ?tmp items (snd (crimp_fs_make_directory ?tmp d0)) staged"
    using any_reader.builds [OF r] by blast
  have "tree_is od items d'"
  proof (rule built_tree_moved [OF built])
    show "lookup staged ?tmp = Some Directory" using dispatch_frame [of d0 cx path ?tmp] x by simp
    show "below ?tmp q \<Longrightarrow> lookup d0 q = None" for q
      using remove_tree_all [OF tmp] by (simp add: d0_def at_or_below_def)
    show "at_or_below od q \<Longrightarrow> lookup d' q = lookup staged (?tmp @ drop (length od) q)" for q
      by (simp add: l)
    show "length od \<le> length ?tmp" by (simp add: staging_dir_def)
  qed
  with items i identify_bytes [OF same(1)] any_reader.lists [OF r same(2)] show ?thesis
    by (intro that [of i r items]) simp_all
qed


section \<open>The extracted tree can be walked and removed again\<close>

lemma safe_rel_last:
  assumes "safe_rel rel"
  obtains dir n where "path_join p rel = path_join dir n" and "crimp_fs_path_component_is_safe n"
proof (cases "CHR ''/'' \<in> set rel")
  case True
  then obtain ys zs where r: "rel = ys @ CHR ''/'' # zs" "CHR ''/'' \<notin> set zs" by (metis split_list_last)
  then have j: "rel = path_join ys zs" by (simp add: path_join_def)
  then have "crimp_fs_path_component_is_safe zs"
    using assms r(2) by (simp add: safe_rel_def split_slash_join split_slash_plain)
  moreover have "path_join p rel = path_join (path_join p ys) zs" by (simp add: j path_join_def)
  ultimately show ?thesis by (rule that [rotated])
next
  case False
  then have "crimp_fs_path_component_is_safe rel" using assms by (simp add: safe_rel_def split_slash_plain)
  then show ?thesis by (rule that [OF refl])
qed

lemma tree_is_ok:
  assumes "tree_is od items d" and "list_all (item_ok b) items" and "disk_wf d"
  shows "tree_ok d od"
  unfolding tree_ok_def
proof (intro allI impI)
  fix q assume q: "below od q \<and> lookup d q \<noteq> None"
  have "od \<noteq> []" using assms(1,3) by (auto simp: tree_is_def disk_wf_iff)
  obtain rel where rel: "q = path_join od rel" using q by (auto simp: below_iff)
  with q assms(1) obtain it where it: "it \<in> set items" "rel = it_path it" by (auto simp: tree_is_def)
  then have l: "length q < 1280" and "safe_rel rel"
    using assms(1,2) rel by (auto simp: tree_is_def item_ok_def list_all_iff)
  then obtain dir n where n: "q = path_join dir n" "crimp_fs_path_component_is_safe n"
    using safe_rel_last [of rel od] rel by metis
  then have plain: "CHR ''/'' \<notin> set n" by (simp add: safe_component_no_slash)
  have "at_or_below od dir" using parent_at_or_below [of od dir n] q n plain by simp
  moreover from this have "dir \<noteq> []" using \<open>od \<noteq> []\<close> by (auto simp: at_or_below_iff)
  then have "lookup d dir = Some Directory" using disk_wf_parent [OF assms(3) _ plain] q n by simp
  ultimately show "length q < 1280 \<and> (\<exists>dir n. q = path_join dir n \<and> n \<noteq> [] \<and> CHR ''/'' \<notin> set n \<and> n \<noteq> ''.'' \<and> n \<noteq> ''..'' \<and>
      at_or_below od dir \<and> lookup d dir = Some Directory)"
    using l n by (auto simp: safe_component_iff)
qed

section \<open>The result is a function of the image\<close>










section \<open>When the replacement fails\<close>

text \<open>Nothing whose path does not fit the buffer is ever removed.\<close>

abbreviation sweep :: "string \<Rightarrow> disk \<Rightarrow> string \<Rightarrow> disk" where
  "sweep p d n \<equiv> (if length (path_join p n) \<ge> 1280 then d else remove_tree (path_join p n) d)"

lemma remove_tree_directory:
  "lookup d p = Some Directory \<Longrightarrow> remove_tree p d =
     sys_remove p (foldl (sweep p) d (filter (\<lambda>n. n \<noteq> ''.'' \<and> n \<noteq> ''..'') (readdir_names d p)))"
  by (subst remove_tree.simps) (simp add: is_real_directory_not_symlink_def Let_def)

lemma sweep_only:
  "lookup (foldl (sweep p) d ns) q = lookup d q \<or> lookup (foldl (sweep p) d ns) q = None \<and> below p q"
proof (induction ns arbitrary: d)
  case (Cons n ns)
  have "lookup (sweep p d n) q = lookup d q \<or> lookup (sweep p d n) q = None \<and> below p q"
    using remove_tree_only [of "path_join p n" d q] by (auto simp: at_or_below_def intro: below_trans [OF below_path_join])
  then show ?case using Cons [of "sweep p d n"] by auto
qed simp

lemma remove_tree_long:
  "length p < 1280 \<Longrightarrow> 1280 \<le> length q \<Longrightarrow> lookup (remove_tree p d) q = lookup d q"
proof (induction p d rule: remove_tree.induct)
  case (1 p d)
  have self: "lookup (sys_remove p d') q = lookup d' q" for d'
    using lookup_remove_other [of q p d'] "1.prems" by fastforce
  show ?case
  proof (cases "lookup d p = Some Directory")
    case True
    define names where "names = filter (\<lambda>n. n \<noteq> ''.'' \<and> n \<noteq> ''..'') (readdir_names d p)"
    have "lookup (foldl (sweep p) d' ns) q = lookup d' q" if "set ns \<subseteq> set names" for ns d'
      using that
    proof (induction ns arbitrary: d')
      case (Cons n ns)
      have "lookup (sweep p d' n) q = lookup d' q"
        using "1.IH" [of names n d'] True Cons.prems "1.prems" unfolding names_def by (auto simp: is_real_directory_not_symlink_def)
      with Cons show ?case by simp
    qed simp
    from this [of names d] True self show ?thesis by (simp add: remove_tree_directory names_def)
  qed (simp add: remove_tree.simps [of p d] is_real_directory_not_symlink_def self)
qed

lemma sweep_removes:
  assumes "length (path_join p m) < 1280"
  shows "m \<in> set ns \<Longrightarrow> lookup d (path_join p m) \<noteq> Some Directory \<Longrightarrow> lookup (foldl (sweep p) d ns) (path_join p m) = None"
proof (induction ns arbitrary: d)
  case (Cons n ns)
  let ?q = "path_join p m"
  show ?case
  proof (cases "n = m")
    case True
    have "lookup (sweep p d m) ?q = None"
      using assms Cons.prems(2) lookup_remove_file [of d ?q]
      by (simp add: remove_tree.simps [of ?q d] is_real_directory_not_symlink_def)
    then show ?thesis using True sweep_only [of p "sweep p d m" ns ?q] by auto
  next
    case False
    have "lookup (sweep p d n) ?q \<noteq> Some Directory"
      using sweep_only [of p d "[n]" ?q] Cons.prems(2) by auto
    then show ?thesis using Cons False by simp
  qed
qed simp

lemma remove_tree_stuck:
  assumes dir: "lookup d p = Some Directory" and len: "length p < 1280"
    and long: "below p q" "1280 \<le> length q" "lookup d q \<noteq> None"
  shows "lookup (remove_tree p d) p = Some Directory" and "has_children (remove_tree p d) p"
proof -
  define d' where "d' = foldl (sweep p) d (filter (\<lambda>n. n \<noteq> ''.'' \<and> n \<noteq> ''..'') (readdir_names d p))"
  have r: "remove_tree p d = sys_remove p d'" using remove_tree_directory [OF dir] by (simp add: d'_def)
  have "lookup (remove_tree p d) q \<noteq> None" using remove_tree_long [OF len long(2)] long(3) by simp
  with long(1) show children: "has_children (remove_tree p d) p" by (auto simp: has_children_iff)
  have here: "lookup d' p = Some Directory" using sweep_only [of p d _ p] dir by (auto simp: d'_def)
  have "lookup d' q \<noteq> None"
    using \<open>lookup (remove_tree p d) q \<noteq> None\<close> lookup_remove_cases [of p d' q] by (auto simp: r)
  then have "has_children d' p" using long(1) by (auto simp: has_children_iff)
  with here show "lookup (remove_tree p d) p = Some Directory" by (simp add: r sys_remove_def)
qed


section \<open>Properties\<close>

text \<open>
  C4: After a successful extraction of an image (into a staging directory that could be
  cleared, with a decompressor that stays within its buffer) the output directory is the
  listing of the image and nothing else: every node below it is an entry of the listing
  of the identified type, a directory where a directory is listed and a regular file of
  the listed size otherwise (never a link), every listed directory is there, and every
  listed path is safe, shorter than 1024 bytes and at most 33 components deep. An entry of
  the listing does not say whether it is a regular file or a device or link, which are
  listed but not extracted; so nothing is claimed for the presence of a listed entry that
  is no directory.
\<close>

theorem extracted_as_listed:
  assumes "crimp_fs_extract cx path od d = (True, d')" and "lookup d path = Some (RegFile f)"
    and "\<not> at_or_below (staging_dir od) path" and "tree_ok d (staging_dir od)" and "codec_bounded cx"
  shows "\<exists>i out. crimp_fs_identify d path = Some i \<and> lister_of cx (fi_type i) d path = (True, out) \<and>
    lookup d' od = Some Directory \<and>
    (\<forall>rel. lookup d' (path_join od rel) \<noteq> None \<longrightarrow>
       (\<exists>e. e \<in> set (v_items out) \<and> e_path e = rel \<and> node_as_listed e (lookup d' (path_join od rel)))) \<and>
    (\<forall>e. e \<in> set (v_items out) \<longrightarrow>
       (e_is_dir e \<longrightarrow> lookup d' (path_join od (e_path e)) = Some Directory) \<and>
       safe_rel (e_path e) \<and> length (e_path e) < 1024 \<and> length (split_slash (e_path e)) \<le> 33)"
proof -
  obtain i out items where i: "crimp_fs_identify d path = Some i" "lister_of cx (fi_type i) d path = (True, out)"
    and items: "v_items out = map item_entry items" and ok: "list_all (item_ok True) items" and tree: "tree_is od items d'"
    using extract_tree [OF assms(1-4)] assms(5) by metis
  have node: "\<exists>e. e \<in> set (v_items out) \<and> e_path e = rel \<and> node_as_listed e (lookup d' (path_join od rel))"
    if present: "lookup d' (path_join od rel) \<noteq> None" for rel
  proof -
    obtain it where it: "it \<in> set items" "it_kind it \<noteq> OtherItem" "rel = it_path it"
      using tree present unfolding tree_is_def by blast
    obtain it' where "it' \<in> set items" "it_path it' = it_path it" "node_as_listed (item_entry it') (lookup d' (path_join od (it_path it)))"
      using item_node [OF tree it(1,2) ok] by blast
    moreover have "e_path (item_entry it') = it_path it'" by (simp add: item_entry_def)
    ultimately show ?thesis using it(3) items by (intro exI [of _ "item_entry it'"]) simp
  qed
  have entry: "(e_is_dir e \<longrightarrow> lookup d' (path_join od (e_path e)) = Some Directory) \<and>
       safe_rel (e_path e) \<and> length (e_path e) < 1024 \<and> length (split_slash (e_path e)) \<le> 33"
    if "e \<in> set (v_items out)" for e
    using that tree ok items by (auto simp: tree_is_def item_on_disk_def item_entry_def item_ok_def list_all_iff)
  have "lookup d' od = Some Directory" using tree by (simp add: tree_is_def)
  with i node entry show ?thesis by blast
qed

theorem extracted_as_listed_witness:
  "\<exists>d'. crimp_fs_extract sample_codec ''i'' ''o'' [(''i'', RegFile (cramfs_sample_image True)), (''o'', Directory), (''o/old'', RegFile [9])] = (True, d') \<and>
     (\<forall>rel. lookup d' (path_join ''o'' rel) \<noteq> None \<longrightarrow> rel = ''a'' \<and> (\<exists>bs. lookup d' ''o/a'' = Some (RegFile bs) \<and> length bs = 3))"
proof -
  define d where "d = [(''i'', RegFile (cramfs_sample_image True)), (''o'', Directory), (''o/old'', RegFile [9])]"
  have "fst (crimp_fs_extract sample_codec ''i'' ''o'' d)" unfolding d_def by code_simp
  then obtain d' where run: "crimp_fs_extract sample_codec ''i'' ''o'' d = (True, d')" by (metis (full_types) prod.collapse)
  have image: "lookup d ''i'' = Some (RegFile (cramfs_sample_image True))" by (simp add: d_def lookup_def)
  have out: "\<not> at_or_below (staging_dir ''o'') ''i''" by (simp add: at_or_below_def below_def staging_dir_def)
  have tmp: "tree_ok d (staging_dir ''o'')" by (auto simp: tree_ok_def d_def lookup_def below_def staging_dir_def)
  have listing: "map_option (\<lambda>i. lister_of sample_codec (fi_type i) d ''i'') (crimp_fs_identify d ''i'') =
      Some (True, \<lparr>v_items = [\<lparr>e_path = ''a'', e_is_dir = False, e_size = 3\<rparr>], v_capacity = 16\<rparr>)"
    unfolding d_def by code_simp
  have node: "\<forall>rel. lookup d' (path_join ''o'' rel) \<noteq> None \<longrightarrow>
      ''a'' = rel \<and> node_as_listed \<lparr>e_path = ''a'', e_is_dir = False, e_size = 3\<rparr> (lookup d' (path_join ''o'' rel))"
    using extracted_as_listed [OF run image out tmp sample_codec_bounded] listing by auto
  have "rel = ''a'' \<and> (\<exists>bs. lookup d' ''o/a'' = Some (RegFile bs) \<and> length bs = 3)" if "lookup d' (path_join ''o'' rel) \<noteq> None" for rel
    using node [rule_format, OF that] that
    by (cases "lookup d' (path_join ''o'' rel)" rule: option.exhaust [case_names None Some])
      (auto simp: node_as_listed_def path_join_def split: fnode.splits)
  with run show ?thesis unfolding d_def by blast
qed



text \<open>
  C36: When the output directory holds anything whose path has 1280 bytes or more, a new
  extraction that succeeds in the staging directory still fails, and by then the old
  files of the directory are gone: the directory is neither untouched nor replaced.
\<close>

theorem failed_replace_loses_old:
  assumes staged: "extract_dispatch cx path (staging_dir od) (remove_tree (staging_dir od) d) = (True, staged)"
    and len: "length (staging_dir od) < 1280" and dir: "lookup d od = Some Directory"
    and long: "below od q" "1280 \<le> length q" "lookup d q \<noteq> None"
    and old: "lookup d (path_join od m) = Some (RegFile bs)" "length (path_join od m) < 1280"
      "CHR ''/'' \<notin> set m" "m \<notin> {[], ''.'', ''..''}"
  shows "fst (crimp_fs_extract cx path od d) = False \<and> lookup (snd (crimp_fs_extract cx path od d)) (path_join od m) = None \<and>
    lookup (snd (crimp_fs_extract cx path od d)) od = Some Directory"
proof -
  have "changed d staged \<subseteq> {q. at_or_below (staging_dir od) q}"
    using changed_trans [OF remove_tree_changed [of d "staging_dir od"]] dispatch_frame [of _ cx path "staging_dir od"] staged
    by (metis snd_conv)
  then have same: "lookup staged r = lookup d r" if "at_or_below od r" for r
    using that at_or_below_both [of od r "staging_dir od"] by (auto simp: changed_def)
  have dir': "lookup staged od = Some Directory" and long': "lookup staged q \<noteq> None"
    and old': "lookup staged (path_join od m) = Some (RegFile bs)"
    using same dir long old(1) by (simp_all add: at_or_below_def)
  have od: "length od < 1280" using len by (simp add: staging_dir_def)
  note stuck = remove_tree_stuck [OF dir' od long(1,2) long']
  have "m \<in> set (filter (\<lambda>n. n \<noteq> ''.'' \<and> n \<noteq> ''..'') (readdir_names staged od))"
    using readdir_member [of staged od m] old(3,4) old' by auto
  from sweep_removes [OF old(2) this, of staged] old' have "lookup (remove_tree od staged) (path_join od m) = None"
    unfolding remove_tree_directory [OF dir'] using lookup_remove_cases [of od _ "path_join od m"] by auto
  moreover have "sys_rename (staging_dir od) od (remove_tree od staged) = None"
    using stuck by (auto simp: sys_rename_def split: option.split)
  ultimately show ?thesis using staged len stuck(1) by (simp add: crimp_fs_extract_def Let_def)
qed

theorem failed_replace_loses_old_witness:
  "\<exists>d. lookup d ''o/old'' = Some (RegFile [9]) \<and> fst (crimp_fs_extract sample_codec ''i'' ''o'' d) = False \<and>
     lookup (snd (crimp_fs_extract sample_codec ''i'' ''o'' d)) ''o/old'' = None"
proof -
  define q where "q = path_join ''o'' (replicate 1280 CHR ''x'')"
  define d where "d = [(''i'', RegFile (cramfs_sample_image True)), (''o'', Directory), (''o/old'', RegFile [9]), (q, RegFile [])]"
  have q: "below ''o'' q" "1280 \<le> length q" by (simp_all add: q_def) (simp add: path_join_def)
  have "q \<noteq> ''i''" "q \<noteq> ''o''" "q \<noteq> ''o/old''" using q(2) by auto
  then have l: "lookup d ''i'' = Some (RegFile (cramfs_sample_image True))" "lookup d ''o'' = Some Directory"
      "lookup d (path_join ''o'' ''old'') = Some (RegFile [9])" "lookup d q \<noteq> None" "lookup d ''o.tmp'' = None"
    using q(1) by (auto simp: d_def lookup_def path_join_def below_def)
  have "fst (extract_dispatch sample_codec ''i'' (staging_dir ''o'') (remove_tree (staging_dir ''o'') d))"
    unfolding d_def q_def by code_simp
  then obtain staged where s: "extract_dispatch sample_codec ''i'' (staging_dir ''o'') (remove_tree (staging_dir ''o'') d) = (True, staged)"
    by (metis (full_types) prod.collapse)
  have len: "length (staging_dir ''o'') < 1280" "length (path_join ''o'' ''old'') < 1280" "CHR ''/'' \<notin> set ''old''"
    "''old'' \<notin> {[], ''.'', ''..''}"
    by (simp_all add: staging_dir_def path_join_def)
  show ?thesis
    using failed_replace_loses_old [OF s len(1) l(2) q l(4,3) len(2-4)] l(3)
    by (intro exI [of _ d]) (simp add: path_join_def)
qed

end
