(* ===== verification/CoreUtil.thy ===== *)
theory CoreUtil
  imports Disk "HOL-Library.Sublist"
begin

text \<open>
  What the scanning half of the program is built on: severities and findings
  (\<open>include/crimp/detector.h\<close>, \<open>src/core/finding.c\<close>), the component inventory
  (\<open>src/core/inventory.c\<close>), the search in binary buffers (\<open>src/core/binstring.c\<close>), the
  bounded read of a file (\<open>src/core/fileutil.c\<close>) and the directory walk
  (\<open>src/core/walk.c\<close>).
\<close>

section \<open>Severities and findings\<close>

datatype crimp_severity =
  CRIMP_SEVERITY_LOW | CRIMP_SEVERITY_MEDIUM | CRIMP_SEVERITY_HIGH | CRIMP_SEVERITY_CRITICAL

text \<open>The enumeration starts at 0 and its order is the order of its values.\<close>

primrec severity_value :: "crimp_severity \<Rightarrow> nat" where
  "severity_value CRIMP_SEVERITY_LOW = 0"
| "severity_value CRIMP_SEVERITY_MEDIUM = 1"
| "severity_value CRIMP_SEVERITY_HIGH = 2"
| "severity_value CRIMP_SEVERITY_CRITICAL = 3"

lemma severity_value_inject: "severity_value a = severity_value b \<longleftrightarrow> a = b"
  by (cases a; cases b) simp_all

instantiation crimp_severity :: linorder
begin

definition less_eq_crimp_severity :: "crimp_severity \<Rightarrow> crimp_severity \<Rightarrow> bool" where
  "less_eq_crimp_severity a b \<longleftrightarrow> severity_value a \<le> severity_value b"

definition less_crimp_severity :: "crimp_severity \<Rightarrow> crimp_severity \<Rightarrow> bool" where
  "less_crimp_severity a b \<longleftrightarrow> severity_value a < severity_value b"

instance
  by standard (auto simp: less_eq_crimp_severity_def less_crimp_severity_def severity_value_inject)

end

record crimp_finding =
  cf_detector_name :: string
  cf_description :: string
  cf_severity :: crimp_severity

type_synonym crimp_finding_list = "crimp_finding vec"

definition crimp_finding_list_init :: "crimp_finding_list" where
  "crimp_finding_list_init = vec_init"

definition crimp_finding_list_add ::
  "crimp_finding_list \<Rightarrow> string \<Rightarrow> string \<Rightarrow> crimp_severity \<Rightarrow> crimp_finding_list" where
  "crimp_finding_list_add list detector_name description severity =
     vec_add 16 list
       \<lparr>cf_detector_name = detector_name, cf_description = description, cf_severity = severity\<rparr>"

definition crimp_finding_list_free :: "crimp_finding_list \<Rightarrow> crimp_finding_list" where
  "crimp_finding_list_free list = vec_free list"

interpretation finding_list: growable crimp_finding_list_init
  "\<lambda>l f. crimp_finding_list_add l (cf_detector_name f) (cf_description f) (cf_severity f)"
  crimp_finding_list_free v_items v_capacity
  by unfold_locales
    (auto simp: crimp_finding_list_init_def crimp_finding_list_add_def
      crimp_finding_list_free_def vec_add_room vec_add_amortised)

lemma finding_list_add_items [simp]:
  "v_items (crimp_finding_list_add l n s sev) =
     v_items l @ [\<lparr>cf_detector_name = n, cf_description = s, cf_severity = sev\<rparr>]"
  by (simp add: crimp_finding_list_add_def)

text \<open>What a client of the list appends: the shape every scanner of the program has.\<close>

lemma foldl_append_items:
  assumes "\<And>l x. v_items (step l x) = v_items l @ g x"
  shows "v_items (foldl step l xs) = v_items l @ concat (map g xs)"
  by (induction xs arbitrary: l) (simp_all add: assms)

section \<open>The inventory\<close>

record crimp_component =
  cc_component :: string
  cc_version :: string
  cc_path :: string

type_synonym crimp_component_list = "crimp_component vec"

definition crimp_component_list_init :: "crimp_component_list" where
  "crimp_component_list_init = vec_init"

text \<open>
  The copy loop of the version: printable bytes only, at most 63 of them (the buffer
  has 64), up to the terminating NUL, which is the end of the list here.
\<close>

fun copy_version :: "nat \<Rightarrow> string \<Rightarrow> string" where
  "copy_version room [] = []"
| "copy_version room (c # cs) =
     (if room = 0 then []
      else if is_print_c c then c # copy_version (room - 1) cs
      else copy_version room cs)"

definition crimp_component_list_add ::
  "crimp_component_list \<Rightarrow> string \<Rightarrow> string \<Rightarrow> string \<Rightarrow> crimp_component_list" where
  "crimp_component_list_add list component version path =
     vec_add 16 list
       \<lparr>cc_component = component, cc_version = copy_version 63 version, cc_path = path\<rparr>"

definition crimp_component_list_free :: "crimp_component_list \<Rightarrow> crimp_component_list" where
  "crimp_component_list_free list = vec_free list"

lemma copy_version_filter: "copy_version k cs = take k (filter is_print_c cs)"
  by (induction k cs rule: copy_version.induct) (auto simp: take_Cons')

lemma copy_version_id: "list_all is_print_c v \<Longrightarrow> length v \<le> k \<Longrightarrow> copy_version k v = v"
  by (simp add: copy_version_filter list_all_iff filter_id_conv)

lemma component_list_add_items [simp]:
  "v_items (crimp_component_list_add l n v p) =
     v_items l @ [\<lparr>cc_component = n, cc_version = copy_version 63 v, cc_path = p\<rparr>]"
  by (simp add: crimp_component_list_add_def)

text \<open>
  The list as its readers rely on it: elements whose version is already printable and
  short are stored as they are.
\<close>

definition component_clean :: "crimp_component \<Rightarrow> bool" where
  "component_clean c \<longleftrightarrow> list_all is_print_c (cc_version c) \<and> length (cc_version c) \<le> 63"

lemma copy_version_clean: "list_all is_print_c (copy_version k v) \<and> length (copy_version k v) \<le> k"
  by (auto simp: copy_version_filter list_all_iff dest: in_set_takeD)

section \<open>Searching a binary buffer\<close>

definition occurs_at :: "string \<Rightarrow> string \<Rightarrow> nat \<Rightarrow> bool" where
  "occurs_at haystack needle i \<longleftrightarrow> take (length needle) (drop i haystack) = needle"

function memfind_loop :: "string \<Rightarrow> string \<Rightarrow> nat \<Rightarrow> nat option" where
  "memfind_loop haystack needle i =
     (if i + length needle \<le> length haystack then
        (if occurs_at haystack needle i then Some i else memfind_loop haystack needle (i + 1))
      else None)"
  by pat_completeness auto
termination by (relation "measure (\<lambda>(h, n, i). Suc (length h) - i)") auto

declare memfind_loop.simps [simp del]

definition crimp_memfind :: "string \<Rightarrow> string \<Rightarrow> nat option" where
  "crimp_memfind haystack needle =
     (if length needle = 0 \<or> length needle > length haystack then None
      else memfind_loop haystack needle 0)"

lemma occurs_at_bound: "occurs_at h n i \<Longrightarrow> n \<noteq> [] \<Longrightarrow> i + length n \<le> length h"
proof -
  assume a: "occurs_at h n i" and n: "n \<noteq> []"
  then have "length n = min (length n) (length h - i)" unfolding occurs_at_def by (metis length_drop length_take min.commute)
  with n show ?thesis by (cases "i \<le> length h") auto
qed

lemma memfind_loop_find:
  "n \<noteq> [] \<Longrightarrow> memfind_loop h n i = List.find (occurs_at h n) [i..<length h]"
proof (induction h n i rule: memfind_loop.induct)
  case (1 h n i)
  show ?case
  proof (cases "i + length n \<le> length h")
    case True
    have "i < length h" using True "1.prems" by (cases n) auto
    then have "[i..<length h] = i # [i + 1..<length h]" by (simp add: upt_conv_Cons)
    then show ?thesis using 1 True by (simp add: memfind_loop.simps [of h n i])
  next
    case False
    have "List.find (occurs_at h n) [i..<length h] = None"
      using occurs_at_bound [of h n] "1.prems" False by (fastforce simp: find_None_iff)
    then show ?thesis using False by (simp add: memfind_loop.simps [of h n i])
  qed
qed

lemma memfind_find:
  "crimp_memfind h n = (if n = [] then None else List.find (occurs_at h n) [0..<length h])"
proof (cases "length n > length h")
  case True
  then have "n \<noteq> [] \<Longrightarrow> List.find (occurs_at h n) [0..<length h] = None"
    using occurs_at_bound [of h n] by (fastforce simp: find_None_iff)
  with True show ?thesis by (auto simp: crimp_memfind_def)
qed (auto simp: crimp_memfind_def memfind_loop_find)

lemma sublist_occurs: "sublist n h \<longleftrightarrow> (\<exists>i. occurs_at h n i)"
proof
  assume "sublist n h"
  then obtain ps ss where "h = ps @ n @ ss" by (auto simp: sublist_def)
  then have "occurs_at h n (length ps)" by (simp add: occurs_at_def)
  then show "\<exists>i. occurs_at h n i" ..
next
  assume "\<exists>i. occurs_at h n i"
  then obtain i where "take (length n) (drop i h) = n" by (auto simp: occurs_at_def)
  then have "h = take i h @ n @ drop (length n) (drop i h)" by (metis append_take_drop_id)
  then show "sublist n h" by (metis sublist_appendI)
qed

lemma memfind_Some_iff:
  "crimp_memfind h n = Some i \<longleftrightarrow> n \<noteq> [] \<and> occurs_at h n i \<and> (\<forall>j<i. \<not> occurs_at h n j)"
proof (cases "n = []")
  case False
  then have b: "occurs_at h n k \<Longrightarrow> k < length h" for k using occurs_at_bound [of h n k] by (cases n) auto
  have "crimp_memfind h n = Some i \<longleftrightarrow> (\<exists>k < length h. occurs_at h n k \<and> i = k \<and> (\<forall>j<k. \<not> occurs_at h n j))"
    using False by (auto simp: memfind_find find_Some_iff)
  also have "\<dots> \<longleftrightarrow> occurs_at h n i \<and> (\<forall>j<i. \<not> occurs_at h n j)" using b [of i] by blast
  finally show ?thesis using False by simp
qed (simp add: memfind_find)

lemma memfind_None_iff: "crimp_memfind h n = None \<longleftrightarrow> n = [] \<or> \<not> sublist n h"
proof -
  have "sublist n h \<longleftrightarrow> (\<exists>i < length h. occurs_at h n i)" if "n \<noteq> []"
  proof -
    have "occurs_at h n i \<Longrightarrow> i < length h" for i using occurs_at_bound [of h n i] that by (cases n) auto
    then show ?thesis unfolding sublist_occurs by blast
  qed
  then show ?thesis by (auto simp: memfind_find find_None_iff)
qed

section \<open>What the scanner sees of the operating system\<close>

text \<open>
  The scanner never writes to the tree it inspects. It asks the operating system for
  the kind of the object a path leads to (\<open>stat\<close>, links followed), for the names in a
  directory (\<open>opendir\<close> and \<open>readdir\<close>, in the order the system gives them, which the
  program does not choose), and for the bytes of a file. The model is over any such
  view; \<open>disk_view\<close> is the one of the disk model.
\<close>

datatype stat_kind = S_IFDIR | S_IFREG | S_OTHER

record os_view =
  os_stat :: "string \<Rightarrow> stat_kind option"
  os_opendir :: "string \<Rightarrow> string list option"
  os_read :: "string \<Rightarrow> byte list option"

definition disk_view :: "disk \<Rightarrow> os_view" where
  "disk_view d =
     \<lparr>os_stat = (\<lambda>p. case stat_node d p of
        None \<Rightarrow> None | Some Directory \<Rightarrow> Some S_IFDIR
      | Some (RegFile bs) \<Rightarrow> Some S_IFREG | Some (SymLink t) \<Rightarrow> Some S_OTHER),
      os_opendir = (\<lambda>p. case resolve_link MAX_LINKS d p of None \<Rightarrow> None
        | Some q \<Rightarrow> if lookup d q = Some Directory then Some (readdir_names d q) else None),
      os_read = (\<lambda>p. fopen_rb p d)\<rparr>"

text \<open>
  \<open>crimp_read_file_chunk\<close>: what the buffer of \<open>buf_size\<close> bytes holds before its
  terminating NUL, None for -1.
\<close>

definition crimp_read_file_chunk :: "os_view \<Rightarrow> string \<Rightarrow> nat \<Rightarrow> string option" where
  "crimp_read_file_chunk os path buf_size =
     map_option (\<lambda>bs. text_of (take (buf_size - 1) bs)) (os_read os path)"

section \<open>The directory walk\<close>

text \<open>
  \<open>fds\<close> is the number of directory streams the process may still open: a walk keeps
  one open per level, and \<open>opendir\<close> fails when none is left. It is what bounds the
  recursion on a tree whose links form a cycle. The path of an entry is cut to the
  1024-byte buffer, and the cut is not checked.
\<close>

definition walk_path :: "string \<Rightarrow> string \<Rightarrow> string" where
  "walk_path dir_path name = snprintf_cut 1024 (path_join dir_path name)"

primrec crimp_walk_directory ::
  "nat \<Rightarrow> os_view \<Rightarrow> (string \<Rightarrow> 's \<Rightarrow> 's) \<Rightarrow> string \<Rightarrow> 's \<Rightarrow> 's" where
  "crimp_walk_directory 0 os visit dir_path u = u"
| "crimp_walk_directory (Suc fds) os visit dir_path u =
     (case os_opendir os dir_path of None \<Rightarrow> u
      | Some names \<Rightarrow>
          foldl (\<lambda>u name.
             if name = ''.'' \<or> name = ''..'' then u
             else (case os_stat os (walk_path dir_path name) of
                     Some S_IFDIR \<Rightarrow> crimp_walk_directory fds os visit (walk_path dir_path name) u
                   | Some S_IFREG \<Rightarrow> visit (walk_path dir_path name) u
                   | _ \<Rightarrow> u)) u names)"

text \<open>The paths the walk visits, in order: the walk with a visitor that records them.\<close>

definition walk_paths :: "nat \<Rightarrow> os_view \<Rightarrow> string \<Rightarrow> string list" where
  "walk_paths fds os dir_path = crimp_walk_directory fds os (\<lambda>p u. u @ [p]) dir_path []"

text \<open>A regular file reached from a directory through \<open>n\<close> directories below it.\<close>

inductive walked :: "os_view \<Rightarrow> nat \<Rightarrow> string \<Rightarrow> string \<Rightarrow> bool" for os where
  walked_file: "os_opendir os dir = Some names \<Longrightarrow> name \<in> set names \<Longrightarrow> name \<noteq> ''.'' \<Longrightarrow> name \<noteq> ''..'' \<Longrightarrow>
     os_stat os (walk_path dir name) = Some S_IFREG \<Longrightarrow> walked os 0 dir (walk_path dir name)"
| walked_sub: "os_opendir os dir = Some names \<Longrightarrow> name \<in> set names \<Longrightarrow> name \<noteq> ''.'' \<Longrightarrow> name \<noteq> ''..'' \<Longrightarrow>
     os_stat os (walk_path dir name) = Some S_IFDIR \<Longrightarrow> walked os n (walk_path dir name) p \<Longrightarrow>
     walked os (Suc n) dir p"

text \<open>The entries of one directory, as lists of visited paths.\<close>

definition walk_entry_paths :: "nat \<Rightarrow> os_view \<Rightarrow> string \<Rightarrow> string \<Rightarrow> string list" where
  "walk_entry_paths fds os dir name =
     (if name = ''.'' \<or> name = ''..'' then []
      else (case os_stat os (walk_path dir name) of
              Some S_IFDIR \<Rightarrow> walk_paths fds os (walk_path dir name)
            | Some S_IFREG \<Rightarrow> [walk_path dir name]
            | _ \<Rightarrow> []))"

lemma walk_directory_general:
  assumes "\<And>us p. g (us @ [p]) = visit p (g us)"
  shows "crimp_walk_directory fds os visit dir (g us) =
    g (crimp_walk_directory fds os (\<lambda>p u. u @ [p]) dir us)"
proof (induction fds arbitrary: dir us)
  case (Suc fds)
  have "foldl (\<lambda>u name. if name = ''.'' \<or> name = ''..'' then u
        else (case os_stat os (walk_path dir name) of
                Some S_IFDIR \<Rightarrow> crimp_walk_directory fds os visit (walk_path dir name) u
              | Some S_IFREG \<Rightarrow> visit (walk_path dir name) u | _ \<Rightarrow> u)) (g us) names =
     g (foldl (\<lambda>u name. if name = ''.'' \<or> name = ''..'' then u
        else (case os_stat os (walk_path dir name) of
                Some S_IFDIR \<Rightarrow> crimp_walk_directory fds os (\<lambda>p u. u @ [p]) (walk_path dir name) u
              | Some S_IFREG \<Rightarrow> u @ [walk_path dir name] | _ \<Rightarrow> u)) us names)" for names
    by (induction names arbitrary: us)
      (auto simp: Suc assms [symmetric] split: option.split stat_kind.split)
  then show ?case by (simp split: option.split)
qed simp

lemma walk_directory_foldl:
  "crimp_walk_directory fds os visit dir u = foldl (\<lambda>u p. visit p u) u (walk_paths fds os dir)"
  using walk_directory_general [of "\<lambda>ps. foldl (\<lambda>u p. visit p u) u ps" visit fds os dir "[]"]
  by (simp add: walk_paths_def)

lemma walk_paths_0 [simp]: "walk_paths 0 os dir = []"
  by (simp add: walk_paths_def)

lemma walk_append:
  "crimp_walk_directory fds os (\<lambda>p u. u @ [p]) dir us = us @ walk_paths fds os dir"
  using walk_directory_general [of "\<lambda>vs. us @ vs" "\<lambda>p u. u @ [p]" fds os dir "[]"]
  by (simp add: walk_paths_def)

lemma walk_paths_Suc:
  "walk_paths (Suc fds) os dir =
     (case os_opendir os dir of None \<Rightarrow> []
      | Some names \<Rightarrow> concat (map (walk_entry_paths fds os dir) names))"
proof -
  have "foldl (\<lambda>u name. if name = ''.'' \<or> name = ''..'' then u
        else (case os_stat os (walk_path dir name) of
                Some S_IFDIR \<Rightarrow> crimp_walk_directory fds os (\<lambda>p u. u @ [p]) (walk_path dir name) u
              | Some S_IFREG \<Rightarrow> u @ [walk_path dir name] | _ \<Rightarrow> u)) us names =
     us @ concat (map (walk_entry_paths fds os dir) names)" for us names
    by (induction names arbitrary: us)
      (auto simp: walk_append walk_entry_paths_def split: option.split stat_kind.split)
  then show ?thesis by (simp add: walk_paths_def split: option.split)
qed

text \<open>
  The contract of the callback a scanner gives the walk: on each file it keeps what its
  result holds and appends what it has to report of that file.
\<close>

locale file_visitor =
  fixes visit :: "string \<Rightarrow> 'v \<Rightarrow> 'v"
    and elems :: "'v \<Rightarrow> 'a list"
    and report :: "string \<Rightarrow> 'a list"
  assumes visit_appends: "elems (visit p v) = elems v @ report p"
begin

lemma walk_reports:
  "elems (crimp_walk_directory fds os visit dir v) = elems v @ concat (map report (walk_paths fds os dir))"
proof -
  have "elems (foldl (\<lambda>u p. visit p u) v ps) = elems v @ concat (map report ps)" for ps
    by (induction ps arbitrary: v) (simp_all add: visit_appends)
  then show ?thesis unfolding walk_directory_foldl by blast
qed

lemma walk_reports_nothing_else:
  "x \<in> set (elems (crimp_walk_directory fds os visit dir v)) \<longleftrightarrow>
     x \<in> set (elems v) \<or> (\<exists>p \<in> set (walk_paths fds os dir). x \<in> set (report p))"
  by (auto simp: walk_reports)

end

lemma set_walk_paths: "p \<in> set (walk_paths fds os dir) \<longleftrightarrow> (\<exists>n<fds. walked os n dir p)"
proof (induction fds arbitrary: dir p)
  case (Suc fds)
  have entry: "p \<in> set (walk_entry_paths fds os dir name) \<longleftrightarrow> name \<noteq> ''.'' \<and> name \<noteq> ''..'' \<and>
      (os_stat os (walk_path dir name) = Some S_IFREG \<and> p = walk_path dir name \<or>
       os_stat os (walk_path dir name) = Some S_IFDIR \<and> (\<exists>n<fds. walked os n (walk_path dir name) p))" for name
  proof (cases "os_stat os (walk_path dir name)")
    case (Some k)
    then show ?thesis by (cases k) (auto simp: walk_entry_paths_def Suc)
  qed (auto simp: walk_entry_paths_def)
  show ?case
  proof
    assume "p \<in> set (walk_paths (Suc fds) os dir)"
    then obtain names name where "os_opendir os dir = Some names" "name \<in> set names"
      "p \<in> set (walk_entry_paths fds os dir name)"
      by (cases "os_opendir os dir") (auto simp: walk_paths_Suc)
    then show "\<exists>n<Suc fds. walked os n dir p"
      unfolding entry by (metis Suc_less_eq walked_file walked_sub zero_less_Suc)
  next
    assume "\<exists>n<Suc fds. walked os n dir p"
    then obtain n where n: "n < Suc fds" "walked os n dir p" by blast
    show "p \<in> set (walk_paths (Suc fds) os dir)"
      using n(2)
    proof cases
      case (walked_file names name)
      then have "p \<in> set (walk_entry_paths fds os dir name)" unfolding entry by blast
      with walked_file show ?thesis by (auto simp: walk_paths_Suc)
    next
      case (walked_sub names name m)
      then have "p \<in> set (walk_entry_paths fds os dir name)" unfolding entry using n(1) by auto
      with walked_sub show ?thesis by (auto simp: walk_paths_Suc)
    qed
  qed
qed simp

subsection \<open>Each file once, when nothing is cut\<close>

text \<open>
  A view whose directories list every name once, no name has a slash, and every path
  fits the buffer.
\<close>

definition view_tame :: "os_view \<Rightarrow> bool" where
  "view_tame os \<longleftrightarrow> (\<forall>dir names. os_opendir os dir = Some names \<longrightarrow>
     distinct names \<and> (\<forall>n \<in> set names. CHR ''/'' \<notin> set n \<and> length (path_join dir n) < 1024))"

lemma walk_path_uncut: "length (path_join dir n) < 1024 \<Longrightarrow> walk_path dir n = path_join dir n"
  by (simp add: walk_path_def snprintf_cut_def)

lemma walked_below:
  assumes "view_tame os" and "walked os n dir p"
  shows "below dir p"
  using assms(2)
proof induction
  case (walked_file dir names name)
  then show ?case using assms(1) by (simp add: view_tame_def walk_path_uncut)
next
  case (walked_sub dir names name n p)
  then have "walk_path dir name = path_join dir name" using assms(1) by (simp add: view_tame_def walk_path_uncut)
  with walked_sub.IH show ?case by (metis below_path_join below_trans)
qed

lemma path_join_head:
  assumes "CHR ''/'' \<notin> set a" and "CHR ''/'' \<notin> set b"
    and "p = path_join dir a \<or> below (path_join dir a) p" and "p = path_join dir b \<or> below (path_join dir b) p"
  shows "a = b"
proof -
  have head: "takeWhile (\<lambda>c. c \<noteq> CHR ''/'') (drop (length dir + 1) p) = n"
    if "CHR ''/'' \<notin> set n" "p = path_join dir n \<or> below (path_join dir n) p" for n
  proof -
    from that(2) obtain rest where "p = dir @ ''/'' @ n @ rest" "rest = [] \<or> hd rest = CHR ''/''"
      by (auto simp: below_iff path_join_def)
    then show ?thesis using that(1) by (cases rest) (auto simp: takeWhile_tail takeWhile_eq_all_conv)
  qed
  show ?thesis using head [OF assms(1,3)] head [OF assms(2,4)] by simp
qed

lemma walk_entry_paths_under:
  assumes "view_tame os" and "length (path_join dir name) < 1024" and "p \<in> set (walk_entry_paths fds os dir name)"
  shows "p = path_join dir name \<or> below (path_join dir name) p"
  using assms walked_below [OF assms(1)]
  by (auto simp: walk_entry_paths_def walk_path_uncut set_walk_paths split: option.splits stat_kind.splits if_splits)

lemma distinct_walk_paths:
  assumes "view_tame os"
  shows "distinct (walk_paths fds os dir)"
proof (induction fds arbitrary: dir)
  case (Suc fds)
  show ?case
  proof (cases "os_opendir os dir")
    case (Some names)
    then have tame: "distinct names" "\<And>n. n \<in> set names \<Longrightarrow> CHR ''/'' \<notin> set n \<and> length (path_join dir n) < 1024"
      using assms by (auto simp: view_tame_def)
    have "distinct (concat (map (walk_entry_paths fds os dir) ns))"
      if "distinct ns" "set ns \<subseteq> set names" for ns
      using that
    proof (induction ns)
      case (Cons n ns)
      have one: "distinct (walk_entry_paths fds os dir n)"
        using Suc by (auto simp: walk_entry_paths_def split: option.split stat_kind.split)
      have "set (walk_entry_paths fds os dir n) \<inter> set (walk_entry_paths fds os dir m) = {}" if "m \<in> set ns" for m
      proof -
        have neq: "n \<noteq> m" and mem: "n \<in> set names" "m \<in> set names" using Cons.prems that by auto
        have "n = m" if "p \<in> set (walk_entry_paths fds os dir n)" "p \<in> set (walk_entry_paths fds os dir m)" for p
          using walk_entry_paths_under [OF assms _ that(1)] walk_entry_paths_under [OF assms _ that(2)]
            tame(2) [OF mem(1)] tame(2) [OF mem(2)] path_join_head by blast
        with neq show ?thesis by blast
      qed
      with one Cons show ?case by auto
    qed simp
    then show ?thesis using tame(1) Some by (simp add: walk_paths_Suc)
  qed (simp add: walk_paths_Suc)
qed simp

definition sample_view :: os_view where
  "sample_view = disk_view [(''fs'', Directory), (''fs/etc'', Directory), (''fs/a'', RegFile [1]),
     (''fs/etc/b'', RegFile [2]), (''fs/l'', SymLink ''fs/a'')]"

lemma sample_view_tame: "view_tame sample_view"
proof -
  have dirs: "dir = ''fs'' \<and> names = [''.'', ''..'', ''etc'', ''a'', ''l''] \<or>
      dir = ''fs/etc'' \<and> names = [''.'', ''..'', ''b'']"
    if "os_opendir sample_view dir = Some names" for dir names
  proof -
    let ?d = "[(''fs'', Directory), (''fs/etc'', Directory), (''fs/a'', RegFile [1]),
     (''fs/etc/b'', RegFile [2]), (''fs/l'', SymLink ''fs/a'')]"
    have l: "resolve_link MAX_LINKS ?d ''fs/l'' = Some ''fs/a''" by code_simp
    have n: "readdir_names ?d ''fs'' = [''.'', ''..'', ''etc'', ''a'', ''l'']"
      "readdir_names ?d ''fs/etc'' = [''.'', ''..'', ''b'']" by code_simp+
    from that obtain q where q: "resolve_link MAX_LINKS ?d dir = Some q" "lookup ?d q = Some Directory"
        "names = readdir_names ?d q"
      by (auto simp: sample_view_def disk_view_def split: option.splits if_splits)
    have "dir \<noteq> ''fs/l''" using q l by (auto simp: lookup_def)
    then have "resolve_link MAX_LINKS ?d dir = Some dir"
      using resolve_not_link [of ?d dir 39] by (auto simp: lookup_def MAX_LINKS_def)
    with q have "lookup ?d dir = Some Directory" "names = readdir_names ?d dir" by simp_all
    with n show ?thesis by (auto simp: lookup_def split: if_splits)
  qed
  show ?thesis unfolding view_tame_def by (auto dest!: dirs simp: path_join_def)
qed

section \<open>Properties\<close>

text \<open>
  C26: The walk calls the visitor on exactly the regular files that can be reached
  through fewer directories than there are streams left, each in the order it is met,
  and on nothing else; cycles of links end there.
\<close>

theorem walk_visits:
  "crimp_walk_directory fds os visit dir u = foldl (\<lambda>u p. visit p u) u (walk_paths fds os dir) \<and>
   set (walk_paths fds os dir) = {p. \<exists>n. n < fds \<and> walked os n dir p}"
  by (auto simp: set_walk_paths intro: walk_directory_foldl)

text \<open>
  C35: When directories list each name once, names have no slash and no path is cut,
  no file is visited twice and every visited path is below the root.
\<close>

theorem walk_each_once:
  assumes "view_tame os"
  shows "distinct (walk_paths fds os dir) \<and> filter (\<lambda>p. \<not> below dir p) (walk_paths fds os dir) = []"
  using assms by (auto simp: distinct_walk_paths filter_empty_conv set_walk_paths walked_below)

theorem walk_each_once_witness:
  "walk_paths 4 sample_view ''fs'' = [''fs/etc/b'', ''fs/a'', ''fs/l''] \<and>
   distinct (walk_paths 4 sample_view ''fs'')"
proof -
  have "walk_paths 4 sample_view ''fs'' = [''fs/etc/b'', ''fs/a'', ''fs/l'']" by code_simp
  then show ?thesis using walk_each_once [OF sample_view_tame, of 4 "''fs''"] by simp
qed

text \<open>
  C39: A directory whose path has 1023 characters leaves no room for a name: every
  entry's path is cut back to the directory's own, so the walk visits none of its files
  and instead walks the same directory again once per entry, at every level until no
  stream is left.
\<close>

theorem walk_truncation:
  assumes "length dir = 1023" and "os_opendir os dir = Some names" and "os_stat os dir = Some S_IFDIR"
  shows "crimp_walk_directory (Suc fds) os visit dir u =
      ((crimp_walk_directory fds os visit dir) ^^ length (filter (\<lambda>n. n \<noteq> ''.'' \<and> n \<noteq> ''..'') names)) u \<and>
    walk_paths fds os dir = []"
proof -
  have same: "walk_path dir n = dir" for n
    using assms(1) by (simp add: walk_path_def snprintf_cut_def path_join_def)
  have "foldl (\<lambda>u n. if n = ''.'' \<or> n = ''..'' then u else h u) v ns =
      (h ^^ length (filter (\<lambda>n. n \<noteq> ''.'' \<and> n \<noteq> ''..'') ns)) v" for h v ns
    by (induction ns arbitrary: v) (auto simp: funpow_swap1)
  then have "crimp_walk_directory (Suc fds) os visit dir u =
      ((crimp_walk_directory fds os visit dir) ^^ length (filter (\<lambda>n. n \<noteq> ''.'' \<and> n \<noteq> ''..'') names)) u"
    using assms(2,3) by (simp add: same cong: if_cong)
  moreover have "walk_paths fds os dir = []"
    using assms(2,3) by (induction fds) (auto simp: walk_paths_Suc walk_entry_paths_def same)
  ultimately show ?thesis by simp
qed

theorem walk_truncation_witness:
  "\<exists>os dir. length dir = 1023 \<and> os_opendir os dir = Some [''.'', ''..'', ''a'', ''b''] \<and>
     os_stat os (path_join dir ''a'') = Some S_IFREG \<and> walk_paths 1000 os dir = []"
proof -
  define dir where "dir = replicate 1023 CHR ''x''"
  define os where "os = \<lparr>os_stat = (\<lambda>p. if p = dir then Some S_IFDIR else Some S_IFREG),
    os_opendir = (\<lambda>p. if p = dir then Some [''.'', ''..'', ''a'', ''b''] else None), os_read = (\<lambda>p. Some [])\<rparr>"
  have l: "length dir = 1023" unfolding dir_def by (rule length_replicate)
  have o: "os_opendir os dir = Some [''.'', ''..'', ''a'', ''b'']" and t: "os_stat os dir = Some S_IFDIR"
    and f: "os_stat os (path_join dir ''a'') = Some S_IFREG"
    by (simp_all add: os_def)
  show ?thesis
    using walk_truncation [OF l o t, of 1000 "\<lambda>p u. u" "()"] l o f by blast
qed

end
