(* ===== verification/Components.thy ===== *)
theory Components
  imports CoreUtil
begin

text \<open>
  \<open>src/core/component_identify.c\<close>: the component inventory is built by looking, in
  every file of a tree, for the marker texts of four known components and for the
  version text behind them.
\<close>

section \<open>Markers\<close>

definition COMPONENT_SCAN_MAX :: nat where "COMPONENT_SCAN_MAX = 2 * 1024 * 1024"

record component_marker =
  cm_marker :: string
  cm_component_name :: string
  cm_allow_letter_suffix :: bool
  cm_dropbear_version_fallback :: bool

definition COMPONENT_MARKERS :: "component_marker list" where
  "COMPONENT_MARKERS =
    [\<lparr>cm_marker = ''BusyBox v'', cm_component_name = ''BusyBox'',
      cm_allow_letter_suffix = False, cm_dropbear_version_fallback = False\<rparr>,
     \<lparr>cm_marker = ''OpenSSL '', cm_component_name = ''OpenSSL'',
      cm_allow_letter_suffix = True, cm_dropbear_version_fallback = False\<rparr>,
     \<lparr>cm_marker = ''dropbear_'', cm_component_name = ''Dropbear'',
      cm_allow_letter_suffix = False, cm_dropbear_version_fallback = True\<rparr>,
     \<lparr>cm_marker = ''Linux version '', cm_component_name = ''Linux kernel'',
      cm_allow_letter_suffix = False, cm_dropbear_version_fallback = False\<rparr>]"

section \<open>The version behind a marker\<close>

definition version_char :: "bool \<Rightarrow> char \<Rightarrow> bool" where
  "version_char allow_letter_suffix c \<longleftrightarrow>
     is_digit_c c \<or> c = CHR ''.'' \<or> c = CHR ''-'' \<or>
     (allow_letter_suffix \<and> CHR ''a'' \<le> c \<and> c \<le> CHR ''z'')"

text \<open>
  The copy loop over the \<open>max_len\<close> bytes behind the marker (the list), with room for
  \<open>out_size - 1\<close> characters.
\<close>

fun extract_version :: "string \<Rightarrow> nat \<Rightarrow> bool \<Rightarrow> string" where
  "extract_version [] room allow_letter_suffix = []"
| "extract_version (c # cs) room allow_letter_suffix =
     (if room > 0 \<and> c \<noteq> CHR 0x00 \<and> version_char allow_letter_suffix c
      then c # extract_version cs (room - 1) allow_letter_suffix else [])"

lemma extract_version_takeWhile:
  "extract_version s room allow = take room (takeWhile (\<lambda>c. c \<noteq> CHR 0x00 \<and> version_char allow c) s)"
  by (induction s room allow rule: extract_version.induct) (auto simp: take_Cons')

lemma version_char_print: "version_char allow c \<Longrightarrow> is_print_c c"
proof -
  assume a: "version_char allow c"
  have r: "CHR 0x20 \<le> CHR ''0''" "CHR ''9'' \<le> CHR 0x7E" "CHR 0x20 \<le> CHR ''a''" "CHR ''z'' \<le> CHR 0x7E"
    "is_print_c CHR ''.''" "is_print_c CHR ''-''"
    by code_simp+
  from a consider "is_digit_c c" | "c = CHR ''.''" | "c = CHR ''-''" | "CHR ''a'' \<le> c \<and> c \<le> CHR ''z''"
    unfolding version_char_def by blast
  then show ?thesis
  proof cases
    case 1 then show ?thesis unfolding is_digit_c_def is_print_c_def using r(1,2) by (metis order.trans)
  next
    case 4 then show ?thesis unfolding is_print_c_def using r(3,4) by (metis order.trans)
  qed (use r in simp_all)
qed

lemma extract_version_clean:
  "list_all is_print_c (extract_version s room allow) \<and> length (extract_version s room allow) \<le> room"
  unfolding extract_version_takeWhile
  by (auto simp: list_all_iff dest!: in_set_takeD set_takeWhileD intro: version_char_print)

section \<open>The fallback for Dropbear\<close>

definition looks_like_dropbear_version :: "string \<Rightarrow> bool" where
  "looks_like_dropbear_version tok =
     (if length tok < 6 \<or> length tok > 8 then False
      else if \<not> list_all is_digit_c (take 4 tok) then False
      else if tok ! 4 \<noteq> CHR ''.'' then False
      else list_all is_digit_c (drop 5 tok))"

definition token_mentions_dropbear :: "string \<Rightarrow> bool" where
  "token_mentions_dropbear tok \<longleftrightarrow>
     crimp_memfind tok ''dropbear'' \<noteq> None \<or> crimp_memfind tok ''Dropbear'' \<noteq> None"

text \<open>
  One complete token, with the previous token and the candidate (null pointers are
  None): the version found, or the next candidate.
\<close>

definition dropbear_token :: "string \<Rightarrow> string option \<Rightarrow> string option \<Rightarrow> nat \<Rightarrow> string + string option" where
  "dropbear_token tok prev_tok candidate out_size =
     (if (case candidate of Some v \<Rightarrow> token_mentions_dropbear tok \<and> length v < out_size | None \<Rightarrow> False)
      then Inl (the candidate)
      else if looks_like_dropbear_version tok then
        (if (case prev_tok of Some p \<Rightarrow> token_mentions_dropbear p \<and> length tok < out_size | None \<Rightarrow> False)
         then Inl tok else Inr (Some tok))
      else Inr None)"

text \<open>The loop over the bytes of the buffer; \<open>tok\<close> is what has been read of the current token.\<close>

fun dropbear_loop :: "nat \<Rightarrow> string \<Rightarrow> string \<Rightarrow> string option \<Rightarrow> string option \<Rightarrow> string option" where
  "dropbear_loop out_size [] tok prev_tok candidate =
     (case dropbear_token tok prev_tok candidate out_size of Inl v \<Rightarrow> Some v | Inr candidate' \<Rightarrow> None)"
| "dropbear_loop out_size (c # buf) tok prev_tok candidate =
     (if c \<noteq> CHR 0x00 then dropbear_loop out_size buf (tok @ [c]) prev_tok candidate
      else (case dropbear_token tok prev_tok candidate out_size of
              Inl v \<Rightarrow> Some v
            | Inr candidate' \<Rightarrow> dropbear_loop out_size buf [] (Some tok) candidate'))"

definition find_isolated_dropbear_version :: "string \<Rightarrow> nat \<Rightarrow> string option" where
  "find_isolated_dropbear_version buf out_size = dropbear_loop out_size buf [] None None"

text \<open>
  The reference: the NUL-separated tokens of the buffer, and the first two neighbours
  one of which has the shape of a version while the other names the program.
\<close>

fun nul_tokens :: "string \<Rightarrow> string \<Rightarrow> string list" where
  "nul_tokens tok [] = [tok]"
| "nul_tokens tok (c # buf) = (if c = CHR 0x00 then tok # nul_tokens [] buf else nul_tokens (tok @ [c]) buf)"

definition neighbour_version :: "string \<times> string \<Rightarrow> string option" where
  "neighbour_version = (\<lambda>(a, b).
     if looks_like_dropbear_version a \<and> token_mentions_dropbear b then Some a
     else if looks_like_dropbear_version b \<and> token_mentions_dropbear a then Some b
     else None)"

fun first_some :: "('a \<Rightarrow> 'b option) \<Rightarrow> 'a list \<Rightarrow> 'b option" where
  "first_some f [] = None"
| "first_some f (x # xs) = (case f x of Some y \<Rightarrow> Some y | None \<Rightarrow> first_some f xs)"

definition candidate_of :: "string option \<Rightarrow> string option" where
  "candidate_of prev = (case prev of Some p \<Rightarrow> if looks_like_dropbear_version p then Some p else None | None \<Rightarrow> None)"

lemma dropbear_version_short: "looks_like_dropbear_version tok \<Longrightarrow> length tok < 64"
  by (auto simp: looks_like_dropbear_version_def split: if_splits)

lemma dropbear_token_neighbours:
  "dropbear_token tok prev (candidate_of prev) 64 =
     (case prev of None \<Rightarrow> Inr (candidate_of (Some tok))
      | Some p \<Rightarrow> (case neighbour_version (p, tok) of Some v \<Rightarrow> Inl v | None \<Rightarrow> Inr (candidate_of (Some tok))))"
  by (cases prev)
    (auto simp: dropbear_token_def candidate_of_def neighbour_version_def dropbear_version_short)

lemma nul_tokens_nonempty: "nul_tokens tok buf \<noteq> []"
  by (induction tok buf rule: nul_tokens.induct) auto

lemma dropbear_loop_pairs:
  "dropbear_loop 64 buf tok prev (candidate_of prev) =
     (let ts = nul_tokens tok buf
      in first_some neighbour_version (case prev of None \<Rightarrow> zip ts (tl ts) | Some p \<Rightarrow> zip (p # ts) ts))"
proof (induction buf arbitrary: tok prev)
  case Nil
  then show ?case by (auto simp: dropbear_token_neighbours split: option.split)
next
  case (Cons c buf)
  show ?case
  proof (cases "c = CHR 0x00")
    case True
    have z: "zip (tok # nul_tokens [] buf) (tl (tok # nul_tokens [] buf)) = zip (tok # nul_tokens [] buf) (nul_tokens [] buf)"
      by simp
    show ?thesis
      using True Cons [of "[]" "Some tok"] z
      by (cases prev) (auto simp: dropbear_token_neighbours Let_def split: option.split)
  next
    case False
    then show ?thesis using Cons by simp
  qed
qed

section \<open>Scanning one file\<close>

definition file_size64 :: "byte list \<Rightarrow> int" where
  "file_size64 f = int (length f)"

text \<open>What the heap buffer holds, None for a null pointer.\<close>

definition read_file_for_scan :: "os_view \<Rightarrow> string \<Rightarrow> string option" where
  "read_file_for_scan os path =
     (case os_read os path of
        None \<Rightarrow> None
      | Some f \<Rightarrow>
          (let sz = file_size64 f
           in if sz < 0 then None
              else let to_read = (if nat sz > COMPONENT_SCAN_MAX then COMPONENT_SCAN_MAX else nat sz)
                   in if to_read = 0 then None else Some (text_of (take to_read f))))"

text \<open>
  The search loop of one marker from \<open>search_start\<close>: \<open>found_any\<close> and, when \<open>matched\<close>,
  the version. The version buffer has 64 bytes.
\<close>

function marker_search :: "string \<Rightarrow> component_marker \<Rightarrow> nat \<Rightarrow> bool \<Rightarrow> bool \<times> string option" where
  "marker_search buf m search_start found_any =
     (if length buf - search_start > 0 then
        (case crimp_memfind (drop search_start buf) (cm_marker m) of
           None \<Rightarrow> (found_any, None)
         | Some i \<Rightarrow>
             (let found = search_start + i;
                  version = extract_version (drop (found + length (cm_marker m)) buf) 63
                              (cm_allow_letter_suffix m)
              in if version \<noteq> [] then (True, Some version)
                 else marker_search buf m (found + 1) True))
      else (found_any, None))"
  by pat_completeness auto
termination by (relation "measure (\<lambda>(buf, m, s, f). length buf - s)") auto

declare marker_search.simps [simp del]

definition scan_marker :: "string \<Rightarrow> string \<Rightarrow> crimp_component_list \<Rightarrow> component_marker \<Rightarrow> crimp_component_list" where
  "scan_marker path buf out m =
     (case marker_search buf m 0 False of
        (found_any, matched) \<Rightarrow>
          (let matched' = (if matched = None \<and> found_any \<and> cm_dropbear_version_fallback m
                           then find_isolated_dropbear_version buf 64 else matched)
           in case matched' of
                Some version \<Rightarrow> crimp_component_list_add out (cm_component_name m) version path
              | None \<Rightarrow> if found_any then crimp_component_list_add out (cm_component_name m) [] path else out))"

definition component_scan_file :: "os_view \<Rightarrow> string \<Rightarrow> crimp_component_list \<Rightarrow> crimp_component_list" where
  "component_scan_file os path out =
     (case read_file_for_scan os path of
        None \<Rightarrow> out
      | Some buf \<Rightarrow> foldl (scan_marker path buf) out COMPONENT_MARKERS)"

definition crimp_identify_components :: "nat \<Rightarrow> os_view \<Rightarrow> string \<Rightarrow> crimp_component_list \<Rightarrow> crimp_component_list" where
  "crimp_identify_components fds os root_path out =
     crimp_walk_directory fds os (component_scan_file os) root_path out"

section \<open>Every occurrence is tried\<close>

definition marker_occurrences :: "string \<Rightarrow> component_marker \<Rightarrow> nat \<Rightarrow> nat list" where
  "marker_occurrences buf m s = filter (occurs_at buf (cm_marker m)) [s..<length buf]"

definition version_at :: "string \<Rightarrow> component_marker \<Rightarrow> nat \<Rightarrow> string" where
  "version_at buf m i =
     take 63 (takeWhile (\<lambda>c. c \<noteq> CHR 0x00 \<and> version_char (cm_allow_letter_suffix m) c)
                (drop (i + length (cm_marker m)) buf))"

lemma filter_upt_find:
  assumes "List.find P [s..<n] = Some k"
  shows "filter P [s..<n] = k # filter P [Suc k..<n]" and "s \<le> k" and "k < n"
proof -
  from assms obtain i where i: "i < n - s" "P (s + i)" "k = s + i" "\<forall>j<i. \<not> P (s + j)"
    by (auto simp: find_Some_iff)
  then show "s \<le> k" and "k < n" by auto
  then have "[s..<n] = [s..<k] @ k # [Suc k..<n]"
    using upt_add_eq_append [of s k "n - k"] upt_conv_Cons [of k n] by simp
  moreover have "filter P [s..<k] = []"
    using i by (auto simp: filter_empty_conv) (metis add_diff_inverse_nat less_diff_conv2 linorder_not_less add.commute)
  ultimately show "filter P [s..<n] = k # filter P [Suc k..<n]" using i by simp
qed

lemma memfind_drop:
  assumes "n \<noteq> []"
  shows "crimp_memfind (drop s h) n = map_option (\<lambda>k. k - s) (List.find (occurs_at h n) [s..<length h])"
proof (cases "s \<le> length h")
  case True
  then have "[s..<length h] = map (\<lambda>i. i + s) [0..<length h - s]" using map_add_upt [of s "length h - s"] by simp
  moreover have "occurs_at (drop s h) n = (\<lambda>i. occurs_at h n (i + s))"
    by (simp add: fun_eq_iff occurs_at_def)
  ultimately show ?thesis
    using assms by (simp add: memfind_find find_map option.map_comp comp_def option.map_ident)
qed (use assms in \<open>simp add: memfind_find\<close>)

lemma marker_search_occurrences:
  assumes "cm_marker m \<noteq> []"
  shows "marker_search buf m s fa =
    (fa \<or> marker_occurrences buf m s \<noteq> [],
     List.find (\<lambda>v. v \<noteq> []) (map (version_at buf m) (marker_occurrences buf m s)))"
  using assms
proof (induction buf m s fa rule: marker_search.induct)
  case (1 buf m s fa)
  show ?case
  proof (cases "List.find (occurs_at buf (cm_marker m)) [s..<length buf]")
    case None
    then have "marker_occurrences buf m s = []"
      by (auto simp: marker_occurrences_def find_None_iff filter_empty_conv)
    with None "1.prems" show ?thesis by (auto simp: marker_search.simps [of buf m s fa] memfind_drop)
  next
    case (Some k)
    note k = filter_upt_find [OF Some]
    have mf: "crimp_memfind (drop s buf) (cm_marker m) = Some (k - s)"
      using Some "1.prems" by (simp add: memfind_drop)
    have occ: "marker_occurrences buf m s = k # marker_occurrences buf m (k + 1)"
      using k by (simp add: marker_occurrences_def)
    have v: "extract_version (drop (s + (k - s) + length (cm_marker m)) buf) 63 (cm_allow_letter_suffix m) = version_at buf m k"
      using k by (simp add: extract_version_takeWhile version_at_def)
    have pos: "length buf - s > 0" using k by simp
    show ?thesis
    proof (cases "version_at buf m k = []")
      case True
      have "marker_search buf m s fa = marker_search buf m (k + 1) True"
        using mf pos v True k by (simp add: marker_search.simps [of buf m s fa] Let_def)
      also have "\<dots> = (True, List.find (\<lambda>v. v \<noteq> []) (map (version_at buf m) (marker_occurrences buf m (k + 1))))"
        using "1.IH" [OF pos mf refl refl] "1.prems" v True k by simp
      finally show ?thesis using occ True by simp
    next
      case False
      then show ?thesis using mf pos v occ by (simp add: marker_search.simps [of buf m s fa] Let_def)
    qed
  qed
qed

text \<open>What one file adds for one marker, and for all.\<close>

definition marker_component :: "string \<Rightarrow> string \<Rightarrow> component_marker \<Rightarrow> crimp_component list" where
  "marker_component path buf m =
     (let occ = marker_occurrences buf m 0;
          direct = List.find (\<lambda>v. v \<noteq> []) (map (version_at buf m) occ);
          version = (if direct = None \<and> cm_dropbear_version_fallback m
                     then first_some neighbour_version (zip (nul_tokens [] buf) (tl (nul_tokens [] buf)))
                     else direct)
      in if occ = [] then []
         else [\<lparr>cc_component = cm_component_name m,
                cc_version = (case version of Some v \<Rightarrow> v | None \<Rightarrow> []), cc_path = path\<rparr>])"

definition scanned_text :: "os_view \<Rightarrow> string \<Rightarrow> string" where
  "scanned_text os path =
     (case os_read os path of None \<Rightarrow> [] | Some f \<Rightarrow> text_of (take COMPONENT_SCAN_MAX f))"

definition file_components :: "os_view \<Rightarrow> string \<Rightarrow> crimp_component list" where
  "file_components os path = concat (map (marker_component path (scanned_text os path)) COMPONENT_MARKERS)"

lemma find_isolated_neighbours:
  "find_isolated_dropbear_version buf 64 = first_some neighbour_version (zip (nul_tokens [] buf) (tl (nul_tokens [] buf)))"
  using dropbear_loop_pairs [of buf "[]" None]
  by (simp add: find_isolated_dropbear_version_def candidate_of_def Let_def)

lemma digit_print: "is_digit_c c \<Longrightarrow> is_print_c c"
  by (rule version_char_print [of False]) (simp add: version_char_def)

lemma dropbear_version_print:
  assumes "looks_like_dropbear_version tok"
  shows "list_all is_print_c tok"
proof -
  have "tok = take 4 tok @ tok ! 4 # drop 5 tok"
    using assms id_take_nth_drop [of 4 tok] by (auto simp: looks_like_dropbear_version_def split: if_splits)
  moreover have "list_all is_print_c (take 4 tok)" "list_all is_print_c (drop 5 tok)" "is_print_c (tok ! 4)"
    using assms version_char_print [of False "CHR ''.''"]
    by (auto simp: looks_like_dropbear_version_def version_char_def list_all_iff digit_print split: if_splits)
  ultimately show ?thesis by (metis list_all_append list.pred_inject(2))
qed

lemma first_some_SomeD: "first_some f xs = Some y \<Longrightarrow> \<exists>x \<in> set xs. f x = Some y"
  by (induction xs) (auto split: option.splits)

lemma neighbour_version_clean:
  "first_some neighbour_version ps = Some v \<Longrightarrow> list_all is_print_c v \<and> length v \<le> 63 \<and> v \<noteq> []"
  by (drule first_some_SomeD)
    (auto simp: neighbour_version_def dropbear_version_print looks_like_dropbear_version_def split: if_splits)

lemma version_at_clean: "list_all is_print_c (version_at buf m i) \<and> length (version_at buf m i) \<le> 63"
  using extract_version_clean [of _ 63] by (simp add: version_at_def extract_version_takeWhile)

lemma find_map_clean:
  "List.find P (map (version_at buf m) is) = Some v \<Longrightarrow> list_all is_print_c v \<and> length v \<le> 63"
  using find_SomeD [of P "map (version_at buf m) is" v] version_at_clean by auto

lemma scan_marker_items:
  assumes "cm_marker m \<noteq> []"
  shows "v_items (scan_marker path buf out m) = v_items out @ marker_component path buf m"
proof -
  define version where "version = (if List.find (\<lambda>v. v \<noteq> []) (map (version_at buf m) (marker_occurrences buf m 0)) = None
      \<and> cm_dropbear_version_fallback m then find_isolated_dropbear_version buf 64
     else List.find (\<lambda>v. v \<noteq> []) (map (version_at buf m) (marker_occurrences buf m 0)))"
  have clean: "copy_version 63 v = v" if "version = Some v" for v
    using that find_map_clean neighbour_version_clean unfolding version_def find_isolated_neighbours
    by (intro copy_version_id) (auto split: if_splits)
  show ?thesis
  proof (cases "marker_occurrences buf m 0 = []")
    case True
    then show ?thesis by (simp add: scan_marker_def marker_search_occurrences [OF assms] marker_component_def Let_def)
  next
    case False
    then have "scan_marker path buf out m = (case version of
        Some v \<Rightarrow> crimp_component_list_add out (cm_component_name m) v path
      | None \<Rightarrow> crimp_component_list_add out (cm_component_name m) [] path)"
      by (simp add: scan_marker_def marker_search_occurrences [OF assms] version_def Let_def cong: option.case_cong)
    moreover have "marker_component path buf m =
       [\<lparr>cc_component = cm_component_name m, cc_version = (case version of Some v \<Rightarrow> v | None \<Rightarrow> []), cc_path = path\<rparr>]"
      using False by (simp add: marker_component_def version_def find_isolated_neighbours Let_def)
    ultimately show ?thesis using clean by (cases version) auto
  qed
qed

lemma markers_nonempty: "m \<in> set COMPONENT_MARKERS \<Longrightarrow> cm_marker m \<noteq> []"
  by (auto simp: COMPONENT_MARKERS_def)

lemma foldl_append_items_on:
  assumes "\<And>l x. x \<in> set xs \<Longrightarrow> v_items (step l x) = v_items l @ g x"
  shows "v_items (foldl step l xs) = v_items l @ concat (map g xs)"
  using assms by (induction xs arbitrary: l) simp_all

lemma component_scan_file_items:
  "v_items (component_scan_file os path out) = v_items out @ file_components os path"
proof (cases "read_file_for_scan os path")
  case None
  then have e: "scanned_text os path = []"
    by (auto simp: read_file_for_scan_def scanned_text_def file_size64_def Let_def text_of_def COMPONENT_SCAN_MAX_def
        split: option.splits if_splits)
  have "marker_component path [] m = []" for m by (simp add: marker_component_def marker_occurrences_def Let_def)
  then have "file_components os path = []" by (simp add: file_components_def e)
  with None show ?thesis by (simp add: component_scan_file_def)
next
  case (Some buf)
  then have "scanned_text os path = buf"
    by (auto simp: read_file_for_scan_def scanned_text_def file_size64_def Let_def split: option.splits if_splits)
  moreover have "v_items (foldl (scan_marker path buf) out COMPONENT_MARKERS) =
      v_items out @ concat (map (marker_component path buf) COMPONENT_MARKERS)"
    by (rule foldl_append_items_on) (simp add: scan_marker_items markers_nonempty)
  ultimately show ?thesis using Some by (simp add: component_scan_file_def file_components_def)
qed

interpretation component_visitor: file_visitor "component_scan_file os" v_items "file_components os" for os
  by unfold_locales (rule component_scan_file_items)

lemma identify_components_items:
  "v_items (crimp_identify_components fds os root out) =
     v_items out @ concat (map (file_components os) (walk_paths fds os root))"
  unfolding crimp_identify_components_def by (rule component_visitor.walk_reports)

lemma marker_component_clean: "list_all component_clean (marker_component path buf m)"
proof (cases "marker_occurrences buf m 0 = []")
  case False
  define version where "version = (if List.find (\<lambda>v. v \<noteq> []) (map (version_at buf m) (marker_occurrences buf m 0)) = None
      \<and> cm_dropbear_version_fallback m
     then first_some neighbour_version (zip (nul_tokens [] buf) (tl (nul_tokens [] buf)))
     else List.find (\<lambda>v. v \<noteq> []) (map (version_at buf m) (marker_occurrences buf m 0)))"
  have "version = Some v \<Longrightarrow> list_all is_print_c v \<and> length v \<le> 63" for v
    using find_map_clean neighbour_version_clean unfolding version_def by (auto split: if_splits)
  moreover have "marker_component path buf m =
       [\<lparr>cc_component = cm_component_name m, cc_version = (case version of Some v \<Rightarrow> v | None \<Rightarrow> []), cc_path = path\<rparr>]"
    using False by (simp add: marker_component_def version_def Let_def)
  ultimately show ?thesis by (cases version) (simp_all add: component_clean_def)
qed (simp add: marker_component_def Let_def)

lemma file_components_clean: "list_all component_clean (file_components os path)"
  using marker_component_clean by (auto simp: file_components_def list_all_iff)

section \<open>Properties\<close>

text \<open>
  C27: The inventory keeps what it held and gains, file by file in walk order and marker
  by marker, one component for every marker that occurs in the scanned part (the first
  2 MiB) of a file, NUL bytes included. Its version is the first non-empty version text
  behind any occurrence of the marker; for Dropbear, when there is none, the first
  neighbouring pair of NUL-separated texts that gives one; otherwise it is empty. Every
  version is printable and at most 63 characters long.
\<close>

theorem identify_components_reports:
  "v_items (crimp_identify_components fds os root out) =
     v_items out @ concat (map (file_components os) (walk_paths fds os root)) \<and>
   list_all component_clean (concat (map (file_components os) (walk_paths fds os root)))"
  using file_components_clean by (auto simp: identify_components_items list_all_iff)

text \<open>
  C32: The one-pass search for an isolated Dropbear version, with its pending candidate,
  finds the same as looking at the NUL-separated texts of the buffer two neighbours at a
  time: the first pair in which one has the shape of a version and the other names
  Dropbear.
\<close>

theorem dropbear_version_neighbours:
  "find_isolated_dropbear_version buf 64 =
     first_some neighbour_version (zip (nul_tokens [] buf) (tl (nul_tokens [] buf)))"
  by (rule find_isolated_neighbours)

text \<open>
  C38: For a marker that allows a letter suffix, a letter directly behind the first
  occurrence of the marker is taken for the start of a version: words are recorded as
  the version of the component, and no later occurrence, whatever version follows it, is
  looked at.
\<close>

theorem letters_taken_for_version:
  assumes "crimp_memfind buf (cm_marker m) = Some (length pre)"
    and "buf = pre @ cm_marker m @ c # rest" and "cm_allow_letter_suffix m"
    and "CHR ''a'' \<le> c" and "c \<le> CHR ''z''"
  shows "v_items (scan_marker path buf out m) = v_items out @
    [\<lparr>cc_component = cm_component_name m,
      cc_version = c # take 62 (takeWhile (\<lambda>d. d \<noteq> CHR 0x00 \<and> version_char True d) rest), cc_path = path\<rparr>]"
proof -
  let ?w = "take 62 (takeWhile (\<lambda>d. d \<noteq> CHR 0x00 \<and> version_char True d) rest)"
  have nz: "c \<noteq> CHR 0x00" using assms(4) by (auto simp: less_eq_char_def)
  have vc: "version_char True c" using assms(4,5) by (simp add: version_char_def)
  have ne: "cm_marker m \<noteq> []" using assms(1) by (auto simp: memfind_Some_iff)
  have at: "version_at buf m (length pre) = c # ?w"
    using assms(2,3) nz vc by (simp add: version_at_def)
  have "List.find (occurs_at buf (cm_marker m)) [0..<length buf] = Some (length pre)"
    using assms(1) ne by (simp add: memfind_find)
  from filter_upt_find(1) [OF this]
  have occ: "marker_occurrences buf m 0 = length pre # marker_occurrences buf m (Suc (length pre))"
    by (simp add: marker_occurrences_def)
  then show ?thesis
    by (simp add: scan_marker_items [OF ne] marker_component_def at Let_def)
qed

theorem letters_taken_for_version_witness:
  "v_items (scan_marker ''p'' ''OpenSSL is needed, OpenSSL 1.1.1k'' crimp_component_list_init (COMPONENT_MARKERS ! 1)) =
     [\<lparr>cc_component = ''OpenSSL'', cc_version = ''is'', cc_path = ''p''\<rparr>]"
proof -
  let ?m = "COMPONENT_MARKERS ! 1" and ?b = "''OpenSSL is needed, OpenSSL 1.1.1k''"
  have m: "cm_marker ?m = ''OpenSSL ''" "cm_component_name ?m = ''OpenSSL''" "cm_allow_letter_suffix ?m"
    by (simp_all add: COMPONENT_MARKERS_def)
  have f: "crimp_memfind ?b (cm_marker ?m) = Some (length [])" unfolding m by code_simp
  have b: "?b = [] @ cm_marker ?m @ CHR ''i'' # ''s needed, OpenSSL 1.1.1k''" unfolding m by simp
  have c: "CHR ''a'' \<le> CHR ''i''" "CHR ''i'' \<le> CHR ''z''" by code_simp+
  have w: "take 62 (takeWhile (\<lambda>d. d \<noteq> CHR 0x00 \<and> version_char True d) ''s needed, OpenSSL 1.1.1k'') = ''s''" by code_simp
  show ?thesis
    using letters_taken_for_version [OF f b m(3) c, of "''p''" crimp_component_list_init] unfolding w m
    by (simp add: crimp_component_list_init_def)
qed

end
