(* ===== verification/Yaml.thy ===== *)
theory Yaml
  imports CoreUtil
begin

text \<open>
  \<open>src/core/yaml_util.c\<close>: reading scalars and mappings out of a document that libyaml
  has parsed. libyaml is not part of the program. A document is what its interface
  gives, the root node and the node of an index, both arbitrary; a loader from the
  bytes of a file to a document is a parameter of the routines that open one.
\<close>

datatype yaml_node =
  YAML_NO_NODE
| YAML_SCALAR_NODE string
| YAML_SEQUENCE_NODE "int list"
| YAML_MAPPING_NODE "(int \<times> int) list"

record yaml_document =
  yd_root :: "yaml_node option"
  yd_node :: "int \<Rightarrow> yaml_node option"

type_synonym yaml_loader = "byte list \<Rightarrow> yaml_document option"

text \<open>The C string the fresh buffer holds; a null node pointer is None.\<close>

definition crimp_yaml_dup_scalar :: "yaml_node option \<Rightarrow> string option" where
  "crimp_yaml_dup_scalar node =
     (case node of Some (YAML_SCALAR_NODE v) \<Rightarrow> Some (c_string v) | _ \<Rightarrow> None)"

fun mapping_pairs_get :: "yaml_document \<Rightarrow> (int \<times> int) list \<Rightarrow> string \<Rightarrow> yaml_node option" where
  "mapping_pairs_get doc [] key = None"
| "mapping_pairs_get doc ((k, v) # pairs) key =
     (if yd_node doc k = Some (YAML_SCALAR_NODE key) then yd_node doc v
      else mapping_pairs_get doc pairs key)"

definition crimp_yaml_mapping_get ::
  "yaml_document \<Rightarrow> yaml_node option \<Rightarrow> string \<Rightarrow> yaml_node option" where
  "crimp_yaml_mapping_get doc map_node key =
     (case map_node of Some (YAML_MAPPING_NODE pairs) \<Rightarrow> mapping_pairs_get doc pairs key | _ \<Rightarrow> None)"

definition crimp_yaml_str_to_lower :: "string \<Rightarrow> string" where
  "crimp_yaml_str_to_lower s = map ascii_lower s"

definition crimp_yaml_parse_severity :: "string \<Rightarrow> crimp_severity option" where
  "crimp_yaml_parse_severity s =
     (if s = ''low'' then Some CRIMP_SEVERITY_LOW
      else if s = ''medium'' then Some CRIMP_SEVERITY_MEDIUM
      else if s = ''high'' then Some CRIMP_SEVERITY_HIGH
      else if s = ''critical'' then Some CRIMP_SEVERITY_CRITICAL
      else None)"

text \<open>A scalar field of a mapping, as both readers of documents use the two routines.\<close>

definition yaml_field :: "yaml_document \<Rightarrow> yaml_node option \<Rightarrow> string \<Rightarrow> string option" where
  "yaml_field doc node key = crimp_yaml_dup_scalar (crimp_yaml_mapping_get doc node key)"

text \<open>A document given by its nodes, the first of which is the root; used in examples.\<close>

definition yaml_of_nodes :: "yaml_node list \<Rightarrow> yaml_document" where
  "yaml_of_nodes ns =
     \<lparr>yd_root = (case ns of [] \<Rightarrow> None | n # _ \<Rightarrow> Some n),
      yd_node = (\<lambda>i. if 1 \<le> i \<and> nat i \<le> length ns then Some (ns ! (nat i - 1)) else None)\<rparr>"

end
