(* ===== verification/Version.thy ===== *)
theory Version
  imports Prelude
begin

text \<open>
  The versions of \<open>src/core/cve_match.c\<close>: splitting a version into segments, comparing
  two versions, and deciding a comma-separated list of range conditions.
\<close>

section \<open>Segments\<close>

type_synonym version_segment = "u64 \<times> string"

text \<open>
  The digit loop: at most 18 digits are accumulated, a longer run saturates at
  \<open>ULLONG_MAX\<close>. The rest of the text is what the pointer is left at.
\<close>

fun parse_digits :: "string \<Rightarrow> nat \<Rightarrow> u64 \<Rightarrow> u64 \<times> string" where
  "parse_digits [] digits num = (num, [])"
| "parse_digits (c # cs) digits num =
     (if is_digit_c c then
        (if digits < 18 then parse_digits cs (digits + 1) (num * 10 + of_nat (of_char c - 48))
         else parse_digits cs digits (- 1))
      else (num, c # cs))"

text \<open>The suffix loop, with room for seven letters.\<close>

fun parse_suffix :: "string \<Rightarrow> nat \<Rightarrow> string \<times> string" where
  "parse_suffix [] i = ([], [])"
| "parse_suffix (c # cs) i =
     (if is_alpha_c c \<and> i < 7 then (case parse_suffix cs (i + 1) of (s, p) \<Rightarrow> (ascii_lower c # s, p))
      else ([], c # cs))"

definition is_separator :: "char \<Rightarrow> bool" where
  "is_separator c \<longleftrightarrow> c = CHR ''.'' \<or> c = CHR ''-''"

definition parse_segment :: "string \<Rightarrow> version_segment \<times> string" where
  "parse_segment p =
     (case parse_digits p 0 0 of (num, p1) \<Rightarrow>
        (case parse_suffix p1 0 of (suffix, p2) \<Rightarrow>
           ((num, suffix), dropWhile (\<lambda>c. \<not> is_separator c) p2)))"

definition skip_separator :: "string \<Rightarrow> string" where
  "skip_separator p = (case p of [] \<Rightarrow> [] | c # cs \<Rightarrow> if is_separator c then cs else c # cs)"

fun c_strcmp :: "string \<Rightarrow> string \<Rightarrow> int" where
  "c_strcmp [] [] = 0"
| "c_strcmp [] (y # ys) = - 1"
| "c_strcmp (x # xs) [] = 1"
| "c_strcmp (x # xs) (y # ys) = (if x = y then c_strcmp xs ys else if x < y then - 1 else 1)"

definition zero_segment :: version_segment where "zero_segment = (0, [])"

definition segment_or_zero :: "string \<Rightarrow> version_segment \<times> string" where
  "segment_or_zero p = (if p \<noteq> [] then parse_segment p else (zero_segment, []))"

definition segment_compare :: "version_segment \<Rightarrow> version_segment \<Rightarrow> int" where
  "segment_compare sa sb =
     (if fst sa \<noteq> fst sb then (if fst sa < fst sb then - 1 else 1)
      else (let c = c_strcmp (snd sa) (snd sb) in if c \<noteq> 0 then (if c < 0 then - 1 else 1) else 0))"

lemma parse_digits_length: "length (snd (parse_digits p d n)) \<le> length p"
  by (induction p d n rule: parse_digits.induct) auto

lemma parse_suffix_length: "length (snd (parse_suffix p i)) \<le> length p"
  by (induction p i rule: parse_suffix.induct) (auto split: prod.split)

lemma segment_progress:
  assumes "p \<noteq> []"
  shows "length (skip_separator (snd (parse_segment p))) < length p"
proof -
  obtain num p1 where d: "parse_digits p 0 0 = (num, p1)" by fastforce
  obtain suffix p2 where s: "parse_suffix p1 0 = (suffix, p2)" by fastforce
  have l: "length p1 \<le> length p" "length p2 \<le> length p1"
    using parse_digits_length [of p 0 0] parse_suffix_length [of p1 0] d s by simp_all
  have r: "snd (parse_segment p) = dropWhile (\<lambda>c. \<not> is_separator c) p2" by (simp add: parse_segment_def d s)
  show ?thesis
  proof (cases "dropWhile (\<lambda>c. \<not> is_separator c) p2")
    case Nil
    with r assms show ?thesis by (simp add: skip_separator_def)
  next
    case (Cons c cs)
    then have "is_separator c" by (metis hd_dropWhile list.discI list.sel(1))
    moreover have "length (c # cs) \<le> length p2" using length_dropWhile_le [of _ p2] Cons by metis
    ultimately show ?thesis using r Cons l by (simp add: skip_separator_def)
  qed
qed

function version_compare :: "string \<Rightarrow> string \<Rightarrow> int" where
  "version_compare a b =
     (if a \<noteq> [] \<or> b \<noteq> [] then
        (case segment_or_zero a of (sa, a1) \<Rightarrow>
           (case segment_or_zero b of (sb, b1) \<Rightarrow>
              (let c = segment_compare sa sb
               in if c \<noteq> 0 then c else version_compare (skip_separator a1) (skip_separator b1))))
      else 0)"
  by pat_completeness auto
termination
proof (relation "measure (\<lambda>(a, b). length a + length b)", goal_cases)
  case (2 a b sa a1 sb b1 c)
  have len: "length (skip_separator (snd (segment_or_zero p))) \<le> length p \<and>
      (p \<noteq> [] \<longrightarrow> length (skip_separator (snd (segment_or_zero p))) < length p)" for p
    using segment_progress [of p] by (cases "p = []") (auto simp: segment_or_zero_def skip_separator_def)
  have "a1 = snd (segment_or_zero a)" "b1 = snd (segment_or_zero b)" using 2 by (metis snd_conv)+
  then show ?case using len [of a] len [of b] 2(1) by auto
qed simp

declare version_compare.simps [simp del]

section \<open>Range conditions\<close>

datatype range_op = OP_LT | OP_LE | OP_GT | OP_GE | OP_EQ

definition parse_op :: "string \<Rightarrow> (range_op \<times> string) option" where
  "parse_op p =
     (if take 2 p = ''<='' then Some (OP_LE, drop 2 p)
      else if take 2 p = ''>='' then Some (OP_GE, drop 2 p)
      else if take 2 p = ''=='' then Some (OP_EQ, drop 2 p)
      else if take 1 p = ''<'' then Some (OP_LT, drop 1 p)
      else if take 1 p = ''>'' then Some (OP_GT, drop 1 p)
      else None)"

fun op_holds :: "range_op \<Rightarrow> int \<Rightarrow> bool" where
  "op_holds OP_LT c = (c < 0)"
| "op_holds OP_LE c = (c \<le> 0)"
| "op_holds OP_GT c = (c > 0)"
| "op_holds OP_GE c = (c \<ge> 0)"
| "op_holds OP_EQ c = (c = 0)"

text \<open>The copy into the 64-byte token buffer: the token and where the pointer stops.\<close>

fun read_token :: "string \<Rightarrow> nat \<Rightarrow> string \<times> string" where
  "read_token [] i = ([], [])"
| "read_token (c # cs) i =
     (if c \<noteq> CHR '','' \<and> i < 63 then (case read_token cs (i + 1) of (t, p) \<Rightarrow> (c # t, p)) else ([], c # cs))"

lemma read_token_length: "length (snd (read_token p i)) \<le> length p"
  by (induction p i rule: read_token.induct) (auto split: prod.split)

lemma parse_op_length: "parse_op p = Some (op, q) \<Longrightarrow> length q < length p"
  by (auto simp: parse_op_def split: if_splits) (cases p; simp)+

function satisfies_loop :: "string \<Rightarrow> string \<Rightarrow> bool" where
  "satisfies_loop version p =
     (if p = [] then True
      else (case parse_op (dropWhile (\<lambda>c. c = CHR '' '') p) of
              None \<Rightarrow> False
            | Some (op, q) \<Rightarrow>
                (case read_token q 0 of (verbuf, r) \<Rightarrow>
                   if verbuf = [] \<or> (r \<noteq> [] \<and> hd r \<noteq> CHR '','') then False
                   else if \<not> op_holds op (version_compare version verbuf) then False
                   else satisfies_loop version (if r \<noteq> [] \<and> hd r = CHR '','' then tl r else r))))"
  by pat_completeness auto
termination
proof (relation "measure (\<lambda>(v, p). length p)", goal_cases)
  case (2 version p x op q verbuf r)
  have "length q < length (dropWhile (\<lambda>c. c = CHR '' '') p)" using 2 parse_op_length by metis
  moreover have "length r \<le> length q" using read_token_length [of q 0] 2 by (metis snd_conv)
  ultimately show ?case using length_dropWhile_le [of "\<lambda>c. c = CHR '' ''" p] by auto
qed simp

declare satisfies_loop.simps [simp del]

definition version_satisfies :: "string \<Rightarrow> string \<Rightarrow> bool" where
  "version_satisfies version affected = (if affected = [] then False else satisfies_loop version affected)"

section \<open>The order of versions\<close>

lemma c_strcmp_order:
  "c_strcmp xs ys < 0 \<longleftrightarrow> xs < ys" "0 < c_strcmp xs ys \<longleftrightarrow> ys < xs" "c_strcmp xs ys = 0 \<longleftrightarrow> xs = ys"
proof (induction xs ys rule: c_strcmp.induct)
  case (4 x xs y ys)
  case 1 then show ?case using 4 by auto
  case 2 then show ?case using 4 by auto
  case 3 then show ?case using 4 by auto
qed auto

lemma segment_compare_order:
  "segment_compare a b < 0 \<longleftrightarrow> a < b" "0 < segment_compare a b \<longleftrightarrow> b < a" "segment_compare a b = 0 \<longleftrightarrow> a = b"
  using c_strcmp_order [of "snd a" "snd b"]
  by (auto simp: segment_compare_def Let_def less_prod_def prod_eq_iff)

lemma zero_segment_least: "zero_segment \<le> s"
  by (cases s) (auto simp: zero_segment_def less_eq_prod_def order_less_le)

text \<open>
  The meaning of a version: its segments with trailing zero segments dropped, so that
  a missing segment counts as a zero one. Lists are ordered lexicographically, segments
  by number and then by suffix.
\<close>

function version_segments :: "string \<Rightarrow> version_segment list" where
  "version_segments p =
     (if p = [] then [] else fst (parse_segment p) # version_segments (skip_separator (snd (parse_segment p))))"
  by pat_completeness auto
termination by (relation "measure length") (auto simp: segment_progress)

declare version_segments.simps [simp del]

lemma version_segments_Nil [simp]: "version_segments [] = []"
  by (simp add: version_segments.simps)

fun trim_segments :: "version_segment list \<Rightarrow> version_segment list" where
  "trim_segments [] = []"
| "trim_segments (s # ss) =
     (if s = zero_segment \<and> trim_segments ss = [] then [] else s # trim_segments ss)"

definition version_key :: "string \<Rightarrow> version_segment list" where
  "version_key v = trim_segments (version_segments v)"

fun segments_compare :: "version_segment list \<Rightarrow> version_segment list \<Rightarrow> int" where
  "segments_compare [] [] = 0"
| "segments_compare [] (t # ts) =
     (if segment_compare zero_segment t \<noteq> 0 then segment_compare zero_segment t else segments_compare [] ts)"
| "segments_compare (s # ss) [] =
     (if segment_compare s zero_segment \<noteq> 0 then segment_compare s zero_segment else segments_compare ss [])"
| "segments_compare (s # ss) (t # ts) =
     (if segment_compare s t \<noteq> 0 then segment_compare s t else segments_compare ss ts)"

lemma skip_separator_Nil [simp]: "skip_separator [] = []"
  by (simp add: skip_separator_def)

lemma version_compare_segments: "version_compare a b = segments_compare (version_segments a) (version_segments b)"
proof (induction a b rule: version_compare.induct)
  case (1 a b)
  have rec: "version_compare a b = (let c = segment_compare (fst (segment_or_zero a)) (fst (segment_or_zero b))
      in if c \<noteq> 0 then c else segments_compare
        (version_segments (skip_separator (snd (segment_or_zero a))))
        (version_segments (skip_separator (snd (segment_or_zero b)))))" if "a \<noteq> [] \<or> b \<noteq> []"
    using 1 [OF that prod.collapse prod.collapse refl] that
    by (simp add: version_compare.simps [of a b] Let_def split_beta)
  show ?case
  proof (cases "a = []"; cases "b = []")
    assume "a = []" "b = []"
    then show ?thesis by (simp add: version_compare.simps)
  next
    assume "a = []" "b \<noteq> []"
    then show ?thesis using rec by (simp add: segment_or_zero_def version_segments.simps [of b] Let_def)
  next
    assume "a \<noteq> []" "b = []"
    then show ?thesis using rec by (simp add: segment_or_zero_def version_segments.simps [of a] Let_def)
  next
    assume "a \<noteq> []" "b \<noteq> []"
    then show ?thesis
      using rec by (simp add: segment_or_zero_def version_segments.simps [of a] version_segments.simps [of b] Let_def)
  qed
qed

lemma trim_below: "[] < trim_segments xs \<longleftrightarrow> trim_segments xs \<noteq> []"
  by (cases "trim_segments xs") simp_all

lemma zero_compare:
  "segment_compare zero_segment s < 0 \<longleftrightarrow> s \<noteq> zero_segment" "segment_compare zero_segment s = 0 \<longleftrightarrow> s = zero_segment"
  "0 < segment_compare s zero_segment \<longleftrightarrow> s \<noteq> zero_segment" "segment_compare s zero_segment = 0 \<longleftrightarrow> s = zero_segment"
  unfolding segment_compare_order using zero_segment_least [of s] by (metis order_less_le)+

lemma segments_compare_order:
  "(segments_compare xs ys < 0 \<longleftrightarrow> trim_segments xs < trim_segments ys) \<and>
   (0 < segments_compare xs ys \<longleftrightarrow> trim_segments ys < trim_segments xs)"
proof (induction xs ys rule: segments_compare.induct)
  case (2 t ts)
  show ?case
  proof (cases "t = zero_segment")
    case True
    then show ?thesis using 2 by (simp add: zero_compare trim_below)
  next
    case False
    then have "segment_compare zero_segment t < 0" "segment_compare zero_segment t \<noteq> 0" by (simp_all add: zero_compare)
    with False show ?thesis by simp
  qed
next
  case (3 s ss)
  show ?case
  proof (cases "s = zero_segment")
    case True
    then show ?thesis using 3 by (simp add: zero_compare trim_below)
  next
    case False
    then have "0 < segment_compare s zero_segment" "segment_compare s zero_segment \<noteq> 0" by (simp_all add: zero_compare)
    with False show ?thesis by simp
  qed
next
  case (4 s ss t ts)
  show ?case
  proof (cases "s = t")
    case True
    then have "segment_compare s t = 0" by (simp add: segment_compare_order)
    with 4 True show ?thesis by (auto simp: trim_below)
  next
    case False
    then have c: "segment_compare s t \<noteq> 0" by (simp add: segment_compare_order)
    have "trim_segments (s # ss) < trim_segments (t # ts) \<longleftrightarrow> s < t"
      using False zero_segment_least [of s] zero_segment_least [of t] by (auto simp: order_less_le)
    moreover have "trim_segments (t # ts) < trim_segments (s # ss) \<longleftrightarrow> t < s"
      using False zero_segment_least [of s] zero_segment_least [of t] by (auto simp: order_less_le)
    ultimately show ?thesis using c by (simp add: segment_compare_order)
  qed
qed simp

lemma segments_compare_sign: "segments_compare xs ys \<in> {- 1, 0, 1}"
  by (induction xs ys rule: segments_compare.induct) (auto simp: segment_compare_def Let_def)

lemma segments_compare_key:
  "trim_segments xs = trim_segments ys \<Longrightarrow> segments_compare zs xs = segments_compare zs ys"
  using segments_compare_order [of zs xs] segments_compare_order [of zs ys]
    segments_compare_sign [of zs xs] segments_compare_sign [of zs ys] by auto

lemma version_compare_key:
  "version_compare a b < 0 \<longleftrightarrow> version_key a < version_key b"
  "0 < version_compare a b \<longleftrightarrow> version_key b < version_key a"
  by (simp_all add: version_compare_segments segments_compare_order version_key_def)

interpretation version_order: comparator version_compare
  by (rule comparator_key [of _ version_key]) (rule version_compare_key)+

section \<open>The condition list against its grammar\<close>

text \<open>
  The reference: split at the commas, forget one empty text at the end, read each text
  as optional blanks, an operator and a version of 1 to 63 characters.
\<close>

fun split_comma :: "string \<Rightarrow> string list" where
  "split_comma [] = [[]]"
| "split_comma (c # cs) =
     (if c = CHR '','' then [] # split_comma cs
      else (case split_comma cs of [] \<Rightarrow> [[c]] | t # ts \<Rightarrow> (c # t) # ts))"

definition condition_texts :: "string \<Rightarrow> string list" where
  "condition_texts affected =
     (if last (split_comma affected) = [] then butlast (split_comma affected) else split_comma affected)"

definition parse_condition :: "string \<Rightarrow> (range_op \<times> string) option" where
  "parse_condition t =
     (case parse_op (dropWhile (\<lambda>c. c = CHR '' '') t) of
        None \<Rightarrow> None
      | Some (op, v) \<Rightarrow> if v = [] \<or> length v > 63 then None else Some (op, v))"

definition parse_conditions :: "string \<Rightarrow> (range_op \<times> string) list option" where
  "parse_conditions affected = those (map parse_condition (condition_texts affected))"

lemma split_comma_nonempty: "split_comma s \<noteq> []"
  by (induction s) (auto split: list.split)

lemma split_comma_append:
  "CHR '','' \<notin> set t \<Longrightarrow> split_comma (t @ CHR '','' # s) = t # split_comma s"
  "CHR '','' \<notin> set t \<Longrightarrow> split_comma t = [t]"
  by (induction t) auto

lemma condition_texts_simps:
  "condition_texts [] = []"
  "CHR '','' \<notin> set t \<Longrightarrow> condition_texts (t @ CHR '','' # s) = t # condition_texts s"
  "CHR '','' \<notin> set t \<Longrightarrow> t \<noteq> [] \<Longrightarrow> condition_texts t = [t]"
  using split_comma_nonempty [of s] by (auto simp: condition_texts_def split_comma_append)

lemma parse_op_append:
  "CHR '','' \<notin> set t \<Longrightarrow> parse_op (t @ CHR '','' # s) = map_option (\<lambda>(op, q). (op, q @ CHR '','' # s)) (parse_op t)"
  by (cases t rule: remdups_adj.cases) (auto simp: parse_op_def)

lemma parse_op_subset: "parse_op t = Some (op, q) \<Longrightarrow> set q \<subseteq> set t"
  by (auto simp: parse_op_def split: if_splits dest: in_set_dropD)

lemma read_token_eq:
  assumes "CHR '','' \<notin> set q" and "r = [] \<or> hd r = CHR '',''" and "i \<le> 63"
  shows "read_token (q @ r) i = (take (63 - i) q, drop (63 - i) q @ r)"
  using assms
proof (induction q arbitrary: i)
  case Nil
  then show ?case by (cases r) auto
next
  case (Cons c q)
  show ?case
  proof (cases "i = 63")
    case False
    then have "63 - i = Suc (63 - Suc i)" using Cons.prems by simp
    then show ?thesis using Cons.IH [of "Suc i"] Cons.prems False by auto
  qed (use Cons.prems in simp)
qed

text \<open>One round of the loop: one condition text and what follows its comma.\<close>

lemma satisfies_round:
  assumes "CHR '','' \<notin> set t" and "r = [] \<and> t \<noteq> [] \<or> (\<exists>s. r = CHR '','' # s)"
  shows "satisfies_loop v (t @ r) =
    (case parse_condition t of None \<Rightarrow> False
     | Some (op, w) \<Rightarrow> op_holds op (version_compare v w) \<and> satisfies_loop v (if r = [] then [] else tl r))"
proof -
  define u where "u = dropWhile (\<lambda>c. c = CHR '' '') t"
  have u: "CHR '','' \<notin> set u" unfolding u_def using assms(1) by (meson set_dropWhileD)
  have dw: "dropWhile (\<lambda>c. c = CHR '' '') (t @ r) = u @ r" if "\<exists>s. r = CHR '','' # s"
    using that unfolding u_def by (induction t) auto
  have op: "parse_op (dropWhile (\<lambda>c. c = CHR '' '') (t @ r)) = map_option (\<lambda>(op, q). (op, q @ r)) (parse_op u)"
    using assms(2)
  proof
    assume "r = [] \<and> t \<noteq> []"
    then show ?thesis by (cases "parse_op u") (auto simp: u_def)
  next
    assume "\<exists>s. r = CHR '','' # s"
    with dw u parse_op_append show ?thesis by auto
  qed
  have ne: "t @ r \<noteq> []" using assms(2) by auto
  have rs: "r = [] \<or> hd r = CHR '',''" using assms(2) by auto
  show ?thesis
  proof (cases "parse_op u")
    case None
    then show ?thesis using ne op by (simp add: satisfies_loop.simps [of v "t @ r"] parse_condition_def u_def)
  next
    case (Some oq)
    obtain op q where oq: "parse_op u = Some (op, q)" using Some by (cases oq) simp
    have q: "CHR '','' \<notin> set q" using parse_op_subset [OF oq] u by blast
    have rt: "read_token (q @ r) 0 = (take 63 q, drop 63 q @ r)"
      using read_token_eq [OF q rs, of 0] by simp
    have long: "drop 63 q @ r \<noteq> [] \<and> hd (drop 63 q @ r) \<noteq> CHR '',''" if "length q > 63"
    proof -
      have "drop 63 q \<noteq> []" using that by simp
      then have "hd (drop 63 q @ r) \<in> set q" by (metis hd_append2 hd_in_set in_set_dropD)
      then show ?thesis using q \<open>drop 63 q \<noteq> []\<close> by auto
    qed
    show ?thesis
    proof (cases "q = [] \<or> length q > 63")
      case True
      then show ?thesis
        using ne op oq rt long by (auto simp: satisfies_loop.simps [of v "t @ r"] parse_condition_def u_def)
    next
      case False
      then show ?thesis
        using ne op oq rt rs by (auto simp: satisfies_loop.simps [of v "t @ r"] parse_condition_def u_def)
    qed
  qed
qed

lemma comma_cases:
  obtains (none) "CHR '','' \<notin> set p" | (some) t s where "p = t @ CHR '','' # s" "CHR '','' \<notin> set t"
  using split_list_first [of "CHR '',''" p] by blast

lemma satisfies_loop_conditions:
  "satisfies_loop v p =
     (case parse_conditions p of None \<Rightarrow> False
      | Some cs \<Rightarrow> list_all (\<lambda>(op, w). op_holds op (version_compare v w)) cs)"
proof (induction p rule: length_induct)
  case (1 p)
  show ?case
  proof (cases "p = []")
    case True
    then show ?thesis by (simp add: satisfies_loop.simps parse_conditions_def condition_texts_simps)
  next
    case ne: False
    show ?thesis
    proof (cases p rule: comma_cases)
      case none
      then show ?thesis
        using satisfies_round [of p "[]" v] ne
        by (auto simp: parse_conditions_def condition_texts_simps satisfies_loop.simps [of v "[]"] split: option.split)
    next
      case (some t s)
      then have "satisfies_loop v s = (case parse_conditions s of None \<Rightarrow> False
          | Some cs \<Rightarrow> list_all (\<lambda>(op, w). op_holds op (version_compare v w)) cs)"
        using 1 by auto
      then show ?thesis
        using satisfies_round [of t "CHR '','' # s" v] some
        by (auto simp: parse_conditions_def condition_texts_simps split: option.split)
    qed
  qed
qed

section \<open>Printing conditions\<close>

primrec op_text :: "range_op \<Rightarrow> string" where
  "op_text OP_LT = ''<''" | "op_text OP_LE = ''<=''" | "op_text OP_GT = ''>''"
| "op_text OP_GE = ''>=''" | "op_text OP_EQ = ''==''"

fun print_conditions :: "(range_op \<times> string) list \<Rightarrow> string" where
  "print_conditions [] = []"
| "print_conditions [(op, w)] = op_text op @ w"
| "print_conditions ((op, w) # c # cs) = op_text op @ w @ '','' @ print_conditions (c # cs)"

definition condition_wf :: "range_op \<times> string \<Rightarrow> bool" where
  "condition_wf = (\<lambda>(op, w). w \<noteq> [] \<and> length w \<le> 63 \<and> CHR '','' \<notin> set w \<and> hd w \<noteq> CHR ''='')"

lemma parse_printed_condition:
  "condition_wf (op, w) \<Longrightarrow> parse_condition (op_text op @ w) = Some (op, w)"
  by (cases op; cases w) (auto simp: condition_wf_def parse_condition_def parse_op_def)

lemma printed_no_comma: "condition_wf (op, w) \<Longrightarrow> CHR '','' \<notin> set (op_text op @ w) \<and> op_text op @ w \<noteq> []"
  by (cases op) (auto simp: condition_wf_def)

lemma parse_printed: "list_all condition_wf cs \<Longrightarrow> parse_conditions (print_conditions cs) = Some cs"
proof (induction cs rule: print_conditions.induct)
  case (2 op w)
  then show ?case using printed_no_comma [of op w]
    by (simp add: parse_conditions_def condition_texts_simps parse_printed_condition)
next
  case (3 op w c cs)
  then have "condition_texts (print_conditions ((op, w) # c # cs)) = (op_text op @ w) # condition_texts (print_conditions (c # cs))"
    using condition_texts_simps(2) [of "op_text op @ w" "print_conditions (c # cs)"] printed_no_comma [of op w] by simp
  with 3 show ?case by (simp add: parse_conditions_def parse_printed_condition)
qed (simp add: parse_conditions_def condition_texts_simps)

lemma version_satisfies_conditions:
  "version_satisfies v affected =
     (case parse_conditions affected of None \<Rightarrow> False
      | Some cs \<Rightarrow> affected \<noteq> [] \<and> list_all (\<lambda>(op, w). op_holds op (version_compare v w)) cs)"
  by (auto simp: version_satisfies_def satisfies_loop_conditions split: option.split)

lemma version_satisfies_printed:
  assumes "list_all condition_wf cs"
  shows "version_satisfies v (print_conditions cs) =
    (cs \<noteq> [] \<and> list_all (\<lambda>(op, w). op_holds op (version_compare v w)) cs)"
proof -
  have "print_conditions cs = [] \<longleftrightarrow> cs = []"
    using assms by (cases cs rule: print_conditions.cases) (auto simp: condition_wf_def)
  then show ?thesis using parse_printed [OF assms] by (simp add: version_satisfies_conditions)
qed

section \<open>Numbers\<close>

definition decimal :: "string \<Rightarrow> nat" where
  "decimal ds = foldl (\<lambda>n c. 10 * n + (of_char c - 48)) 0 ds"

lemma digit_value: "is_digit_c c \<Longrightarrow> (of_char c - 48 :: nat) < 10"
  by (auto simp: is_digit_c_def less_eq_char_def)

lemma unat_of_nat_u64: "n < 10 ^ 18 \<Longrightarrow> unat (of_nat n :: u64) = n"
  by (simp add: unat_of_nat)

lemma parse_digits_decimal:
  assumes "list_all is_digit_c ds" and "rest = [] \<or> \<not> is_digit_c (hd rest)"
    and "unat num < 10 ^ k" and "k + length ds \<le> 18"
  shows "parse_digits (ds @ rest) k num = (of_nat (foldl (\<lambda>n c. 10 * n + (of_char c - 48)) (unat num) ds), rest) \<and>
     foldl (\<lambda>n c. 10 * n + (of_char c - 48)) (unat num) ds < 10 ^ (k + length ds)"
  using assms
proof (induction ds arbitrary: k num)
  case Nil
  then show ?case by (cases rest) auto
next
  case (Cons d ds)
  have v: "of_char d - 48 < (10 :: nat)" using Cons.prems(1) digit_value by simp
  then have lt: "10 * unat num + (of_char d - 48) < 10 ^ Suc k" using Cons.prems(3) by simp
  also have "(10 :: nat) ^ Suc k \<le> 10 ^ 18" using Cons.prems(4) by (intro power_increasing) auto
  finally have bound: "10 * unat num + (of_char d - 48) < (10 :: nat) ^ 18" .
  have "num * 10 + of_nat (of_char d - 48) = (of_nat (10 * unat num + (of_char d - 48)) :: u64)"
    by (simp add: mult.commute)
  then have u: "unat (num * 10 + of_nat (of_char d - 48)) = 10 * unat num + (of_char d - 48)"
    using unat_of_nat_u64 [OF bound] by (simp only:)
  show ?case
    using Cons.IH [of "num * 10 + of_nat (of_char d - 48)" "Suc k"] Cons.prems lt unfolding u by simp
qed

lemma parse_digits_long:
  assumes "list_all is_digit_c ds" and "rest = [] \<or> \<not> is_digit_c (hd rest)"
  shows "18 \<le> k \<Longrightarrow> ds \<noteq> [] \<Longrightarrow> parse_digits (ds @ rest) k num = (- 1, rest)"
    and "k \<le> 18 \<Longrightarrow> 18 < k + length ds \<Longrightarrow> parse_digits (ds @ rest) k num = (- 1, rest)"
proof -
  have stop: "parse_digits rest k num = (num, rest)" for k num using assms(2) by (cases rest) auto
  have full: "parse_digits (es @ rest) k num = (- 1, rest)" if "list_all is_digit_c es" "es \<noteq> []" "18 \<le> k" for es k num
    using that
  proof (induction es arbitrary: num)
    case (Cons e es)
    then show ?case using stop by (cases "es = []") auto
  qed simp
  show "18 \<le> k \<Longrightarrow> ds \<noteq> [] \<Longrightarrow> parse_digits (ds @ rest) k num = (- 1, rest)" using assms(1) full by blast
  show "k \<le> 18 \<Longrightarrow> 18 < k + length ds \<Longrightarrow> parse_digits (ds @ rest) k num = (- 1, rest)"
    using assms(1)
  proof (induction ds arbitrary: k num)
    case (Cons d ds)
    show ?case
    proof (cases "k = 18")
      case True then show ?thesis using full [of "d # ds"] Cons.prems by simp
    next
      case False then show ?thesis using Cons by simp
    qed
  qed simp
qed

section \<open>What a condition list admits\<close>

text \<open>Each operator admits, with two versions, every version between them.\<close>

lemma op_holds_between:
  assumes "op_holds op (version_compare u b)" and "op_holds op (version_compare w b)"
    and "version_compare u v \<le> 0" and "version_compare v w \<le> 0"
  shows "op_holds op (version_compare v b)"
proof -
  have ops: "op_holds OP_LT c = (c < 0)" "op_holds OP_GT c = (0 < c)" "op_holds OP_LE c = (\<not> 0 < c)"
    "op_holds OP_GE c = (\<not> c < 0)" "op_holds OP_EQ c = (\<not> c < 0 \<and> \<not> 0 < c)" for c
    by auto
  have less: "0 < version_compare x y \<longleftrightarrow> version_compare y x < 0" for x y
    by (simp add: version_order.cmp_flip)
  have le: "version_compare x y \<le> 0 \<longleftrightarrow> \<not> version_compare y x < 0" for x y
    using less [of x y] by auto
  have "version_compare w b < 0 \<Longrightarrow> version_compare v b < 0" "\<not> version_compare b w < 0 \<Longrightarrow> \<not> version_compare b v < 0"
    "version_compare b u < 0 \<Longrightarrow> version_compare b v < 0" "\<not> version_compare u b < 0 \<Longrightarrow> \<not> version_compare v b < 0"
    using version_order.cmp_trans [of b v w] version_order.cmp_trans [of v w b] version_order.cmp_trans [of u v b]
      version_order.cmp_trans [of b u v] assms(3,4) unfolding le by blast+
  with assms(1,2) show ?thesis by (cases op) (simp_all only: ops less, blast+)
qed

section \<open>Properties\<close>

text \<open>
  C20: Comparing two versions compares the lists of their segments, number before suffix,
  lexicographically, where trailing zero segments do not count: the sign of the result
  tells which list is smaller, and the result is zero exactly when the lists are equal.
\<close>

theorem version_compare_orders:
  "(version_compare a b < 0) = (version_key a < version_key b) \<and>
   (version_compare a b > 0) = (version_key b < version_key a) \<and>
   (version_compare a b = 0) = (version_key a = version_key b)"
proof -
  have "version_compare a b = 0 \<longleftrightarrow> \<not> version_compare a b < 0 \<and> \<not> 0 < version_compare a b" by linarith
  then show ?thesis unfolding version_compare_key by (simp add: not_less) (metis order_antisym order_refl)
qed

text \<open>
  The number of a segment is the value of its digits when there are at most 18 of
  them, without wrapping, and the largest 64-bit value when there are more; the rest of
  the text is left.
\<close>

lemma segment_number:
  assumes "list_all is_digit_c ds" and "rest = [] \<or> \<not> is_digit_c (hd rest)"
  shows "parse_digits (ds @ rest) 0 0 = (if length ds \<le> 18 then of_nat (decimal ds) else - 1, rest) \<and>
    (unat (fst (parse_digits (ds @ rest) 0 0)) = decimal ds \<or> 18 < length ds)"
proof (cases "length ds \<le> 18")
  case True
  then have p: "parse_digits (ds @ rest) 0 0 = (of_nat (decimal ds), rest)" and b: "decimal ds < 10 ^ length ds"
    using parse_digits_decimal [OF assms, of 0 0] by (simp_all add: decimal_def)
  have "(10 :: nat) ^ length ds \<le> 10 ^ 18" using True by (intro power_increasing) auto
  then have "unat (of_nat (decimal ds) :: u64) = decimal ds"
    using b by (intro unat_of_nat_u64) simp
  with p True show ?thesis by simp
next
  case False
  then show ?thesis using parse_digits_long(2) [OF assms, of 0] by simp
qed

lemma segment_number_witness:
  "parse_digits ''2022.78'' 0 0 = (2022, ''.78'')"
proof -
  have d: "list_all is_digit_c ''2022''" "decimal ''2022'' = 2022" by code_simp+
  have r: "''.78'' = [] \<or> \<not> is_digit_c (hd ''.78'')" by code_simp
  show ?thesis using segment_number [OF d(1) r] d(2) by simp
qed

text \<open>
  C21: A condition list is satisfied exactly when it is not empty, every text between its
  commas (an empty one at the very end aside) is an operator and a version of 1 to 63
  characters, and every one of these conditions holds; anything malformed anywhere makes
  the answer no.
\<close>

theorem version_satisfies_fail_closed:
  "version_satisfies v affected =
     (case parse_conditions affected of None \<Rightarrow> False
      | Some cs \<Rightarrow> affected \<noteq> [] \<and> list_all (\<lambda>(op, w). op_holds op (version_compare v w)) cs)"
  by (rule version_satisfies_conditions)

text \<open>
  C22: The versions a condition list covers form an interval: a version between two
  covered ones is covered.
\<close>

theorem affected_interval:
  assumes "version_satisfies u affected" and "version_satisfies w affected"
    and "version_compare u v \<le> 0" and "version_compare v w \<le> 0"
  shows "version_satisfies v affected"
proof -
  obtain cs where cs: "parse_conditions affected = Some cs" "affected \<noteq> []"
    using assms(1) unfolding version_satisfies_conditions by (cases "parse_conditions affected") auto
  have "op_holds op (version_compare v b)" if "(op, b) \<in> set cs" for op b
  proof (rule op_holds_between [OF _ _ assms(3,4)])
    show "op_holds op (version_compare u b)" "op_holds op (version_compare w b)"
      using assms(1,2) cs that by (auto simp: version_satisfies_conditions list_all_iff)
  qed
  then show ?thesis using cs by (auto simp: version_satisfies_conditions list_all_iff)
qed

theorem affected_interval_witness:
  "version_satisfies ''1.0.2'' ''>=1.0,<1.1''"
proof -
  have "version_satisfies ''1.0'' ''>=1.0,<1.1''" "version_satisfies ''1.0.9z'' ''>=1.0,<1.1''"
    "version_compare ''1.0'' ''1.0.2'' \<le> 0" "version_compare ''1.0.2'' ''1.0.9z'' \<le> 0" by code_simp+
  then show ?thesis by (rule affected_interval)
qed

text \<open>
  C34: A list of conditions written in the documented format is satisfied exactly when it
  has a condition and all its conditions hold.
\<close>

theorem conditions_roundtrip:
  assumes "list_all condition_wf cs"
  shows "version_satisfies v (print_conditions cs) =
    (cs \<noteq> [] \<and> list_all (\<lambda>(op, w). op_holds op (version_compare v w)) cs)"
  by (rule version_satisfies_printed [OF assms])

theorem conditions_roundtrip_witness:
  "version_satisfies ''1.1.1k'' ''>=1.1.0,<1.1.1n'' \<and> \<not> version_satisfies ''1.1.1n'' ''>=1.1.0,<1.1.1n''"
proof -
  have wf: "list_all condition_wf [(OP_GE, ''1.1.0''), (OP_LT, ''1.1.1n'')]" by code_simp
  have "version_compare ''1.1.1k'' ''1.1.0'' > 0" "version_compare ''1.1.1k'' ''1.1.1n'' < 0"
    "version_compare ''1.1.1n'' ''1.1.1n'' = 0" by code_simp+
  then show ?thesis
    using conditions_roundtrip [OF wf, of "''1.1.1k''"] conditions_roundtrip [OF wf, of "''1.1.1n''"] by simp
qed

text \<open>A version text that starts with a blank, and one that starts with a zero in its place.\<close>

lemma version_compare_blank:
  "version_compare v (CHR '' '' # w) = version_compare v (CHR ''0'' # dropWhile (\<lambda>c. \<not> is_separator c) w)"
proof -
  define r where "r = dropWhile (\<lambda>c. \<not> is_separator c) w"
  have nd: "\<not> is_digit_c CHR '' ''" "\<not> is_alpha_c CHR '' ''" "\<not> is_separator CHR '' ''"
    "is_digit_c CHR ''0''" "(of_char CHR ''0'' :: nat) = 48" by code_simp+
  have blank: "version_segments (CHR '' '' # w) = zero_segment # version_segments (skip_separator r)"
    using nd by (simp add: version_segments.simps [of "CHR '' '' # w"] parse_segment_def zero_segment_def r_def)
  have "version_segments (CHR ''0'' # r) = zero_segment # version_segments (skip_separator r)"
  proof (cases r)
    case (Cons c cs)
    then have c: "is_separator c" unfolding r_def by (metis hd_dropWhile list.discI list.sel(1))
    have "\<not> is_digit_c CHR ''.''" "\<not> is_alpha_c CHR ''.''" "\<not> is_digit_c CHR ''-''" "\<not> is_alpha_c CHR ''-''" by code_simp+
    with c have "\<not> is_digit_c c" "\<not> is_alpha_c c" by (auto simp: is_separator_def)
    with c Cons nd show ?thesis
      by (simp add: version_segments.simps [of "CHR ''0'' # c # cs"] parse_segment_def zero_segment_def)
  qed (use nd in \<open>simp add: version_segments.simps [of "''0''"] parse_segment_def zero_segment_def\<close>)
  with blank have "version_key (CHR '' '' # w) = version_key (CHR ''0'' # r)" by (simp add: version_key_def)
  then show ?thesis
    unfolding r_def [symmetric] version_compare_segments by (metis segments_compare_key version_key_def)
qed

text \<open>
  C40: In a list of range conditions that are otherwise well formed, a blank between an
  operator and its bound is taken as part of the bound, and everything up to the bound's
  first separator is lost: the list is decided as if the bound began with the segment 0
  in place of its first segment.
\<close>

theorem blank_loses_segment:
  assumes "list_all condition_wf (before @ (op, CHR '' '' # w) # behind)"
  shows "version_satisfies v (print_conditions (before @ (op, CHR '' '' # w) # behind)) =
    (list_all (\<lambda>(op, w). op_holds op (version_compare v w)) (before @ behind) \<and>
     op_holds op (version_compare v (CHR ''0'' # dropWhile (\<lambda>c. \<not> is_separator c) w)))"
  unfolding version_satisfies_printed [OF assms] by (auto simp: version_compare_blank)

theorem blank_loses_segment_witness:
  "version_satisfies ''1.1.1k'' ''>=1.1.0,<1.1.1n'' \<and> \<not> version_satisfies ''1.1.1k'' ''>=1.1.0,< 1.1.1n''"
proof
  show "version_satisfies ''1.1.1k'' ''>=1.1.0,<1.1.1n''" by code_simp
  have "list_all condition_wf ([(OP_GE, ''1.1.0'')] @ (OP_LT, CHR '' '' # ''1.1.1n'') # [])" by code_simp
  note blank_loses_segment [OF this, of "''1.1.1k''"]
  moreover have "\<not> version_compare ''1.1.1k'' ''0.1.1n'' < 0" by code_simp
  ultimately show "\<not> version_satisfies ''1.1.1k'' ''>=1.1.0,< 1.1.1n''"
    by (simp add: is_separator_def)
qed

end
