(* ===== verification/CveMatch.thy ===== *)
theory CveMatch
  imports Yaml Version
begin

text \<open>
  The matching half of \<open>src/core/cve_match.c\<close>: a dataset of CVE entries, read from a
  YAML document, against the inventory.
\<close>

section \<open>Matching\<close>

text \<open>The loop over the inventory for one entry.\<close>

definition match_component ::
  "string \<Rightarrow> string \<Rightarrow> crimp_severity \<Rightarrow> string \<Rightarrow> string \<Rightarrow> crimp_finding_list \<Rightarrow> crimp_component \<Rightarrow> crimp_finding_list" where
  "match_component id_text affected severity description dataset_component_name out inst =
     (if cc_version inst = [] \<or> cc_component inst \<noteq> dataset_component_name then out
      else if version_satisfies (cc_version inst) affected then
        crimp_finding_list_add out id_text
          (snprintf_cut 1024 (description @ '' ('' @ cc_component inst @ '' '' @ cc_version inst @
             '', '' @ cc_path inst @ '')'')) severity
      else out)"

definition cve_severity :: "string \<Rightarrow> crimp_severity" where
  "cve_severity severity_str =
     (case crimp_yaml_parse_severity (crimp_yaml_str_to_lower severity_str) of
        Some s \<Rightarrow> s | None \<Rightarrow> CRIMP_SEVERITY_LOW)"

definition match_cve_entry ::
  "yaml_document \<Rightarrow> yaml_node option \<Rightarrow> crimp_component list \<Rightarrow> string \<Rightarrow> crimp_finding_list \<Rightarrow> crimp_finding_list" where
  "match_cve_entry doc cve_entry components dataset_component_name out =
     (case cve_entry of
        Some (YAML_MAPPING_NODE pairs) \<Rightarrow>
          (case (yaml_field doc cve_entry ''id'', yaml_field doc cve_entry ''affected'',
                 yaml_field doc cve_entry ''severity'', yaml_field doc cve_entry ''description'') of
             (Some id_text, Some affected, Some severity_str, Some description) \<Rightarrow>
               if affected \<noteq> [] then
                 foldl (match_component id_text affected (cve_severity severity_str) description
                          dataset_component_name) out components
               else out
           | _ \<Rightarrow> out)
      | _ \<Rightarrow> out)"

definition match_component_entry ::
  "yaml_document \<Rightarrow> yaml_node option \<Rightarrow> crimp_component list \<Rightarrow> crimp_finding_list \<Rightarrow> crimp_finding_list" where
  "match_component_entry doc dataset_component components out =
     (case dataset_component of
        Some (YAML_MAPPING_NODE pairs) \<Rightarrow>
          (case (yaml_field doc dataset_component ''name'', crimp_yaml_mapping_get doc dataset_component ''cves'') of
             (Some name, Some (YAML_SEQUENCE_NODE items)) \<Rightarrow>
               foldl (\<lambda>out item. match_cve_entry doc (yd_node doc item) components name out) out items
           | _ \<Rightarrow> out)
      | _ \<Rightarrow> out)"

text \<open>Whether it returns 0, and the list of findings.\<close>

definition crimp_cve_match_components ::
  "yaml_loader \<Rightarrow> os_view \<Rightarrow> string \<Rightarrow> crimp_component list \<Rightarrow> crimp_finding_list \<Rightarrow> bool \<times> crimp_finding_list" where
  "crimp_cve_match_components load os dataset_path components out =
     (case os_read os dataset_path of
        None \<Rightarrow> (False, out)
      | Some f \<Rightarrow>
          (case load f of
             None \<Rightarrow> (False, out)
           | Some doc \<Rightarrow>
               (case crimp_yaml_mapping_get doc (yd_root doc) ''components'' of
                  Some (YAML_SEQUENCE_NODE items) \<Rightarrow>
                    (True, foldl (\<lambda>out item. match_component_entry doc (yd_node doc item) components out) out items)
                | _ \<Rightarrow> (False, out))))"

section \<open>The dataset a document stands for\<close>

record cve_record =
  cve_id :: string
  cve_affected :: string
  cve_rating :: crimp_severity
  cve_description :: string

definition read_cve :: "yaml_document \<Rightarrow> int \<Rightarrow> cve_record list" where
  "read_cve doc item =
     (case (yaml_field doc (yd_node doc item) ''id'', yaml_field doc (yd_node doc item) ''affected'',
            yaml_field doc (yd_node doc item) ''severity'', yaml_field doc (yd_node doc item) ''description'') of
        (Some i, Some a, Some s, Some t) \<Rightarrow>
          [\<lparr>cve_id = i, cve_affected = a, cve_rating = cve_severity s, cve_description = t\<rparr>]
      | _ \<Rightarrow> [])"

definition read_dataset_component :: "yaml_document \<Rightarrow> int \<Rightarrow> (string \<times> cve_record) list" where
  "read_dataset_component doc item =
     (case (yaml_field doc (yd_node doc item) ''name'', crimp_yaml_mapping_get doc (yd_node doc item) ''cves'') of
        (Some name, Some (YAML_SEQUENCE_NODE items)) \<Rightarrow>
          map (Pair name) (concat (map (read_cve doc) items))
      | _ \<Rightarrow> [])"

definition read_dataset :: "yaml_document \<Rightarrow> (string \<times> cve_record) list option" where
  "read_dataset doc =
     (case crimp_yaml_mapping_get doc (yd_root doc) ''components'' of
        Some (YAML_SEQUENCE_NODE items) \<Rightarrow> Some (concat (map (read_dataset_component doc) items))
      | _ \<Rightarrow> None)"

text \<open>What a dataset says of an inventory: who is affected, and the finding it gives.\<close>

definition cve_applies :: "string \<times> cve_record \<Rightarrow> crimp_component \<Rightarrow> bool" where
  "cve_applies = (\<lambda>(name, cve) inst. cc_component inst = name \<and> cc_version inst \<noteq> [] \<and>
     version_satisfies (cc_version inst) (cve_affected cve))"

definition cve_finding :: "string \<times> cve_record \<Rightarrow> crimp_component \<Rightarrow> crimp_finding" where
  "cve_finding = (\<lambda>(name, cve) inst.
     \<lparr>cf_detector_name = cve_id cve,
      cf_description = take 1023 (cve_description cve @ '' ('' @ name @ '' '' @ cc_version inst @ '', '' @ cc_path inst @ '')''),
      cf_severity = cve_rating cve\<rparr>)"

definition cve_findings :: "(string \<times> cve_record) list \<Rightarrow> crimp_component list \<Rightarrow> crimp_finding list" where
  "cve_findings dataset components =
     concat (map (\<lambda>e. map (cve_finding e) (filter (cve_applies e) components)) dataset)"

lemma yaml_field_mapping: "yaml_field doc node key = Some v \<Longrightarrow> \<exists>pairs. node = Some (YAML_MAPPING_NODE pairs)"
  by (auto simp: yaml_field_def crimp_yaml_mapping_get_def crimp_yaml_dup_scalar_def
      split: option.splits yaml_node.splits)

lemma mapping_get_mapping: "crimp_yaml_mapping_get doc node key = Some v \<Longrightarrow> \<exists>pairs. node = Some (YAML_MAPPING_NODE pairs)"
  by (auto simp: crimp_yaml_mapping_get_def split: option.splits yaml_node.splits)

lemma concat_map_if: "concat (map (\<lambda>x. if P x then [g x] else []) xs) = map g (filter P xs)"
  by (induction xs) simp_all

lemma concat_map_concat: "concat (map (\<lambda>i. concat (g i)) xs) = concat (concat (map g xs))"
  by (induction xs) simp_all

lemma match_component_fold:
  "v_items (foldl (match_component i a s t name) out comps) =
     v_items out @ map (cve_finding (name, \<lparr>cve_id = i, cve_affected = a, cve_rating = s, cve_description = t\<rparr>))
       (filter (cve_applies (name, \<lparr>cve_id = i, cve_affected = a, cve_rating = s, cve_description = t\<rparr>)) comps)"
  unfolding concat_map_if [symmetric]
  by (rule foldl_append_items) (auto simp: match_component_def cve_finding_def cve_applies_def snprintf_cut_def)

lemma empty_affected: "\<not> version_satisfies v []"
  by (simp add: version_satisfies_def)

lemma match_cve_entry_items:
  "v_items (match_cve_entry doc (yd_node doc item) comps name out) =
     v_items out @ concat (map (\<lambda>e. map (cve_finding (name, e)) (filter (cve_applies (name, e)) comps)) (read_cve doc item))"
proof (cases "\<exists>i a s t. yaml_field doc (yd_node doc item) ''id'' = Some i \<and> yaml_field doc (yd_node doc item) ''affected'' = Some a \<and>
    yaml_field doc (yd_node doc item) ''severity'' = Some s \<and> yaml_field doc (yd_node doc item) ''description'' = Some t")
  case True
  then obtain i a s t where f: "yaml_field doc (yd_node doc item) ''id'' = Some i"
    "yaml_field doc (yd_node doc item) ''affected'' = Some a"
    "yaml_field doc (yd_node doc item) ''severity'' = Some s" "yaml_field doc (yd_node doc item) ''description'' = Some t"
    by blast
  obtain pairs where "yd_node doc item = Some (YAML_MAPPING_NODE pairs)" using yaml_field_mapping [OF f(1)] by blast
  with f show ?thesis
    by (cases "a = []")
      (auto simp: match_cve_entry_def read_cve_def match_component_fold cve_applies_def empty_affected)
next
  case False
  then show ?thesis
    by (auto simp: match_cve_entry_def read_cve_def split: option.split yaml_node.split)
qed

lemma match_component_entry_items:
  "v_items (match_component_entry doc (yd_node doc item) comps out) =
     v_items out @ cve_findings (read_dataset_component doc item) comps"
proof (cases "\<exists>name items. yaml_field doc (yd_node doc item) ''name'' = Some name \<and>
    crimp_yaml_mapping_get doc (yd_node doc item) ''cves'' = Some (YAML_SEQUENCE_NODE items)")
  case True
  then obtain name items where f: "yaml_field doc (yd_node doc item) ''name'' = Some name"
    "crimp_yaml_mapping_get doc (yd_node doc item) ''cves'' = Some (YAML_SEQUENCE_NODE items)" by blast
  obtain pairs where m: "yd_node doc item = Some (YAML_MAPPING_NODE pairs)" using yaml_field_mapping [OF f(1)] by blast
  have "v_items (match_component_entry doc (yd_node doc item) comps out) =
      v_items out @ concat (map (\<lambda>i. concat (map (\<lambda>e. map (cve_finding (name, e)) (filter (cve_applies (name, e)) comps))
        (read_cve doc i))) items)"
  proof -
    have "v_items (foldl (\<lambda>out item. match_cve_entry doc (yd_node doc item) comps name out) out items) =
        v_items out @ concat (map (\<lambda>i. concat (map (\<lambda>e. map (cve_finding (name, e)) (filter (cve_applies (name, e)) comps))
          (read_cve doc i))) items)"
      by (rule foldl_append_items) (rule match_cve_entry_items)
    with f m show ?thesis by (simp add: match_component_entry_def)
  qed
  also have "\<dots> = v_items out @ cve_findings (read_dataset_component doc item) comps"
    using f by (simp add: cve_findings_def read_dataset_component_def map_concat comp_def concat_map_concat)
  finally show ?thesis .
next
  case False
  then show ?thesis
    by (cases "yaml_field doc (yd_node doc item) ''name''"; cases "crimp_yaml_mapping_get doc (yd_node doc item) ''cves''")
      (auto simp: match_component_entry_def read_dataset_component_def cve_findings_def
        split: option.split yaml_node.split)
qed

lemma cve_match_items:
  assumes "os_read os path = Some f" and "load f = Some doc" and "read_dataset doc = Some ds"
  shows "fst (crimp_cve_match_components load os path comps out)"
    and "v_items (snd (crimp_cve_match_components load os path comps out)) = v_items out @ cve_findings ds comps"
proof -
  from assms(3) obtain items where items: "crimp_yaml_mapping_get doc (yd_root doc) ''components'' = Some (YAML_SEQUENCE_NODE items)"
    and ds: "ds = concat (map (read_dataset_component doc) items)"
    by (auto simp: read_dataset_def split: option.splits yaml_node.splits)
  show "fst (crimp_cve_match_components load os path comps out)"
    using assms items by (simp add: crimp_cve_match_components_def)
  have "v_items (snd (crimp_cve_match_components load os path comps out)) =
      v_items out @ concat (map (\<lambda>i. cve_findings (read_dataset_component doc i) comps) items)"
  proof -
    have "v_items (foldl (\<lambda>out item. match_component_entry doc (yd_node doc item) comps out) out items) =
        v_items out @ concat (map (\<lambda>i. cve_findings (read_dataset_component doc i) comps) items)"
      by (rule foldl_append_items) (rule match_component_entry_items)
    with assms items show ?thesis by (simp add: crimp_cve_match_components_def)
  qed
  also have "\<dots> = v_items out @ cve_findings ds comps"
    by (simp add: cve_findings_def ds map_concat comp_def concat_map_concat)
  finally show "v_items (snd (crimp_cve_match_components load os path comps out)) = v_items out @ cve_findings ds comps" .
qed

lemma cve_match_fails:
  assumes "\<And>f doc. os_read os path = Some f \<Longrightarrow> load f = Some doc \<Longrightarrow> read_dataset doc = None"
  shows "crimp_cve_match_components load os path comps out = (False, out)"
  using assms
  by (auto simp: crimp_cve_match_components_def read_dataset_def split: option.split yaml_node.split) fastforce?

section \<open>Properties\<close>

text \<open>The dataset of a file: None when it cannot be opened, loaded or understood.\<close>

definition dataset_at :: "yaml_loader \<Rightarrow> os_view \<Rightarrow> string \<Rightarrow> (string \<times> cve_record) list option" where
  "dataset_at load os path = do { f \<leftarrow> os_read os path; doc \<leftarrow> load f; read_dataset doc }"

text \<open>
  C23: Matching fails exactly when the dataset file cannot be opened, loaded, or has no
  sequence of components, and then the findings are as they were. Otherwise, in dataset
  order and for each entry in inventory order, it adds one finding for every component
  instance with the entry's name, a known version and a version in the entry's range;
  malformed entries are skipped one by one and unknown severities count as low.
\<close>

theorem cve_matching_reports:
  "case dataset_at load os path of
     None \<Rightarrow> crimp_cve_match_components load os path comps out = (False, out)
   | Some ds \<Rightarrow> fst (crimp_cve_match_components load os path comps out) \<and>
       v_items (snd (crimp_cve_match_components load os path comps out)) = v_items out @ cve_findings ds comps"
proof (cases "dataset_at load os path")
  case None
  then have "crimp_cve_match_components load os path comps out = (False, out)"
    by (intro cve_match_fails) (auto simp: dataset_at_def)
  with None show ?thesis by simp
next
  case (Some ds)
  then obtain f doc where "os_read os path = Some f" "load f = Some doc" "read_dataset doc = Some ds"
    by (auto simp: dataset_at_def bind_eq_Some_conv)
  with Some show ?thesis using cve_match_items by simp
qed

end
