(* ===== verification/YamlRules.thy ===== *)
theory YamlRules
  imports Yaml PatternScan
begin

text \<open>
  \<open>src/core/yaml_rules.c\<close>: user-defined rules read from YAML files, and the scan for
  them. Allocation is taken to succeed, so appending a rule does.
\<close>

section \<open>The rule list\<close>

record crimp_yaml_rule =
  yr_id :: string
  yr_pattern :: string
  yr_description :: string
  yr_severity :: crimp_severity

type_synonym crimp_yaml_rule_list = "crimp_yaml_rule vec"

definition crimp_yaml_rule_list_init :: "crimp_yaml_rule_list" where
  "crimp_yaml_rule_list_init = vec_init"

definition crimp_yaml_rule_list_free :: "crimp_yaml_rule_list \<Rightarrow> crimp_yaml_rule_list" where
  "crimp_yaml_rule_list_free list = vec_free list"

definition rule_list_add ::
  "crimp_yaml_rule_list \<Rightarrow> string \<Rightarrow> string \<Rightarrow> string \<Rightarrow> crimp_severity \<Rightarrow> crimp_yaml_rule_list" where
  "rule_list_add list id_text pattern description severity =
     vec_add 8 list
       \<lparr>yr_id = id_text, yr_pattern = pattern, yr_description = description, yr_severity = severity\<rparr>"

interpretation rule_list: growable crimp_yaml_rule_list_init
  "\<lambda>l r. rule_list_add l (yr_id r) (yr_pattern r) (yr_description r) (yr_severity r)"
  crimp_yaml_rule_list_free v_items v_capacity
  by unfold_locales
    (auto simp: crimp_yaml_rule_list_init_def rule_list_add_def crimp_yaml_rule_list_free_def
      vec_add_room vec_add_amortised)

section \<open>Reading rules\<close>

text \<open>The list with the rule appended, None for -1.\<close>

definition parse_rule_entry ::
  "yaml_document \<Rightarrow> yaml_node option \<Rightarrow> crimp_yaml_rule_list \<Rightarrow> crimp_yaml_rule_list option" where
  "parse_rule_entry doc entry out =
     (case (yaml_field doc entry ''id'', yaml_field doc entry ''pattern'',
            yaml_field doc entry ''description'', yaml_field doc entry ''severity'') of
        (Some id_text, Some pattern, Some description, Some severity_str) \<Rightarrow>
          if pattern = [] then None
          else (case crimp_yaml_parse_severity (crimp_yaml_str_to_lower severity_str) of
                  None \<Rightarrow> None
                | Some severity \<Rightarrow> Some (rule_list_add out id_text pattern description severity))
      | _ \<Rightarrow> None)"

text \<open>The loop over the rule entries into the temporary list: \<open>ok\<close>, and the list.\<close>

fun parse_rules :: "yaml_document \<Rightarrow> int list \<Rightarrow> crimp_yaml_rule_list \<Rightarrow> bool \<times> crimp_yaml_rule_list" where
  "parse_rules doc [] parsed = (True, parsed)"
| "parse_rules doc (item # items) parsed =
     (case yd_node doc item of
        Some (YAML_MAPPING_NODE pairs) \<Rightarrow>
          (case parse_rule_entry doc (yd_node doc item) parsed of
             None \<Rightarrow> (False, parsed)
           | Some parsed' \<Rightarrow> parse_rules doc items parsed')
      | _ \<Rightarrow> (False, parsed))"

definition crimp_yaml_rules_load_file ::
  "yaml_loader \<Rightarrow> os_view \<Rightarrow> string \<Rightarrow> crimp_yaml_rule_list \<Rightarrow> bool \<times> crimp_yaml_rule_list" where
  "crimp_yaml_rules_load_file load os path out =
     (case os_read os path of
        None \<Rightarrow> (False, out)
      | Some f \<Rightarrow>
          (case load f of
             None \<Rightarrow> (False, out)
           | Some doc \<Rightarrow>
               (case crimp_yaml_mapping_get doc (yd_root doc) ''rules'' of
                  Some (YAML_SEQUENCE_NODE items) \<Rightarrow>
                    (case parse_rules doc items crimp_yaml_rule_list_init of
                       (False, parsed) \<Rightarrow> (False, out)
                     | (True, parsed) \<Rightarrow>
                         (True, foldl (\<lambda>out r. rule_list_add out (yr_id r) (yr_pattern r) (yr_description r) (yr_severity r))
                                  out (v_items parsed)))
                | _ \<Rightarrow> (False, out))))"

definition ends_with_ci :: "string \<Rightarrow> string \<Rightarrow> bool" where
  "ends_with_ci name ending =
     (if length name < length ending then False
      else list_all2 (\<lambda>c s. ascii_lower c = s) (drop (length name - length ending) name) ending)"

definition has_yaml_extension :: "string \<Rightarrow> bool" where
  "has_yaml_extension name \<longleftrightarrow> ends_with_ci name ''.yaml'' \<or> ends_with_ci name ''.yml''"

definition crimp_yaml_rules_load_dir ::
  "yaml_loader \<Rightarrow> os_view \<Rightarrow> string \<Rightarrow> crimp_yaml_rule_list \<Rightarrow> bool \<times> crimp_yaml_rule_list" where
  "crimp_yaml_rules_load_dir load os dir_path out =
     (case os_opendir os dir_path of
        None \<Rightarrow> (False, out)
      | Some names \<Rightarrow>
          (True, foldl (\<lambda>out name.
             if \<not> has_yaml_extension name then out
             else if length (path_join dir_path name) \<ge> 1024 then out
             else snd (crimp_yaml_rules_load_file load os (path_join dir_path name) out)) out names))"

section \<open>Scanning for rules\<close>

definition rule_marker :: "crimp_yaml_rule \<Rightarrow> crimp_pattern_marker" where
  "rule_marker r =
     \<lparr>pm_pattern = yr_pattern r, pm_description = yr_description r, pm_severity = yr_severity r,
      pm_name = Some (yr_id r)\<rparr>"

text \<open>The shared detector name is a null pointer that no marker lets be used.\<close>

definition crimp_scan_directory_for_yaml_rules ::
  "nat \<Rightarrow> os_view \<Rightarrow> string \<Rightarrow> crimp_yaml_rule_list \<Rightarrow> crimp_finding_list \<Rightarrow> crimp_finding_list" where
  "crimp_scan_directory_for_yaml_rules fds os root_path rules out =
     (if v_items rules = [] then out
      else crimp_scan_directory_for_patterns fds os root_path [] (map rule_marker (v_items rules)) out)"

section \<open>The rules of a file\<close>

definition read_rule :: "yaml_document \<Rightarrow> int \<Rightarrow> crimp_yaml_rule option" where
  "read_rule doc item =
     do { i \<leftarrow> yaml_field doc (yd_node doc item) ''id'';
          p \<leftarrow> yaml_field doc (yd_node doc item) ''pattern'';
          t \<leftarrow> yaml_field doc (yd_node doc item) ''description'';
          sev_text \<leftarrow> yaml_field doc (yd_node doc item) ''severity'';
          sev \<leftarrow> crimp_yaml_parse_severity (crimp_yaml_str_to_lower sev_text);
          if p = [] then None
          else Some \<lparr>yr_id = i, yr_pattern = p, yr_description = t, yr_severity = sev\<rparr> }"

definition file_rules :: "yaml_loader \<Rightarrow> os_view \<Rightarrow> string \<Rightarrow> crimp_yaml_rule list option" where
  "file_rules load os path =
     do { f \<leftarrow> os_read os path; doc \<leftarrow> load f;
          case crimp_yaml_mapping_get doc (yd_root doc) ''rules'' of
            Some (YAML_SEQUENCE_NODE items) \<Rightarrow> those (map (read_rule doc) items)
          | _ \<Rightarrow> None }"

lemma parse_rule_entry_read:
  "map_option v_items (parse_rule_entry doc (yd_node doc item) out) =
     map_option (\<lambda>r. v_items out @ [r]) (read_rule doc item)"
  by (auto simp: parse_rule_entry_def read_rule_def rule_list_add_def split: option.split)

lemma read_rule_mapping: "read_rule doc item = Some r \<Longrightarrow> \<exists>pairs. yd_node doc item = Some (YAML_MAPPING_NODE pairs)"
  by (auto simp: read_rule_def bind_eq_Some_conv yaml_field_def crimp_yaml_mapping_get_def crimp_yaml_dup_scalar_def
      split: option.splits yaml_node.splits)

lemma parse_rules_those:
  "(fst (parse_rules doc items parsed) \<longleftrightarrow> those (map (read_rule doc) items) \<noteq> None) \<and>
   (\<forall>rs. those (map (read_rule doc) items) = Some rs \<longrightarrow>
      v_items (snd (parse_rules doc items parsed)) = v_items parsed @ rs)"
proof (induction items arbitrary: parsed)
  case (Cons item items)
  show ?case
  proof (cases "read_rule doc item")
    case None
    then have "parse_rule_entry doc (yd_node doc item) parsed = None"
      using parse_rule_entry_read [of doc item parsed] by simp
    then have "\<not> fst (parse_rules doc (item # items) parsed)"
      by (auto split: option.split yaml_node.split)
    with None show ?thesis by simp
  next
    case (Some r)
    then obtain parsed' where p: "parse_rule_entry doc (yd_node doc item) parsed = Some parsed'"
      "v_items parsed' = v_items parsed @ [r]"
      using parse_rule_entry_read [of doc item parsed] by auto
    obtain pairs where "yd_node doc item = Some (YAML_MAPPING_NODE pairs)" using read_rule_mapping [OF Some] by blast
    with p Some Cons [of parsed'] show ?thesis by (auto split: option.splits)
  qed
qed simp

lemma rule_list_fold:
  "v_items (foldl (\<lambda>out r. rule_list_add out (yr_id r) (yr_pattern r) (yr_description r) (yr_severity r)) out rs) =
     v_items out @ rs"
  by (rule rule_list.elems_fold)

lemma load_file_rules:
  "crimp_yaml_rules_load_file load os path out =
     (case file_rules load os path of None \<Rightarrow> (False, out)
      | Some rs \<Rightarrow> (True, foldl (\<lambda>out r. rule_list_add out (yr_id r) (yr_pattern r) (yr_description r) (yr_severity r)) out rs))"
proof (cases "\<exists>f doc items. os_read os path = Some f \<and> load f = Some doc \<and>
    crimp_yaml_mapping_get doc (yd_root doc) ''rules'' = Some (YAML_SEQUENCE_NODE items)")
  case True
  then obtain f doc items where f: "os_read os path = Some f" "load f = Some doc"
    "crimp_yaml_mapping_get doc (yd_root doc) ''rules'' = Some (YAML_SEQUENCE_NODE items)" by blast
  obtain ok parsed where p: "parse_rules doc items crimp_yaml_rule_list_init = (ok, parsed)" by fastforce
  show ?thesis
    using f p parse_rules_those [of doc items crimp_yaml_rule_list_init]
    by (cases ok) (auto simp: crimp_yaml_rules_load_file_def file_rules_def crimp_yaml_rule_list_init_def)
next
  case False
  then have "file_rules load os path = None"
    by (cases "os_read os path"; cases "load (the (os_read os path))")
      (auto simp: file_rules_def split: option.split yaml_node.split)
  with False show ?thesis
    by (auto simp: crimp_yaml_rules_load_file_def split: option.split yaml_node.split)
qed

lemma load_file_items:
  "v_items (snd (crimp_yaml_rules_load_file load os path out)) =
     v_items out @ (case file_rules load os path of None \<Rightarrow> [] | Some rs \<Rightarrow> rs)"
  by (simp add: load_file_rules rule_list_fold split: option.split)

lemma read_rule_pattern: "read_rule doc item = Some r \<Longrightarrow> yr_pattern r \<noteq> []"
  by (auto simp: read_rule_def bind_eq_Some_conv split: if_splits)

lemma those_read_rule_pattern: "those (map (read_rule doc) items) = Some rs \<Longrightarrow> list_all (\<lambda>r. yr_pattern r \<noteq> []) rs"
  by (induction items arbitrary: rs) (auto simp: read_rule_pattern split: option.splits)

lemma file_rules_pattern: "file_rules load os path = Some rs \<Longrightarrow> list_all (\<lambda>r. yr_pattern r \<noteq> []) rs"
proof -
  assume "file_rules load os path = Some rs"
  then obtain doc where c: "(case crimp_yaml_mapping_get doc (yd_root doc) ''rules'' of
      Some (YAML_SEQUENCE_NODE items) \<Rightarrow> those (map (read_rule doc) items) | _ \<Rightarrow> None) = Some rs"
    by (auto simp: file_rules_def bind_eq_Some_conv)
  then obtain items where "those (map (read_rule doc) items) = Some rs"
    by (cases "crimp_yaml_mapping_get doc (yd_root doc) ''rules''"; cases "the (crimp_yaml_mapping_get doc (yd_root doc) ''rules'')") auto
  then show ?thesis by (rule those_read_rule_pattern)
qed

text \<open>The rules of a directory: those of its rule files, in listing order, bad files aside.\<close>

definition dir_rules :: "yaml_loader \<Rightarrow> os_view \<Rightarrow> string \<Rightarrow> crimp_yaml_rule list" where
  "dir_rules load os dir_path =
     (case os_opendir os dir_path of None \<Rightarrow> []
      | Some names \<Rightarrow> concat (map (\<lambda>name. case file_rules load os (path_join dir_path name) of None \<Rightarrow> [] | Some rs \<Rightarrow> rs)
          (filter (\<lambda>name. has_yaml_extension name \<and> length (path_join dir_path name) < 1024) names)))"

lemma concat_map_filter: "concat (map g (filter P xs)) = concat (map (\<lambda>x. if P x then g x else []) xs)"
  by (induction xs) simp_all

lemma load_dir_items:
  "fst (crimp_yaml_rules_load_dir load os dir out) = (os_opendir os dir \<noteq> None) \<and>
   v_items (snd (crimp_yaml_rules_load_dir load os dir out)) = v_items out @ dir_rules load os dir"
proof (cases "os_opendir os dir")
  case (Some names)
  have "v_items (foldl (\<lambda>out name.
      if \<not> has_yaml_extension name then out
      else if length (path_join dir name) \<ge> 1024 then out
      else snd (crimp_yaml_rules_load_file load os (path_join dir name) out)) out names) =
    v_items out @ concat (map (\<lambda>name. if has_yaml_extension name \<and> length (path_join dir name) < 1024
      then (case file_rules load os (path_join dir name) of None \<Rightarrow> [] | Some rs \<Rightarrow> rs) else []) names)"
    by (rule foldl_append_items) (simp add: load_file_items)
  with Some show ?thesis by (simp add: crimp_yaml_rules_load_dir_def dir_rules_def concat_map_filter)
qed (simp add: crimp_yaml_rules_load_dir_def dir_rules_def)

lemma dir_rules_pattern: "list_all (\<lambda>r. yr_pattern r \<noteq> []) (dir_rules load os dir)"
proof (cases "os_opendir os dir")
  case (Some names)
  have "list_all (\<lambda>r. yr_pattern r \<noteq> []) (case file_rules load os p of None \<Rightarrow> [] | Some rs \<Rightarrow> rs)" for p
    using file_rules_pattern by (auto split: option.split)
  with Some show ?thesis by (auto simp: dir_rules_def list_all_iff)
qed (simp add: dir_rules_def)

lemma yaml_scan_items:
  "v_items (crimp_scan_directory_for_yaml_rules fds os root rules out) =
     v_items out @ concat (map (file_findings os [] (map rule_marker (v_items rules))) (walk_paths fds os root))"
  by (auto simp: crimp_scan_directory_for_yaml_rules_def scan_patterns_items file_findings_def)

section \<open>Properties\<close>

text \<open>
  C29: A rule file is loaded whole or not at all: when it can be opened and parsed, has a
  sequence of rules and every rule has its four fields, a pattern that is not empty and
  a known severity in any case, its rules are appended in order; otherwise the load
  fails and the list is exactly as it was.
\<close>

theorem rule_file_all_or_nothing:
  "case file_rules load os path of
     None \<Rightarrow> crimp_yaml_rules_load_file load os path out = (False, out)
   | Some rs \<Rightarrow> fst (crimp_yaml_rules_load_file load os path out) \<and>
       v_items (snd (crimp_yaml_rules_load_file load os path out)) = v_items out @ rs"
  by (simp add: load_file_rules rule_list_fold split: option.split)

text \<open>
  Loading a directory fails exactly when it cannot be opened; it appends, in listing
  order, the rules of every file with a \<open>.yaml\<close> or \<open>.yml\<close> ending in any case and a path
  that fits the buffer, and no rule it adds has an empty pattern.
\<close>

lemma rule_dir_loads:
  "fst (crimp_yaml_rules_load_dir load os dir out) = (os_opendir os dir \<noteq> None) \<and>
   v_items (snd (crimp_yaml_rules_load_dir load os dir out)) = v_items out @ dir_rules load os dir \<and>
   list_all (\<lambda>r. yr_pattern r \<noteq> []) (dir_rules load os dir)"
  using load_dir_items [of load os dir out] dir_rules_pattern by blast

end
