(* ===== verification/Scan.thy ===== *)
theory Scan
  imports PatternScan Components CveMatch YamlRules
begin

text \<open>
  \<open>src/core/scan.c\<close>: one scan of an extracted tree, that is the built-in detectors, the
  inventory, the user's rules and the CVE dataset, in this order and into one result.
\<close>

record crimp_scan_result =
  sr_findings :: "crimp_finding_list"
  sr_components :: "crimp_component_list"

definition crimp_scan_result_init :: crimp_scan_result where
  "crimp_scan_result_init =
     \<lparr>sr_findings = crimp_finding_list_init, sr_components = crimp_component_list_init\<rparr>"

definition crimp_scan_result_free :: "crimp_scan_result \<Rightarrow> crimp_scan_result" where
  "crimp_scan_result_free result =
     \<lparr>sr_findings = crimp_finding_list_free (sr_findings result),
      sr_components = crimp_component_list_free (sr_components result)\<rparr>"

definition CRIMP_SCAN_RULES_FAILED :: u32 where "CRIMP_SCAN_RULES_FAILED = push_bit 0 1"
definition CRIMP_SCAN_CVE_DATASET_FAILED :: u32 where "CRIMP_SCAN_CVE_DATASET_FAILED = push_bit 1 1"

text \<open>The three registrations; their return values are ignored.\<close>

definition builtin_registry :: crimp_registry where
  "builtin_registry =
     snd (crimp_registry_add (snd (crimp_registry_add (snd (crimp_registry_add crimp_registry_init
       crimp_detector_weak_credentials)) crimp_detector_exposed_protocols)) crimp_detector_weak_crypto)"

text \<open>The return code and the result; a null path is None.\<close>

definition crimp_scan_directory ::
  "nat \<Rightarrow> yaml_loader \<Rightarrow> os_view \<Rightarrow> string \<Rightarrow> string option \<Rightarrow> string option \<Rightarrow> crimp_scan_result \<Rightarrow>
   u32 \<times> crimp_scan_result" where
  "crimp_scan_directory fds load os root_path rules_dir cve_dataset_path result =
     (let findings1 = crimp_registry_run_all builtin_registry fds os root_path (sr_findings result);
          components = crimp_identify_components fds os root_path (sr_components result);
          (rc1, findings2) =
            (case rules_dir of
               None \<Rightarrow> (0, findings1)
             | Some dir \<Rightarrow>
                 (case crimp_yaml_rules_load_dir load os dir crimp_yaml_rule_list_init of
                    (ok, rules) \<Rightarrow>
                      (if \<not> ok then 0 OR CRIMP_SCAN_RULES_FAILED else 0,
                       crimp_scan_directory_for_yaml_rules fds os root_path rules findings1)));
          (rc2, findings3) =
            (case cve_dataset_path of
               None \<Rightarrow> (rc1, findings2)
             | Some path \<Rightarrow>
                 (case crimp_cve_match_components load os path (v_items components) findings2 of
                    (ok, findings) \<Rightarrow>
                      (if \<not> ok then rc1 OR CRIMP_SCAN_CVE_DATASET_FAILED else rc1, findings)))
      in (rc2, \<lparr>sr_findings = findings3, sr_components = components\<rparr>))"

section \<open>What a scan finds\<close>

lemma builtin_detectors:
  "reg_detectors builtin_registry =
     [crimp_detector_weak_credentials, crimp_detector_exposed_protocols, crimp_detector_weak_crypto]"
  by (simp add: builtin_registry_def crimp_registry_add_def crimp_registry_init_def CRIMP_MAX_DETECTORS_def)

definition builtin_findings :: "nat \<Rightarrow> os_view \<Rightarrow> string \<Rightarrow> crimp_finding list" where
  "builtin_findings fds os root =
     detector_findings fds os root ''weak-credentials'' weak_credentials_MARKERS @
     detector_findings fds os root ''exposed-protocols'' exposed_protocols_MARKERS @
     detector_findings fds os root ''weak-crypto'' weak_crypto_MARKERS"

definition rule_findings :: "nat \<Rightarrow> yaml_loader \<Rightarrow> os_view \<Rightarrow> string \<Rightarrow> string option \<Rightarrow> crimp_finding list" where
  "rule_findings fds load os root rules_dir =
     (case rules_dir of None \<Rightarrow> []
      | Some dir \<Rightarrow> detector_findings fds os root [] (map rule_marker (dir_rules load os dir)))"

definition dataset_findings ::
  "yaml_loader \<Rightarrow> os_view \<Rightarrow> crimp_component list \<Rightarrow> string option \<Rightarrow> crimp_finding list" where
  "dataset_findings load os comps cve_dataset_path =
     (case cve_dataset_path of None \<Rightarrow> []
      | Some path \<Rightarrow> (case dataset_at load os path of None \<Rightarrow> [] | Some ds \<Rightarrow> cve_findings ds comps))"

definition inventory_of :: "nat \<Rightarrow> os_view \<Rightarrow> string \<Rightarrow> crimp_component list" where
  "inventory_of fds os root = concat (map (file_components os) (walk_paths fds os root))"

lemma run_all_builtin:
  "v_items (crimp_registry_run_all builtin_registry fds os root out) = v_items out @ builtin_findings fds os root"
  by (simp add: crimp_registry_run_all_def builtin_detectors detector_scan_items builtin_findings_def)

lemma rules_step:
  "v_items (crimp_scan_directory_for_yaml_rules fds os root
      (snd (crimp_yaml_rules_load_dir load os dir crimp_yaml_rule_list_init)) out) =
     v_items out @ rule_findings fds load os root (Some dir)"
  using load_dir_items [of load os dir crimp_yaml_rule_list_init]
  by (simp add: yaml_scan_items rule_findings_def detector_findings_def crimp_yaml_rule_list_init_def)

lemma dataset_step:
  "v_items (snd (crimp_cve_match_components load os path comps out)) =
     v_items out @ dataset_findings load os comps (Some path)"
  "fst (crimp_cve_match_components load os path comps out) = (dataset_at load os path \<noteq> None)"
proof -
  have "v_items (snd (crimp_cve_match_components load os path comps out)) =
        v_items out @ dataset_findings load os comps (Some path) \<and>
      fst (crimp_cve_match_components load os path comps out) = (dataset_at load os path \<noteq> None)"
  proof (cases "dataset_at load os path")
    case None
    then have "crimp_cve_match_components load os path comps out = (False, out)"
      by (intro cve_match_fails) (auto simp: dataset_at_def)
    with None show ?thesis by (simp add: dataset_findings_def)
  next
    case (Some ds)
    then obtain f doc where "os_read os path = Some f" "load f = Some doc" "read_dataset doc = Some ds"
      by (auto simp: dataset_at_def bind_eq_Some_conv)
    with Some show ?thesis using cve_match_items by (simp add: dataset_findings_def)
  qed
  then show "v_items (snd (crimp_cve_match_components load os path comps out)) =
     v_items out @ dataset_findings load os comps (Some path)"
    "fst (crimp_cve_match_components load os path comps out) = (dataset_at load os path \<noteq> None)" by simp_all
qed

lemma scan_directory_result:
  "fst (crimp_scan_directory fds load os root rd ds r) =
     (if \<exists>dir. rd = Some dir \<and> os_opendir os dir = None then CRIMP_SCAN_RULES_FAILED else 0) OR
     (if \<exists>path. ds = Some path \<and> dataset_at load os path = None then CRIMP_SCAN_CVE_DATASET_FAILED else 0)"
  "v_items (sr_findings (snd (crimp_scan_directory fds load os root rd ds r))) =
     v_items (sr_findings r) @ builtin_findings fds os root @ rule_findings fds load os root rd @
     dataset_findings load os (v_items (sr_components r) @ inventory_of fds os root) ds"
  "v_items (sr_components (snd (crimp_scan_directory fds load os root rd ds r))) =
     v_items (sr_components r) @ inventory_of fds os root"
proof -
  have comps: "v_items (crimp_identify_components fds os root (sr_components r)) =
      v_items (sr_components r) @ inventory_of fds os root"
    by (simp add: identify_components_items inventory_of_def)
  have load_ok: "fst (crimp_yaml_rules_load_dir load os dir crimp_yaml_rule_list_init) = (os_opendir os dir \<noteq> None)" for dir
    using load_dir_items [of load os dir crimp_yaml_rule_list_init] by simp
  show "fst (crimp_scan_directory fds load os root rd ds r) =
     (if \<exists>dir. rd = Some dir \<and> os_opendir os dir = None then CRIMP_SCAN_RULES_FAILED else 0) OR
     (if \<exists>path. ds = Some path \<and> dataset_at load os path = None then CRIMP_SCAN_CVE_DATASET_FAILED else 0)"
    by (cases rd; cases ds) (simp_all add: crimp_scan_directory_def Let_def split_beta load_ok dataset_step)
  show "v_items (sr_findings (snd (crimp_scan_directory fds load os root rd ds r))) =
     v_items (sr_findings r) @ builtin_findings fds os root @ rule_findings fds load os root rd @
     dataset_findings load os (v_items (sr_components r) @ inventory_of fds os root) ds"
    by (cases rd; cases ds)
      (simp_all add: crimp_scan_directory_def Let_def split_beta run_all_builtin rules_step dataset_step comps,
       simp_all add: rule_findings_def dataset_findings_def)
  show "v_items (sr_components (snd (crimp_scan_directory fds load os root rd ds r))) =
     v_items (sr_components r) @ inventory_of fds os root"
    by (cases rd; cases ds) (simp_all add: crimp_scan_directory_def Let_def split_beta comps)
qed

text \<open>
  C19: A scan always finishes with its whole result: the findings of the three detectors,
  then of the user's rules, then of the dataset against the complete inventory, added
  to what the result held; the return code has its first bit exactly when a rules
  directory was given and cannot be opened, its second exactly when a dataset was given
  and cannot be read, and an input that fails contributes nothing.
\<close>

theorem scan_directory_complete:
  "v_items (sr_findings (snd (crimp_scan_directory fds load os root rd ds r))) =
     v_items (sr_findings r) @ builtin_findings fds os root @ rule_findings fds load os root rd @
     dataset_findings load os (v_items (sr_components r) @ inventory_of fds os root) ds \<and>
   v_items (sr_components (snd (crimp_scan_directory fds load os root rd ds r))) =
     v_items (sr_components r) @ inventory_of fds os root \<and>
   (fst (crimp_scan_directory fds load os root rd ds r) AND CRIMP_SCAN_RULES_FAILED \<noteq> 0) =
     (\<exists>dir. rd = Some dir \<and> os_opendir os dir = None) \<and>
   (fst (crimp_scan_directory fds load os root rd ds r) AND CRIMP_SCAN_CVE_DATASET_FAILED \<noteq> 0) =
     (\<exists>path. ds = Some path \<and> dataset_at load os path = None)"
  unfolding scan_directory_result
  by (simp add: CRIMP_SCAN_RULES_FAILED_def CRIMP_SCAN_CVE_DATASET_FAILED_def)

end
