(* ===== verification/Sbom.thy ===== *)
theory Sbom
  imports CoreUtil
begin

text \<open>
  \<open>src/core/sbom.c\<close>: the inventory written as a CycloneDX document. The output stream
  is the text written to it.
\<close>

section \<open>Writing\<close>

definition QUOTE :: char where "QUOTE = CHR 0x22"
definition BACKSLASH :: char where "BACKSLASH = CHR 0x5C"

definition hex_digit :: "nat \<Rightarrow> char" where
  "hex_digit n = (if n < 10 then char_of (48 + n) else char_of (87 + n))"

text \<open>\<open>%04x\<close> of a byte.\<close>

definition hex4 :: "nat \<Rightarrow> string" where
  "hex4 n = [CHR ''0'', CHR ''0'', hex_digit (n div 16), hex_digit (n mod 16)]"

definition json_escape :: "char \<Rightarrow> string" where
  "json_escape c =
     (if c = QUOTE then [BACKSLASH, QUOTE]
      else if c = BACKSLASH then [BACKSLASH, BACKSLASH]
      else if c = CHR 0x0A then [BACKSLASH, CHR ''n'']
      else if c = CHR 0x0D then [BACKSLASH, CHR ''r'']
      else if c = CHR 0x09 then [BACKSLASH, CHR ''t'']
      else if c < CHR 0x20 then BACKSLASH # CHR ''u'' # hex4 (of_char c)
      else [c])"

definition write_json_string :: "string \<Rightarrow> string" where
  "write_json_string s = QUOTE # concat (map json_escape s) @ [QUOTE]"

definition nl :: string where "nl = [CHR 0x0A]"

text \<open>One component; \<open>has_next\<close> is whether another one follows.\<close>

definition write_component :: "crimp_component \<Rightarrow> bool \<Rightarrow> string" where
  "write_component c has_next =
     ''    {'' @ nl @
     ''      \"type\": \"library\",'' @ nl @
     ''      \"name\": '' @ write_json_string (cc_component c) @ '','' @ nl @
     (if cc_version c \<noteq> [] then
        ''      \"version\": '' @ write_json_string (cc_version c) @ '','' @ nl else []) @
     ''      \"evidence\": {'' @ nl @
     ''        \"occurrences\": ['' @ nl @
     ''          { \"location\": '' @ write_json_string (cc_path c) @ '' }'' @ nl @
     ''        ]'' @ nl @
     ''      }'' @ nl @
     (if has_next then ''    },'' @ nl else ''    }'' @ nl)"

fun write_components :: "crimp_component list \<Rightarrow> string" where
  "write_components [] = []"
| "write_components (c # cs) = write_component c (cs \<noteq> []) @ write_components cs"

definition crimp_sbom_write_cyclonedx :: "crimp_component list \<Rightarrow> string" where
  "crimp_sbom_write_cyclonedx components =
     ''{'' @ nl @
     ''  \"bomFormat\": \"CycloneDX\",'' @ nl @
     ''  \"specVersion\": \"1.6\",'' @ nl @
     ''  \"version\": 1,'' @ nl @
     ''  \"components\": ['' @ nl @
     write_components components @
     ''  ]'' @ nl @
     ''}'' @ nl"

section \<open>JSON\<close>

text \<open>
  The text between the quotes of a JSON string, decoded to bytes: None for a raw quote
  or control character, an unknown escape, or a \<open>\u\<close> escape that is not one byte.
\<close>

definition hex_value :: "char \<Rightarrow> nat option" where
  "hex_value c =
     (if is_digit_c c then Some (of_char c - 48)
      else if CHR ''a'' \<le> c \<and> c \<le> CHR ''f'' then Some (of_char c - 87)
      else if CHR ''A'' \<le> c \<and> c \<le> CHR ''F'' then Some (of_char c - 55)
      else None)"

definition hex_byte :: "string \<Rightarrow> char option" where
  "hex_byte h =
     (case h of [a, b, c, d] \<Rightarrow>
        do { va \<leftarrow> hex_value a; vb \<leftarrow> hex_value b; vc \<leftarrow> hex_value c; vd \<leftarrow> hex_value d;
             if va = 0 \<and> vb = 0 then Some (char_of (16 * vc + vd)) else None }
      | _ \<Rightarrow> None)"

definition short_escape :: "char \<Rightarrow> char option" where
  "short_escape e = map_of
     [(QUOTE, QUOTE), (BACKSLASH, BACKSLASH), (CHR ''/'', CHR ''/''), (CHR ''b'', CHR 0x08),
      (CHR ''f'', CHR 0x0C), (CHR ''n'', CHR 0x0A), (CHR ''r'', CHR 0x0D), (CHR ''t'', CHR 0x09)] e"

function json_unescape :: "string \<Rightarrow> string option" where
  "json_unescape s =
     (case s of [] \<Rightarrow> Some []
      | c # r \<Rightarrow>
          if c = BACKSLASH then
            (case r of [] \<Rightarrow> None
             | e # r' \<Rightarrow>
                 if e = CHR ''u'' then
                   (case hex_byte (take 4 r') of None \<Rightarrow> None
                    | Some d \<Rightarrow> map_option (Cons d) (json_unescape (drop 4 r')))
                 else
                   (case short_escape e of None \<Rightarrow> None
                    | Some d \<Rightarrow> map_option (Cons d) (json_unescape r')))
          else if c = QUOTE \<or> c < CHR 0x20 then None
          else map_option (Cons c) (json_unescape r))"
  by pat_completeness auto
termination by (relation "measure length") auto

declare json_unescape.simps [simp del]

datatype json =
  JString string
| JNumber string
| JArray "json list"
| JObject "(string \<times> json) list"

definition json_ws :: "string \<Rightarrow> bool" where
  "json_ws w \<longleftrightarrow> set w \<subseteq> {CHR 0x20, CHR 0x0A, CHR 0x0D, CHR 0x09}"

definition json_string :: "string \<Rightarrow> string \<Rightarrow> bool" where
  "json_string s t \<longleftrightarrow> (\<exists>body. t = QUOTE # body @ [QUOTE] \<and> json_unescape body = Some s)"

text \<open>The grammar of the part of JSON the document uses: a value and a text that denotes it.\<close>

inductive json_text :: "json \<Rightarrow> string \<Rightarrow> bool"
  and json_elements :: "json list \<Rightarrow> string \<Rightarrow> bool"
  and json_members :: "(string \<times> json) list \<Rightarrow> string \<Rightarrow> bool" where
  json_str: "json_string s t \<Longrightarrow> json_text (JString s) t"
| json_num: "ds \<noteq> [] \<Longrightarrow> list_all is_digit_c ds \<Longrightarrow> hd ds \<noteq> CHR ''0'' \<or> length ds = 1 \<Longrightarrow> json_text (JNumber ds) ds"
| json_arr: "json_elements vs t \<Longrightarrow> json_text (JArray vs) (''['' @ t @ '']'')"
| json_obj: "json_members ms t \<Longrightarrow> json_text (JObject ms) (''{'' @ t @ ''}'')"
| elements_none: "json_ws w \<Longrightarrow> json_elements [] w"
| elements_one: "json_ws w1 \<Longrightarrow> json_text v t \<Longrightarrow> json_ws w2 \<Longrightarrow> json_elements [v] (w1 @ t @ w2)"
| elements_more: "json_ws w1 \<Longrightarrow> json_text v t \<Longrightarrow> json_ws w2 \<Longrightarrow> vs \<noteq> [] \<Longrightarrow> json_elements vs r \<Longrightarrow>
     json_elements (v # vs) (w1 @ t @ w2 @ '','' @ r)"
| members_none: "json_ws w \<Longrightarrow> json_members [] w"
| members_one: "json_ws w1 \<Longrightarrow> json_string k kt \<Longrightarrow> json_ws w2 \<Longrightarrow> json_ws w3 \<Longrightarrow> json_text v t \<Longrightarrow> json_ws w4 \<Longrightarrow>
     json_members [(k, v)] (w1 @ kt @ w2 @ '':'' @ w3 @ t @ w4)"
| members_more: "json_ws w1 \<Longrightarrow> json_string k kt \<Longrightarrow> json_ws w2 \<Longrightarrow> json_ws w3 \<Longrightarrow> json_text v t \<Longrightarrow> json_ws w4 \<Longrightarrow>
     ms \<noteq> [] \<Longrightarrow> json_members ms r \<Longrightarrow>
     json_members ((k, v) # ms) (w1 @ kt @ w2 @ '':'' @ w3 @ t @ w4 @ '','' @ r)"

definition json_document :: "json \<Rightarrow> string \<Rightarrow> bool" where
  "json_document v s \<longleftrightarrow> (\<exists>w1 t w2. s = w1 @ t @ w2 \<and> json_ws w1 \<and> json_ws w2 \<and> json_text v t)"

section \<open>Strings round trip\<close>

lemma hex_byte_hex4: "n < 32 \<Longrightarrow> hex_byte (hex4 n) = Some (char_of n)"
proof -
  have "\<forall>k \<in> set [0..<32]. hex_byte (hex4 k) = Some (char_of k)" by code_simp
  then show "n < 32 \<Longrightarrow> ?thesis" by simp
qed

lemma json_unescape_escape: "json_unescape (json_escape c @ r) = map_option (Cons c) (json_unescape r)"
proof (cases "c \<in> {QUOTE, BACKSLASH, CHR 0x0A, CHR 0x0D, CHR 0x09}")
  case True
  then show ?thesis
    by (elim insertE emptyE)
      (simp_all add: json_escape_def json_unescape.simps [of "CHR 0x5C # _"] short_escape_def QUOTE_def BACKSLASH_def)
next
  case False
  show ?thesis
  proof (cases "c < CHR 0x20")
    case True
    then have "(of_char c :: nat) < 32" by (simp add: less_char_def)
    moreover have "json_escape c = BACKSLASH # CHR ''u'' # hex4 (of_char c)"
      using False True by (auto simp: json_escape_def)
    moreover have "length (hex4 n) = 4" for n by (simp add: hex4_def)
    ultimately show ?thesis
      by (simp add: json_unescape.simps [of "BACKSLASH # _"] hex_byte_hex4)
  next
    case ge: False
    then have "json_escape c = [c]" using False by (auto simp: json_escape_def)
    with False ge show ?thesis by (simp add: json_unescape.simps [of "c # r"])
  qed
qed

lemma json_unescape_text: "json_unescape (concat (map json_escape s)) = Some s"
proof (induction s)
  case Nil
  show ?case by (simp add: json_unescape.simps)
next
  case (Cons c s)
  then show ?case by (simp add: json_unescape_escape)
qed

lemma json_string_written: "json_string s (write_json_string s)"
  by (auto simp: json_string_def write_json_string_def json_unescape_text)

lemma json_text_written: "json_text (JString s) (write_json_string s)"
  by (rule json_str) (rule json_string_written)

section \<open>The document is well formed\<close>

definition component_json :: "crimp_component \<Rightarrow> json" where
  "component_json c = JObject
     ([(''type'', JString ''library''), (''name'', JString (cc_component c))] @
      (if cc_version c \<noteq> [] then [(''version'', JString (cc_version c))] else []) @
      [(''evidence'', JObject [(''occurrences'', JArray [JObject [(''location'', JString (cc_path c))]])])])"

definition sbom_json :: "crimp_component list \<Rightarrow> json" where
  "sbom_json cs = JObject
     [(''bomFormat'', JString ''CycloneDX''), (''specVersion'', JString ''1.6''), (''version'', JNumber ''1''),
      (''components'', JArray (map component_json cs))]"

lemma json_ws_simps [simp]:
  "json_ws []" "json_ws nl" "json_ws (v @ w) \<longleftrightarrow> json_ws v \<and> json_ws w" "json_ws (CHR '' '' # w) \<longleftrightarrow> json_ws w"
  by (auto simp: json_ws_def nl_def)

text \<open>Members as the code writes them: blanks, the key, a colon and one blank, the value.\<close>

definition member_text :: "string \<Rightarrow> string \<Rightarrow> string \<Rightarrow> string" where
  "member_text w k t = w @ write_json_string k @ '': '' @ t"

lemma members_last:
  "json_ws w \<Longrightarrow> json_text v t \<Longrightarrow> json_ws w' \<Longrightarrow> json_members [(k, v)] (member_text w k t @ w')"
  using members_one [OF _ json_string_written [of k], of w "[]" "'' ''" v t w'] by (simp add: member_text_def)

lemma members_next:
  "json_ws w \<Longrightarrow> json_text v t \<Longrightarrow> ms \<noteq> [] \<Longrightarrow> json_members ms r \<Longrightarrow>
     json_members ((k, v) # ms) (member_text w k t @ '','' @ r)"
  using members_more [OF _ json_string_written [of k], of w "[]" "'' ''" v t "[]" ms r] by (simp add: member_text_def)

lemma members_next_cons:
  "json_ws w \<Longrightarrow> json_text v t \<Longrightarrow> ms \<noteq> [] \<Longrightarrow> json_members ms r \<Longrightarrow>
     json_members ((k, v) # ms) (member_text w k t @ CHR '','' # r)"
  using members_next by simp

lemma literal_keys:
  "write_json_string ''bomFormat'' = ''\"bomFormat\"''" "write_json_string ''specVersion'' = ''\"specVersion\"''"
  "write_json_string ''version'' = ''\"version\"''" "write_json_string ''components'' = ''\"components\"''"
  "write_json_string ''type'' = ''\"type\"''" "write_json_string ''name'' = ''\"name\"''"
  "write_json_string ''evidence'' = ''\"evidence\"''" "write_json_string ''occurrences'' = ''\"occurrences\"''"
  "write_json_string ''location'' = ''\"location\"''" "write_json_string ''library'' = ''\"library\"''"
  "write_json_string ''CycloneDX'' = ''\"CycloneDX\"''" "write_json_string ''1.6'' = ''\"1.6\"''"
  by code_simp+

text \<open>The evidence of a component, its members, and the component.\<close>

definition evidence_text :: "string \<Rightarrow> string" where
  "evidence_text path =
     ''{'' @ nl @ ''        \"occurrences\": ['' @ nl @ ''          { \"location\": '' @ write_json_string path @
     '' }'' @ nl @ ''        ]'' @ nl @ ''      }''"

lemma evidence_json:
  "json_text (JObject [(''occurrences'', JArray [JObject [(''location'', JString path)]])]) (evidence_text path)"
proof -
  have "json_members [(''location'', JString path)] (member_text '' '' ''location'' (write_json_string path) @ '' '')"
    by (rule members_last) (simp_all add: json_text_written)
  from elements_one [OF _ json_obj [OF this], of "nl @ ''          ''" "nl @ ''        ''"]
  have "json_elements [JObject [(''location'', JString path)]]
      ((nl @ ''          '') @ (''{'' @ (member_text '' '' ''location'' (write_json_string path) @ '' '') @ ''}'') @ nl @ ''        '')"
    by simp
  from json_obj [OF members_last [OF _ json_arr [OF this], of "nl @ ''        ''" "nl @ ''      ''" "''occurrences''"]]
  show ?thesis by (simp add: evidence_text_def member_text_def literal_keys)
qed

definition component_members_text :: "crimp_component \<Rightarrow> string" where
  "component_members_text c =
     member_text (nl @ ''      '') ''type'' (write_json_string ''library'') @ '','' @
     member_text (nl @ ''      '') ''name'' (write_json_string (cc_component c)) @ '','' @
     (if cc_version c \<noteq> [] then member_text (nl @ ''      '') ''version'' (write_json_string (cc_version c)) @ '','' else []) @
     member_text (nl @ ''      '') ''evidence'' (evidence_text (cc_path c)) @ nl @ ''    ''"

lemma component_text: "json_text (component_json c) (''{'' @ component_members_text c @ ''}'')"
  unfolding component_json_def component_members_text_def
  by (rule json_obj, cases "cc_version c = []")
    (auto intro!: members_next_cons members_last json_text_written evidence_json)

lemma write_component_text:
  "write_component c has_next =
     ''    '' @ (''{'' @ component_members_text c @ ''}'') @ (if has_next then '','' else []) @ nl"
  by (simp add: write_component_def component_members_text_def evidence_text_def member_text_def literal_keys)

lemma components_text_some:
  "json_ws w \<Longrightarrow> json_elements (map component_json (c # cs)) (w @ write_components (c # cs) @ ''  '')"
proof (induction cs arbitrary: c w)
  case Nil
  then show ?case
    using elements_one [OF _ component_text [of c], of "w @ ''    ''" "nl @ ''  ''"]
    by (simp add: write_component_text)
next
  case (Cons c' cs)
  then have "json_elements (map component_json (c' # cs)) (nl @ write_components (c' # cs) @ ''  '')" by simp
  from elements_more [OF _ component_text [of c] _ _ this, of "w @ ''    ''" "[]"] Cons.prems
  show ?case by (simp add: write_component_text)
qed

lemma components_text: "json_elements (map component_json cs) (nl @ write_components cs @ ''  '')"
  using components_text_some [of nl] by (cases cs) (auto intro: elements_none)

lemma cyclonedx_document: "json_document (sbom_json cs) (crimp_sbom_write_cyclonedx cs)"
proof -
  let ?w = "nl @ ''  ''"
  have "json_members
     [(''bomFormat'', JString ''CycloneDX''), (''specVersion'', JString ''1.6''), (''version'', JNumber ''1''),
      (''components'', JArray (map component_json cs))]
     (member_text ?w ''bomFormat'' (write_json_string ''CycloneDX'') @ '','' @
      member_text ?w ''specVersion'' (write_json_string ''1.6'') @ '','' @
      member_text ?w ''version'' ''1'' @ '','' @
      member_text ?w ''components'' (''['' @ (nl @ write_components cs @ ''  '') @ '']'') @ nl)"
    by (intro members_next members_last json_text_written json_arr components_text)
      (auto intro!: json_num simp: is_digit_c_def)
  from json_obj [OF this] have "json_text (sbom_json cs) (''{'' @
     (member_text ?w ''bomFormat'' (write_json_string ''CycloneDX'') @ '','' @
      member_text ?w ''specVersion'' (write_json_string ''1.6'') @ '','' @
      member_text ?w ''version'' ''1'' @ '','' @
      member_text ?w ''components'' (''['' @ (nl @ write_components cs @ ''  '') @ '']'') @ nl) @ ''}'')"
    by (simp only: sbom_json_def)
  moreover have "crimp_sbom_write_cyclonedx cs = [] @ (''{'' @
     (member_text ?w ''bomFormat'' (write_json_string ''CycloneDX'') @ '','' @
      member_text ?w ''specVersion'' (write_json_string ''1.6'') @ '','' @
      member_text ?w ''version'' ''1'' @ '','' @
      member_text ?w ''components'' (''['' @ (nl @ write_components cs @ ''  '') @ '']'') @ nl) @ ''}'') @ nl"
    by (simp add: crimp_sbom_write_cyclonedx_def member_text_def literal_keys)
  ultimately show ?thesis unfolding json_document_def by (intro exI conjI) (assumption | simp)+
qed

text \<open>
  What is written between the quotes of a JSON string decodes to the text it was
  written from, and holds no raw control character.
\<close>

lemma json_string_roundtrip:
  "json_unescape (butlast (tl (write_json_string s))) = Some s \<and>
   filter (\<lambda>c. c < CHR 0x20) (write_json_string s) = []"
proof
  show "json_unescape (butlast (tl (write_json_string s))) = Some s"
    by (simp add: write_json_string_def json_unescape_text)
  have hx: "\<forall>n \<in> set [0..<32]. filter (\<lambda>c. c < CHR 0x20) (hex4 n) = []" by code_simp
  have "filter (\<lambda>c. c < CHR 0x20) (json_escape c) = []" for c
  proof -
    have "c < CHR 0x20 \<Longrightarrow> (of_char c :: nat) < 32" by (simp add: less_char_def)
    moreover have "\<not> QUOTE < CHR 0x20" "\<not> BACKSLASH < CHR 0x20" "\<not> CHR ''n'' < CHR 0x20" "\<not> CHR ''r'' < CHR 0x20"
      "\<not> CHR ''t'' < CHR 0x20" "\<not> CHR ''u'' < CHR 0x20" by code_simp+
    ultimately show ?thesis using hx by (auto simp: json_escape_def)
  qed
  moreover have "\<not> QUOTE < CHR 0x20" by code_simp
  ultimately show "filter (\<lambda>c. c < CHR 0x20) (write_json_string s) = []"
    by (simp add: write_json_string_def filter_concat comp_def)
qed

section \<open>Properties\<close>

text \<open>
  C25: The SBOM written for an inventory is a well-formed JSON document, and the value it
  denotes is the CycloneDX object with one component object per entry, in order, each
  with its name, its version when it has one, and its path, decoded to exactly the bytes
  of the inventory whatever characters they hold.
\<close>

theorem sbom_is_json: "json_document (sbom_json cs) (crimp_sbom_write_cyclonedx cs)"
  by (rule cyclonedx_document)

end
