(* ===== verification/Cli.thy ===== *)
theory Cli
  imports FsExtract Scan Sbom
begin

text \<open>
  \<open>src/cli/main.c\<close>: the command line. The state is the disk and the two output
  streams; the exit code is the value of \<open>main\<close>. The environment is the codec (the
  decompressors), the YAML loader and the number of directory streams.
\<close>

record cli_state =
  cl_disk :: disk
  cl_stdout :: string
  cl_stderr :: string

record cli_env =
  ce_codec :: codec
  ce_load :: yaml_loader
  ce_fds :: nat

definition put_out :: "string \<Rightarrow> cli_state \<Rightarrow> cli_state" where
  "put_out s st = st\<lparr>cl_stdout := cl_stdout st @ s\<rparr>"

definition put_err :: "string \<Rightarrow> cli_state \<Rightarrow> cli_state" where
  "put_err s st = st\<lparr>cl_stderr := cl_stderr st @ s\<rparr>"

text \<open>\<open>%zu\<close>, \<open>%u\<close> and \<open>%llu\<close>.\<close>

fun print_nat :: "nat \<Rightarrow> string" where
  "print_nat n = (if n < 10 then [char_of (48 + n)] else print_nat (n div 10) @ [char_of (48 + n mod 10)])"

declare print_nat.simps [simp del]

definition quoted :: "string \<Rightarrow> string" where
  "quoted s = CHR 0x27 # s @ [CHR 0x27]"

section \<open>Scanning and reporting\<close>

fun severity_name :: "crimp_severity \<Rightarrow> string" where
  "severity_name CRIMP_SEVERITY_LOW = ''LOW''"
| "severity_name CRIMP_SEVERITY_MEDIUM = ''MEDIUM''"
| "severity_name CRIMP_SEVERITY_HIGH = ''HIGH''"
| "severity_name CRIMP_SEVERITY_CRITICAL = ''CRITICAL''"

definition is_directory :: "disk \<Rightarrow> string \<Rightarrow> bool" where
  "is_directory d path \<longleftrightarrow> stat_node d path = Some Directory"

definition scan_warnings :: "u32 \<Rightarrow> string option \<Rightarrow> string option \<Rightarrow> string" where
  "scan_warnings scan_rc rules_dir cve_dataset_path =
     (if scan_rc AND CRIMP_SCAN_RULES_FAILED \<noteq> 0
      then ''warning: --rules directory '' @ quoted (case rules_dir of Some r \<Rightarrow> r | None \<Rightarrow> []) @
           '' could not be opened - no user-defined rules were loaded'' @ nl else []) @
     (if scan_rc AND CRIMP_SCAN_CVE_DATASET_FAILED \<noteq> 0
      then ''warning: --cve-dataset '' @ quoted (case cve_dataset_path of Some c \<Rightarrow> c | None \<Rightarrow> []) @
           '' could not be opened or parsed - no CVE matches were checked'' @ nl else [])"

definition finding_line :: "crimp_finding \<Rightarrow> string" where
  "finding_line f = ''['' @ severity_name (cf_severity f) @ ''] '' @ cf_detector_name f @ '': '' @ cf_description f @ nl"

definition component_line :: "crimp_component \<Rightarrow> string" where
  "component_line c = cc_component c @ '' '' @ cc_version c @ '' ('' @ cc_path c @ '')'' @ nl"

definition scan_report :: "crimp_scan_result \<Rightarrow> string" where
  "scan_report result =
     ''=== Findings ('' @ print_nat (length (v_items (sr_findings result))) @ '') ==='' @ nl @
     concat (map finding_line (v_items (sr_findings result))) @
     nl @ ''=== Components identified ('' @ print_nat (length (v_items (sr_components result))) @ '') ==='' @ nl @
     concat (map component_line (v_items (sr_components result)))"

definition SBOM_PATH :: string where "SBOM_PATH = ''sbom.cdx.json''"

definition write_sbom :: "crimp_component list \<Rightarrow> cli_state \<Rightarrow> cli_state" where
  "write_sbom components st =
     (case fopen_wb SBOM_PATH (cl_disk st) of
        None \<Rightarrow> st
      | Some (h, d1) \<Rightarrow>
          put_out (nl @ ''SBOM written to sbom.cdx.json'' @ nl)
            (st\<lparr>cl_disk := sys_fwrite h (map byte_of_chr (crimp_sbom_write_cyclonedx components)) d1\<rparr>))"

definition cli_scan_directory :: "cli_env \<Rightarrow> string \<Rightarrow> string option \<Rightarrow> string option \<Rightarrow> cli_state \<Rightarrow> cli_state" where
  "cli_scan_directory env root_path rules_dir cve_dataset_path st =
     (case crimp_scan_directory (ce_fds env) (ce_load env) (disk_view (cl_disk st)) root_path rules_dir
             cve_dataset_path crimp_scan_result_init of
        (scan_rc, result) \<Rightarrow>
          write_sbom (v_items (sr_components result))
            (put_out (scan_report result) (put_err (scan_warnings scan_rc rules_dir cve_dataset_path) st)))"

section \<open>Images\<close>

definition fs_type_name :: "crimp_fs_type \<Rightarrow> string" where
  "fs_type_name type =
     (case type of CRIMP_FS_SQUASHFS \<Rightarrow> ''squashfs'' | CRIMP_FS_CRAMFS \<Rightarrow> ''cramfs''
      | CRIMP_FS_JFFS2 \<Rightarrow> ''jffs2'' | _ \<Rightarrow> ''unknown'')"

definition info_report :: "crimp_fs_info \<Rightarrow> string" where
  "info_report info =
     ''filesystem:    '' @ fs_type_name (fi_type info) @ nl @
     ''inodes:        '' @ print_nat (unat (fi_inode_count info)) @ nl @
     ''block_size:    '' @ print_nat (unat (fi_block_size info)) @ nl @
     ''compression:   '' @ crimp_fs_compression_name (fi_type info) (fi_compression info) @ nl @
     ''bytes_used:    '' @ print_nat (unat (fi_bytes_used info)) @ nl"

definition extraction_dir :: "string \<Rightarrow> string" where
  "extraction_dir path = path @ ''.crimp-extracted''"

definition identify_and_extract :: "cli_env \<Rightarrow> string \<Rightarrow> string option \<Rightarrow> string option \<Rightarrow> cli_state \<Rightarrow> cli_state" where
  "identify_and_extract env path rules_dir cve_dataset_path st =
     (case crimp_fs_identify (cl_disk st) path of
        None \<Rightarrow> put_err (path @ '': filesystem not recognized'' @ nl) st
      | Some info \<Rightarrow>
          (let st1 = put_out (info_report info) st;
               output_dir = extraction_dir path
           in if length output_dir \<ge> 1024
              then put_err (path @ '': path too long to build an extraction directory'' @ nl) st1
              else
                (let st2 = put_out (nl @ ''Extracting to '' @ output_dir @ '' ...'' @ nl) st1
                 in case crimp_fs_extract (ce_codec env) path output_dir (cl_disk st2) of
                      (False, d) \<Rightarrow>
                        put_err (path @ '': extraction failed (malformed image or unsupported compressor)'' @ nl)
                          (st2\<lparr>cl_disk := d\<rparr>)
                    | (True, d) \<Rightarrow>
                        cli_scan_directory env output_dir rules_dir cve_dataset_path
                          (put_out (''Extraction complete, scanning...'' @ nl @ nl) (st2\<lparr>cl_disk := d\<rparr>)))))"

section \<open>The command line\<close>

text \<open>
  The argument loop: a message when an option lacks its value, otherwise the target, the
  rules directory and the dataset, null pointers as None. A second positional argument
  ends the loop without a target.
\<close>

fun parse_args ::
  "string \<Rightarrow> string list \<Rightarrow> string option \<Rightarrow> string option \<Rightarrow> string option \<Rightarrow>
   string + (string option \<times> string option \<times> string option)" where
  "parse_args argv0 [] target rules_dir cve = Inr (target, rules_dir, cve)"
| "parse_args argv0 (a # args) target rules_dir cve =
     (if a = ''--rules'' then
        (case args of [] \<Rightarrow> Inl (argv0 @ '': --rules requires a directory argument'' @ nl)
         | v # args' \<Rightarrow> parse_args argv0 args' target (Some v) cve)
      else if a = ''--cve-dataset'' then
        (case args of [] \<Rightarrow> Inl (argv0 @ '': --cve-dataset requires a file argument'' @ nl)
         | v # args' \<Rightarrow> parse_args argv0 args' target rules_dir (Some v))
      else if target = None then parse_args argv0 args (Some a) rules_dir cve
      else Inr (None, rules_dir, cve))"

definition run_target :: "cli_env \<Rightarrow> string \<Rightarrow> string option \<Rightarrow> string option \<Rightarrow> cli_state \<Rightarrow> cli_state" where
  "run_target env target rules_dir cve st =
     (if is_directory (cl_disk st) target then cli_scan_directory env target rules_dir cve st
      else identify_and_extract env target rules_dir cve st)"

definition crimp_main :: "cli_env \<Rightarrow> string \<Rightarrow> string list \<Rightarrow> cli_state \<Rightarrow> nat \<times> cli_state" where
  "crimp_main env argv0 args st =
     (case parse_args argv0 args None None None of
        Inl message \<Rightarrow> (1, put_err message st)
      | Inr (None, rules_dir, cve) \<Rightarrow>
          (1, put_err (''usage: '' @ argv0 @ '' <firmware-image-or-extracted-dir> [--rules <dir>] [--cve-dataset <file>]'' @ nl) st)
      | Inr (Some target, rules_dir, cve) \<Rightarrow> (0, run_target env target rules_dir cve st))"

section \<open>What the arguments mean\<close>

text \<open>Positional arguments, and the last value given for each option; None when a value is missing.\<close>

definition or_else :: "'a option \<Rightarrow> 'a option \<Rightarrow> 'a option" where
  "or_else a b = (case a of None \<Rightarrow> b | Some x \<Rightarrow> Some x)"

lemma or_else_simps [simp]: "or_else None b = b" "or_else (Some x) b = Some x" "or_else a None = a"
  by (simp_all add: or_else_def split: option.split)

lemma or_else_assoc: "or_else (or_else a b) c = or_else a (or_else b c)"
  by (cases a) simp_all

fun cli_items :: "string list \<Rightarrow> (string list \<times> string option \<times> string option) option" where
  "cli_items [] = Some ([], None, None)"
| "cli_items (a # args) =
     (if a = ''--rules'' then
        (case args of [] \<Rightarrow> None
         | v # args' \<Rightarrow> map_option (\<lambda>(ps, r, c). (ps, or_else r (Some v), c)) (cli_items args'))
      else if a = ''--cve-dataset'' then
        (case args of [] \<Rightarrow> None
         | v # args' \<Rightarrow> map_option (\<lambda>(ps, r, c). (ps, r, or_else c (Some v))) (cli_items args'))
      else map_option (\<lambda>(ps, r, c). (a # ps, r, c)) (cli_items args))"

definition targets :: "string option \<Rightarrow> string list \<Rightarrow> string list" where
  "targets t ps = (case t of None \<Rightarrow> ps | Some x \<Rightarrow> x # ps)"

lemma targets_simps [simp]: "targets None ps = ps" "targets (Some x) ps = x # ps"
  by (simp_all add: targets_def)

lemma parse_args_items:
  "(cli_items args = None \<longrightarrow> (\<forall>p r c. parse_args argv0 args t r0 c0 \<noteq> Inr (Some p, r, c))) \<and>
   (\<forall>ps r c. cli_items args = Some (ps, r, c) \<longrightarrow>
      (targets t ps = [] \<longrightarrow> parse_args argv0 args t r0 c0 = Inr (None, or_else r r0, or_else c c0)) \<and>
      (\<forall>p. targets t ps = [p] \<longrightarrow> parse_args argv0 args t r0 c0 = Inr (Some p, or_else r r0, or_else c c0)) \<and>
      (1 < length (targets t ps) \<longrightarrow> (\<forall>p r c. parse_args argv0 args t r0 c0 \<noteq> Inr (Some p, r, c))))"
proof (induction argv0 args t r0 c0 rule: parse_args.induct)
  case (1 argv0 target rules_dir cve)
  then show ?case by (cases target) simp_all
next
  case (2 argv0 a args target rules_dir cve)
  show ?case
  proof (cases "a = ''--rules''")
    case True
    show ?thesis
    proof (cases args)
      case (Cons v args')
      from "2.IH"(1) [OF True Cons] show ?thesis
        using True Cons by (cases "cli_items args'") (auto simp: or_else_assoc)
    qed (use True in simp)
  next
    case nr: False
    show ?thesis
    proof (cases "a = ''--cve-dataset''")
      case True
      show ?thesis
      proof (cases args)
        case (Cons v args')
        from "2.IH"(2) [OF nr True Cons] show ?thesis
          using True Cons by (cases "cli_items args'") (auto simp: or_else_assoc)
      qed (use True in simp)
    next
      case nc: False
      show ?thesis
      proof (cases target)
        case None
        from "2.IH"(3) [OF nr nc None] show ?thesis
          using nr nc None by (cases "cli_items args") auto
      next
        case (Some x)
        then show ?thesis
          using nr nc by (cases "cli_items args") auto
      qed
    qed
  qed
qed

lemma parse_args_target:
  "parse_args argv0 args t r0 c0 = Inr (Some p, r, c) \<Longrightarrow> p \<in> set args \<or> t = Some p"
  by (induction argv0 args t r0 c0 rule: parse_args.induct) (auto split: if_splits list.splits)

lemma put_simps [simp]:
  "cl_disk (put_out s st) = cl_disk st" "cl_disk (put_err s st) = cl_disk st"
  "cl_stdout (put_err s st) = cl_stdout st" "cl_stderr (put_err s st) = cl_stderr st @ s"
  by (simp_all add: put_out_def put_err_def)

lemma parse_args_message: "parse_args argv0 args t r c = Inl m \<Longrightarrow> m \<noteq> []"
  by (induction argv0 args t r c rule: parse_args.induct) (auto split: if_splits list.splits)

section \<open>What a run can change\<close>

lemma write_sbom_changed:
  assumes "\<forall>t. lookup (cl_disk st) SBOM_PATH \<noteq> Some (SymLink t)"
  shows "changed (cl_disk st) (cl_disk (write_sbom cs st)) \<subseteq> {SBOM_PATH}"
proof (cases "fopen_wb SBOM_PATH (cl_disk st)")
  case (Some hd)
  obtain h d1 where hd: "fopen_wb SBOM_PATH (cl_disk st) = Some (h, d1)" using Some by (cases hd) simp
  have e: "h = SBOM_PATH" "d1 = put SBOM_PATH (RegFile []) (cl_disk st)" using fopen_wb_plain [OF assms hd] by simp_all
  have "changed (cl_disk st) d1 \<subseteq> {SBOM_PATH}" by (auto simp: changed_def e)
  from changed_trans [OF this fwrite_changed [of d1 h, unfolded e(1)]]
  show ?thesis using hd e(1) by (simp add: write_sbom_def)
qed (simp add: write_sbom_def)

lemma cli_scan_changed:
  assumes "\<forall>t. lookup (cl_disk st) SBOM_PATH \<noteq> Some (SymLink t)"
  shows "changed (cl_disk st) (cl_disk (cli_scan_directory env root r c st)) \<subseteq> {SBOM_PATH}"
proof -
  obtain rc result where x: "crimp_scan_directory (ce_fds env) (ce_load env) (disk_view (cl_disk st)) root r c crimp_scan_result_init = (rc, result)"
    by fastforce
  show ?thesis
    using write_sbom_changed [of "put_out (scan_report result) (put_err (scan_warnings rc r c) st)"] assms
    by (simp add: cli_scan_directory_def x)
qed

text \<open>The extraction directory, its staging sibling and everything below them.\<close>

definition extraction_area :: "string \<Rightarrow> string set" where
  "extraction_area target =
     {q. at_or_below (extraction_dir target) q} \<union> {q. at_or_below (staging_dir (extraction_dir target)) q}"

lemma sbom_outside: "SBOM_PATH \<notin> extraction_area target"
proof -
  have "length SBOM_PATH < length (extraction_dir target)"
    by (simp add: SBOM_PATH_def extraction_dir_def)
  moreover have "length (extraction_dir target) \<le> length q" if "q \<in> extraction_area target" for q
    using that by (auto simp: extraction_area_def at_or_below_iff staging_dir_def)
  ultimately show ?thesis by (meson linorder_not_less)
qed

lemma changed_superset: "changed a b \<subseteq> S \<Longrightarrow> S \<subseteq> T \<Longrightarrow> changed a b \<subseteq> T"
  by blast

lemma identify_and_extract_changed:
  assumes "\<forall>t. lookup (cl_disk st) SBOM_PATH \<noteq> Some (SymLink t)"
  shows "changed (cl_disk st) (cl_disk (identify_and_extract env target r c st)) \<subseteq> insert SBOM_PATH (extraction_area target)"
proof (cases "crimp_fs_identify (cl_disk st) target")
  case (Some info)
  define od where "od = extraction_dir target"
  show ?thesis
  proof (cases "length od \<ge> 1024")
    case True
    with Some show ?thesis by (simp add: identify_and_extract_def od_def Let_def)
  next
    case False
    obtain ok d where x: "crimp_fs_extract (ce_codec env) target od (cl_disk st) = (ok, d)" by fastforce
    have "changed (cl_disk st) d \<subseteq> {q. at_or_below (staging_dir od) q} \<union> {q. at_or_below od q}"
      using extract_frame [of "cl_disk st" "ce_codec env" target od] x by (auto split: if_splits)
    then have area: "changed (cl_disk st) d \<subseteq> extraction_area target" by (simp add: extraction_area_def od_def Un_commute)
    then have sb: "lookup d SBOM_PATH = lookup (cl_disk st) SBOM_PATH" using sbom_outside by (auto simp: changed_def)
    show ?thesis
    proof (cases ok)
      case True
      define st' where "st' = put_out (''Extraction complete, scanning...'' @ nl @ nl)
        (put_out (nl @ ''Extracting to '' @ od @ '' ...'' @ nl) (put_out (info_report info) st)\<lparr>cl_disk := d\<rparr>)"
      have "cl_disk st' = d" by (simp add: st'_def)
      then have "changed d (cl_disk (cli_scan_directory env od r c st')) \<subseteq> {SBOM_PATH}"
        using cli_scan_changed [of st' env od r c] assms sb by simp
      from changed_union [OF area this]
      have "changed (cl_disk st) (cl_disk (cli_scan_directory env od r c st')) \<subseteq> insert SBOM_PATH (extraction_area target)" by simp
      moreover have "identify_and_extract env target r c st = cli_scan_directory env od r c st'"
        using Some False True x by (simp add: identify_and_extract_def od_def st'_def Let_def)
      ultimately show ?thesis by simp
    next
      case no: False
      then show ?thesis using Some False x area by (auto simp: identify_and_extract_def od_def Let_def)
    qed
  qed
qed (simp add: identify_and_extract_def)

section \<open>Properties\<close>

text \<open>
  C30: The program exits with 0 exactly when every option has a value and there is one
  positional argument, and then it runs on that target with the last value of each
  option; otherwise it exits with 1, says why on the error stream, and neither the disk
  nor the output stream changes.
\<close>

theorem command_line:
  "case cli_items args of
     Some ([p], r, c) \<Rightarrow> crimp_main env argv0 args st = (0, run_target env p r c st)
   | _ \<Rightarrow> fst (crimp_main env argv0 args st) = 1 \<and> cl_disk (snd (crimp_main env argv0 args st)) = cl_disk st \<and>
       cl_stdout (snd (crimp_main env argv0 args st)) = cl_stdout st \<and>
       length (cl_stderr st) < length (cl_stderr (snd (crimp_main env argv0 args st)))"
proof -
  have bad: "fst (crimp_main env argv0 args st) = 1 \<and> cl_disk (snd (crimp_main env argv0 args st)) = cl_disk st \<and>
       cl_stdout (snd (crimp_main env argv0 args st)) = cl_stdout st \<and>
       length (cl_stderr st) < length (cl_stderr (snd (crimp_main env argv0 args st)))"
    if "\<And>p r c. parse_args argv0 args None None None \<noteq> Inr (Some p, r, c)"
  proof (cases "parse_args argv0 args None None None")
    case (Inl m)
    then show ?thesis using parse_args_message [OF Inl] by (simp add: crimp_main_def)
  next
    case (Inr b)
    obtain t r c where b: "b = (t, r, c)" by (rule prod_cases3)
    then have "t = None" using that Inr by (cases t) auto
    with Inr b show ?thesis by (simp add: crimp_main_def)
  qed
  note items = parse_args_items [of args argv0 None None None]
  show ?thesis
  proof (cases "cli_items args")
    case None
    then show ?thesis using items bad by simp
  next
    case (Some x)
    obtain ps r c where x: "x = (ps, r, c)" by (cases x) simp
    show ?thesis
    proof (cases ps rule: remdups_adj.cases)
      case 1
      then show ?thesis using items bad Some x by simp
    next
      case (2 p)
      then show ?thesis using items Some x by (simp add: crimp_main_def)
    next
      case (3 p q qs)
      then show ?thesis using items bad Some x by auto
    qed
  qed
qed

text \<open>
  C1: Whatever the arguments and whatever the images and files on the disk, a run writes
  nothing but \<open>sbom.cdx.json\<close> in the working directory and the extraction directory of
  its target with its staging sibling, provided \<open>sbom.cdx.json\<close> is not a link.
\<close>

theorem run_contained:
  assumes "\<forall>t. lookup (cl_disk st) SBOM_PATH \<noteq> Some (SymLink t)"
  shows "changed (cl_disk st) (cl_disk (snd (crimp_main env argv0 args st))) \<subseteq>
    insert SBOM_PATH (\<Union>target\<in>set args. extraction_area target)"
proof (cases "\<exists>p r c. parse_args argv0 args None None None = Inr (Some p, r, c)")
  case True
  then obtain p r c where p: "parse_args argv0 args None None None = Inr (Some p, r, c)" by blast
  have "changed (cl_disk st) (cl_disk (run_target env p r c st)) \<subseteq> insert SBOM_PATH (extraction_area p)"
    using changed_superset [OF cli_scan_changed [OF assms]] identify_and_extract_changed [OF assms]
    by (cases "is_directory (cl_disk st) p") (simp_all add: run_target_def)
  moreover have "p \<in> set args" using parse_args_target [OF p] by simp
  ultimately show ?thesis using p by (auto simp: crimp_main_def)
next
  case False
  then have "cl_disk (snd (crimp_main env argv0 args st)) = cl_disk st"
    by (auto simp: crimp_main_def split: sum.split option.split)
  then show ?thesis by simp
qed

theorem run_contained_witness:
  "lookup (cl_disk (snd (crimp_main \<lparr>ce_codec = sample_codec, ce_load = (\<lambda>f. None), ce_fds = 8\<rparr> ''crimp'' [''i'']
     \<lparr>cl_disk = [(''i'', RegFile (cramfs_sample_image True))], cl_stdout = [], cl_stderr = []\<rparr>))) ''i'' =
   Some (RegFile (cramfs_sample_image True))"
proof -
  define st where "st = \<lparr>cl_disk = [(''i'', RegFile (cramfs_sample_image True))], cl_stdout = [], cl_stderr = []\<rparr>"
  have h: "\<forall>t. lookup (cl_disk st) SBOM_PATH \<noteq> Some (SymLink t)"
    by (simp add: st_def lookup_def SBOM_PATH_def)
  have "''i'' \<notin> insert SBOM_PATH (\<Union>target\<in>set [''i'']. extraction_area target)"
    by (simp add: SBOM_PATH_def extraction_area_def at_or_below_def below_def extraction_dir_def staging_dir_def)
  then have "lookup (cl_disk (snd (crimp_main env ''crimp'' [''i''] st))) ''i'' = lookup (cl_disk st) ''i''" for env
    using run_contained [OF h, of env "''crimp''" "[''i'']"] unfolding changed_def by blast
  then show ?thesis by (simp add: st_def lookup_def)
qed

end
