(* ===== verification/EndToEnd.thy ===== *)
theory EndToEnd
  imports ExtractTree Cli
begin

text \<open>
  The two halves together: the walk of the scanner reaches every regular file that an
  extraction has written, so what a file of the image contains is in the report and in the
  SBOM; and a whole run keeps the disk well formed.
\<close>

section \<open>The walk on a disk\<close>

lemma disk_wf_above:
  assumes "disk_wf d" and "a \<noteq> []"
  shows "below a q \<Longrightarrow> lookup d q \<noteq> None \<Longrightarrow> lookup d a = Some Directory"
proof (induction "length q" arbitrary: q rule: less_induct)
  case less
  then have "CHR ''/'' \<in> set q" by (auto simp: below_iff path_join_def)
  then obtain r n where q: "q = r @ CHR ''/'' # n" "CHR ''/'' \<notin> set n" by (metis split_list_last)
  then have j: "q = path_join r n" by (simp add: path_join_def)
  have r: "at_or_below a r" using parent_at_or_below less.prems(1) q(2) j by simp
  then have "r \<noteq> []" using assms(2) by (auto simp: at_or_below_iff)
  then have dir: "lookup d r = Some Directory" using disk_wf_parent [OF assms(1) _ q(2)] less.prems(2) j by simp
  show ?case
  proof (cases "r = a")
    case False
    then have "below a r" using r by (simp add: at_or_below_def)
    with less.hyps [of r] q dir show ?thesis by simp
  qed (use dir in simp)
qed

lemma view_opendir: "lookup d dir = Some Directory \<Longrightarrow> os_opendir (disk_view d) dir = Some (readdir_names d dir)"
  by (simp add: disk_view_def MAX_LINKS_def resolve_not_link [of d dir 39, simplified])

lemma view_stat:
  "lookup d p = Some Directory \<Longrightarrow> os_stat (disk_view d) p = Some S_IFDIR"
  "lookup d p = Some (RegFile bs) \<Longrightarrow> os_stat (disk_view d) p = Some S_IFREG"
  by (simp_all add: disk_view_def stat_node_def MAX_LINKS_def resolve_not_link [of d p 39, simplified])

lemma view_read: "lookup d p = Some (RegFile bs) \<Longrightarrow> os_read (disk_view d) p = Some bs"
  by (simp add: disk_view_def fopen_rb_plain)

text \<open>A regular file under real directories is reached through as many as its path has.\<close>

lemma walked_safe:
  assumes wf: "disk_wf d"
  shows "root \<noteq> [] \<Longrightarrow> safe_rel rel \<Longrightarrow> lookup d (path_join root rel) = Some (RegFile bs) \<Longrightarrow>
    length (path_join root rel) < 1024 \<Longrightarrow>
    walked (disk_view d) (length (split_slash rel) - 1) root (path_join root rel)"
proof (induction "length rel" arbitrary: root rel rule: less_induct)
  case less
  let ?q = "path_join root rel"
  have root: "lookup d root = Some Directory" using disk_wf_above [OF wf less.prems(1), of ?q] less.prems(3) by simp
  show ?case
  proof (cases "CHR ''/'' \<in> set rel")
    case False
    then have safe: "crimp_fs_path_component_is_safe rel" using less.prems(2) by (simp add: safe_rel_def split_slash_plain)
    have "rel \<in> set (readdir_names d root)"
      using readdir_member [of d root rel] safe less.prems(3) False by (auto simp: safe_component_iff)
    moreover have "walk_path root rel = ?q" using less.prems(4) by (rule walk_path_uncut)
    ultimately show ?thesis
      using walked_file [OF view_opendir [OF root], of rel] view_stat(2) [OF less.prems(3)] safe False
      by (simp add: split_slash_plain safe_component_iff)
  next
    case True
    then obtain c rest where rel: "rel = c @ CHR ''/'' # rest" "CHR ''/'' \<notin> set c" by (metis split_list_first)
    then have j: "rel = path_join c rest" by (simp add: path_join_def)
    have safe: "crimp_fs_path_component_is_safe c" "safe_rel rest"
      using less.prems(2) rel(2) by (simp_all add: j safe_rel_def split_slash_join split_slash_plain)
    have q: "?q = path_join (path_join root c) rest" by (simp add: j path_join_def)
    have "path_join root c \<noteq> []" and "below (path_join root c) ?q" unfolding q by (simp_all add: path_join_def [of root])
    then have sub: "lookup d (path_join root c) = Some Directory"
      using disk_wf_above [OF wf, of "path_join root c" ?q] less.prems(3) by simp
    have names: "c \<in> set (readdir_names d root)"
      using readdir_member [of d root c] safe(1) sub rel(2) by (auto simp: safe_component_iff)
    have cut: "walk_path root c = path_join root c"
      using less.prems(4) by (intro walk_path_uncut) (simp add: j path_join_def)
    obtain k where k: "length (split_slash rest) = Suc k" by (cases "split_slash rest") auto
    have "walked (disk_view d) (length (split_slash rest) - 1) (path_join root c) ?q"
      unfolding q using less.hyps [of rest "path_join root c"] rel safe(2) less.prems(3,4)
      by (simp add: q [unfolded j] j) (simp add: path_join_def)
    then have "walked (disk_view d) k (path_join root c) ?q" by (simp add: k)
    moreover have "length (split_slash rel) = Suc (Suc k)"
      using rel(2) k by (simp add: j split_slash_join split_slash_plain)
    ultimately show ?thesis
      using walked_sub [OF view_opendir [OF root], of c k ?q] view_stat(1) [OF sub] safe(1) names cut
      by (simp add: safe_component_iff)
  qed
qed

section \<open>What an extraction writes is scanned\<close>

lemma extracted_walked:
  assumes run: "crimp_fs_extract cx path od d = (True, d')" and image: "lookup d path = Some (RegFile f)"
    and out: "\<not> at_or_below (staging_dir od) path" and tmp: "tree_ok d (staging_dir od)" and wf: "disk_wf d"
    and present: "lookup d' (path_join od rel) = Some (RegFile bs)" "length (path_join od rel) < 1024" and fds: "33 \<le> fds"
  shows "path_join od rel \<in> set (walk_paths fds (disk_view d') od)"
proof -
  obtain items where ok: "list_all (item_ok (codec_bounded cx)) items" and tree: "tree_is od items d'"
    using extract_tree [OF run image out tmp] by blast
  have wf': "disk_wf d'" using extract_wf [OF wf, of cx path od] run by simp
  have "od \<noteq> []" using tree wf' by (auto simp: tree_is_def disk_wf_iff)
  obtain it where "it \<in> set items" "rel = it_path it" using tree present(1) unfolding tree_is_def by blast
  then have rel: "safe_rel rel" "length (split_slash rel) \<le> 33" using ok by (auto simp: list_all_iff item_ok_def)
  have "walked (disk_view d') (length (split_slash rel) - 1) od (path_join od rel)"
    by (rule walked_safe [OF wf' \<open>od \<noteq> []\<close> rel(1) present])
  moreover have "length (split_slash rel) - 1 < fds"
    using rel(2) fds by (cases "split_slash rel") auto
  ultimately show ?thesis unfolding set_walk_paths by blast
qed

text \<open>The built-in detectors: name and markers.\<close>

definition builtin_markers :: "(string \<times> crimp_pattern_marker list) list" where
  "builtin_markers = [(''weak-credentials'', weak_credentials_MARKERS),
     (''exposed-protocols'', exposed_protocols_MARKERS), (''weak-crypto'', weak_crypto_MARKERS)]"

lemma builtin_reported:
  assumes "(name, ms) \<in> set builtin_markers" and "m \<in> set ms" and "p \<in> set (walk_paths fds os root)"
    and "os_read os p = Some bs" and "bs \<noteq> []" and "sublist (pm_pattern m) (c_string (text_of (take 65535 bs)))"
  shows "marker_finding name p m \<in> set (v_items (sr_findings (snd (crimp_scan_directory fds load os root rd ds r))))"
proof -
  have "marker_finding name p m \<in> set (file_findings os name ms p)"
    using assms(2,4-6) by (simp add: file_findings_def visible_text_def)
  then have "marker_finding name p m \<in> set (detector_findings fds os root name ms)"
    using assms(3) by (auto simp: detector_findings_def)
  then have "marker_finding name p m \<in> set (builtin_findings fds os root)"
    using assms(1) by (auto simp: builtin_markers_def builtin_findings_def)
  then show ?thesis by (simp add: scan_directory_result)
qed

lemma sublist_concat_map: "x \<in> set xs \<Longrightarrow> sublist (g x) (concat (map g xs))"
proof -
  assume "x \<in> set xs"
  then obtain ys zs where "xs = ys @ x # zs" by (metis split_list)
  then have "concat (map g xs) = concat (map g ys) @ g x @ concat (map g zs)" by simp
  then show ?thesis by (metis sublist_appendI)
qed

lemma cli_scan_prints:
  assumes "f \<in> set (v_items (sr_findings (snd (crimp_scan_directory (ce_fds env) (ce_load env)
      (disk_view (cl_disk st)) root r c crimp_scan_result_init))))"
  shows "sublist (finding_line f) (cl_stdout (cli_scan_directory env root r c st))"
proof -
  obtain rc result where x: "crimp_scan_directory (ce_fds env) (ce_load env) (disk_view (cl_disk st)) root r c
      crimp_scan_result_init = (rc, result)" by fastforce
  have "sublist (finding_line f) (concat (map finding_line (v_items (sr_findings result))))"
    using sublist_concat_map [of f _ finding_line] assms x by simp
  then have "sublist (finding_line f) (scan_report result)"
    unfolding scan_report_def by (meson sublist_append_leftI sublist_append_rightI sublist_order.order_trans)
  then have rep: "sublist (finding_line f) (pre @ scan_report result @ post)" for pre post
    by (meson sublist_append_leftI sublist_append_rightI sublist_order.order_trans)
  show ?thesis
    using rep [of "cl_stdout st"] rep [of "cl_stdout st" "[]"]
    by (simp add: cli_scan_directory_def x write_sbom_def put_out_def put_err_def split: option.split)
qed


lemma image_not_staged: "\<not> at_or_below (staging_dir (extraction_dir target)) target"
  by (auto simp: at_or_below_iff staging_dir_def extraction_dir_def)

section \<open>The run of an image\<close>

lemma image_run:
  assumes args: "cli_items args = Some ([target], r, c)"
    and image: "lookup (cl_disk st) target = Some (RegFile f)" and len: "length (extraction_dir target) < 1024"
    and run: "crimp_fs_extract (ce_codec env) target (extraction_dir target) (cl_disk st) = (True, d')"
    and tmp: "tree_ok (cl_disk st) (staging_dir (extraction_dir target))"
  obtains st' where "cl_disk st' = d'"
    and "crimp_main env argv0 args st = (0, cli_scan_directory env (extraction_dir target) r c st')"
proof -
  let ?od = "extraction_dir target"
  obtain i where i: "crimp_fs_identify (cl_disk st) target = Some i"
    using extract_tree [OF run image image_not_staged tmp] by blast
  have nodir: "\<not> is_directory (cl_disk st) target"
    using fopen_rb_plain [OF image] by (auto simp: is_directory_def fopen_rb_def)
  define st' where "st' = put_out (''Extraction complete, scanning...'' @ nl @ nl)
    (put_out (nl @ ''Extracting to '' @ ?od @ '' ...'' @ nl) (put_out (info_report i) st)\<lparr>cl_disk := d'\<rparr>)"
  have "identify_and_extract env target r c st = cli_scan_directory env ?od r c st'"
    using i len run by (simp add: identify_and_extract_def st'_def Let_def)
  moreover have "crimp_main env argv0 args st = (0, run_target env target r c st)"
    using parse_args_items [of args argv0 None None None] args by (simp add: crimp_main_def)
  ultimately show ?thesis by (intro that [of st']) (simp_all add: st'_def run_target_def nodir)
qed

text \<open>The file the scan leaves: the document of the inventory, when it can be opened.\<close>

lemma write_sbom_file:
  assumes "lookup (cl_disk st) SBOM_PATH = None \<or> (\<exists>old. lookup (cl_disk st) SBOM_PATH = Some (RegFile old))"
  shows "lookup (cl_disk (write_sbom cs st)) SBOM_PATH =
    Some (RegFile (map byte_of_chr (crimp_sbom_write_cyclonedx cs)))"
proof -
  have "resolve_link MAX_LINKS (cl_disk st) SBOM_PATH = Some SBOM_PATH"
    using assms resolve_not_link [of "cl_disk st" SBOM_PATH 39] by (auto simp: MAX_LINKS_def)
  moreover have "parent_ok (cl_disk st) SBOM_PATH" by (simp add: parent_ok_def parent_of_def SBOM_PATH_def)
  ultimately have "fopen_wb SBOM_PATH (cl_disk st) = Some (SBOM_PATH, put SBOM_PATH (RegFile []) (cl_disk st))"
    using assms by (auto simp: fopen_wb_def)
  then show ?thesis by (simp add: write_sbom_def lookup_fwrite_file)
qed

lemma cli_scan_sbom:
  assumes "lookup (cl_disk st) SBOM_PATH = None \<or> (\<exists>old. lookup (cl_disk st) SBOM_PATH = Some (RegFile old))"
  shows "lookup (cl_disk (cli_scan_directory env root r c st)) SBOM_PATH =
    Some (RegFile (map byte_of_chr (crimp_sbom_write_cyclonedx (inventory_of (ce_fds env) (disk_view (cl_disk st)) root))))"
proof -
  obtain rc result where x: "crimp_scan_directory (ce_fds env) (ce_load env) (disk_view (cl_disk st)) root r c
      crimp_scan_result_init = (rc, result)" by fastforce
  have "v_items (sr_components result) = inventory_of (ce_fds env) (disk_view (cl_disk st)) root"
    using scan_directory_result(3) [of "ce_fds env" "ce_load env" "disk_view (cl_disk st)" root r c crimp_scan_result_init] x
    by (simp add: crimp_scan_result_init_def crimp_component_list_init_def vec_init_def)
  then show ?thesis
    using write_sbom_file [of "put_out (scan_report result) (put_err (scan_warnings rc r c) st)"] assms
    by (simp add: cli_scan_directory_def x)
qed

lemma inventory_reports:
  assumes "p \<in> set (walk_paths fds os root)" and "os_read os p = Some bs" and "m \<in> set COMPONENT_MARKERS"
  shows "set (marker_component p (text_of (take COMPONENT_SCAN_MAX bs)) m) \<subseteq> set (inventory_of fds os root)"
proof -
  have "scanned_text os p = text_of (take COMPONENT_SCAN_MAX bs)" using assms(2) by (simp add: scanned_text_def)
  then have "set (marker_component p (text_of (take COMPONENT_SCAN_MAX bs)) m) \<subseteq> set (file_components os p)"
    using assms(3) by (auto simp: file_components_def)
  then show ?thesis using assms(1) by (auto simp: inventory_of_def)
qed

section \<open>A whole run keeps the disk well formed\<close>

lemma disk_wf_fwrite: "disk_wf d \<Longrightarrow> disk_wf (sys_fwrite h bs d)"
  by (rule disk_wf_change [OF _ fwrite_changed])
    (auto simp: sys_fwrite_def split: option.split fnode.split if_splits)

lemma disk_wf_fopen_wb: "disk_wf d \<Longrightarrow> fopen_wb p d = Some (h, d') \<Longrightarrow> disk_wf d'"
  by (rule disk_wf_change [of d d' h])
    (auto simp: fopen_wb_def changed_def split: option.splits fnode.splits if_splits)

lemma cli_scan_wf: "disk_wf (cl_disk st) \<Longrightarrow> disk_wf (cl_disk (cli_scan_directory env root r c st))"
  by (auto simp: cli_scan_directory_def write_sbom_def disk_wf_fwrite dest: disk_wf_fopen_wb
      split: prod.split option.split)

lemma identify_and_extract_wf:
  assumes "disk_wf (cl_disk st)"
  shows "disk_wf (cl_disk (identify_and_extract env path r c st))"
proof -
  have "disk_wf d" if "crimp_fs_extract cx path od (cl_disk st) = (ok, d)" for cx od ok d
    using extract_wf [OF assms, of cx path od] that by simp
  with assms show ?thesis
    by (auto simp: identify_and_extract_def Let_def intro!: cli_scan_wf split: option.split prod.split bool.split)
qed

text \<open>
  On a disk where every node is in a directory, every run keeps it so, whatever the
  arguments, the images and the files it reads: no file or link is ever turned into
  something with entries below it, and no directory that still has entries is removed.
\<close>

lemma run_keeps_disk_wf:
  assumes "disk_wf (cl_disk st)"
  shows "disk_wf (cl_disk (snd (crimp_main env argv0 args st)))"
  using assms identify_and_extract_wf cli_scan_wf
  by (auto simp: crimp_main_def run_target_def split: sum.split option.split prod.split)

section \<open>Properties\<close>

text \<open>
  C2: From the image to the report: when the extraction of the target succeeds, the run
  exits with 0 and prints a finding for every marker of the built-in detectors in every
  regular file the image put on the disk (in its first 65535 bytes up to the first NUL,
  at a path shorter than 1024 bytes), given at least 33 directory streams.
\<close>

theorem image_markers_printed:
  assumes args: "cli_items args = Some ([target], r, c)"
    and image: "lookup (cl_disk st) target = Some (RegFile f)" and len: "length (extraction_dir target) < 1024"
    and run: "crimp_fs_extract (ce_codec env) target (extraction_dir target) (cl_disk st) = (True, d')"
    and wf: "disk_wf (cl_disk st)" and tmp: "tree_ok (cl_disk st) (staging_dir (extraction_dir target))"
    and fds: "33 \<le> ce_fds env"
    and present: "lookup d' (path_join (extraction_dir target) rel) = Some (RegFile bs)"
      "length (path_join (extraction_dir target) rel) < 1024" "bs \<noteq> []"
    and marker: "(name, ms) \<in> set builtin_markers" "m \<in> set ms"
      "sublist (pm_pattern m) (c_string (text_of (take 65535 bs)))"
  shows "fst (crimp_main env argv0 args st) = 0 \<and>
    sublist (finding_line (marker_finding name (path_join (extraction_dir target) rel) m))
      (cl_stdout (snd (crimp_main env argv0 args st)))"
proof -
  let ?od = "extraction_dir target"
  obtain st' where disk: "cl_disk st' = d'" and main: "crimp_main env argv0 args st = (0, cli_scan_directory env ?od r c st')"
    by (rule image_run [OF args image len run tmp])
  have walked: "path_join ?od rel \<in> set (walk_paths (ce_fds env) (disk_view d') ?od)"
    by (rule extracted_walked [OF run image image_not_staged tmp wf present(1,2) fds])
  have "sublist (finding_line (marker_finding name (path_join ?od rel) m))
      (cl_stdout (cli_scan_directory env ?od r c st'))"
    by (intro cli_scan_prints builtin_reported [OF marker(1,2), of _ _ _ _ bs])
      (use walked present marker(3) in \<open>simp_all add: disk view_read\<close>)
  then show ?thesis by (simp add: main)
qed


text \<open>A JFFS2 image with one file \<open>a\<close> that holds \<open>RC4\<close> and a line feed.\<close>

definition marker_image :: "byte list" where
  "marker_image = concat (map (encode_item False)
     [LogInode (sample_inode_rec 1 0 4 4 JFFS2_COMPR_NONE) (replicate 4 0) (replicate 4 0) (replicate 12 0)
        (replicate 11 0) [82, 67, 52, 10],
      LogDirent (sample_dirent 1 2 ''a'') (replicate 4 0) (replicate 4 0) (replicate 11 0)])"

definition marker_state :: cli_state where
  "marker_state = \<lparr>cl_disk = [(''i'', RegFile marker_image)], cl_stdout = [], cl_stderr = []\<rparr>"

definition marker_env :: cli_env where
  "marker_env = \<lparr>ce_codec = sample_codec, ce_load = (\<lambda>f. None), ce_fds = 33\<rparr>"

lemma marker_state_wf: "disk_wf (cl_disk marker_state)"
  by (simp add: disk_wf_def marker_state_def lookup_def parent_ok_def parent_of_def)

theorem image_markers_printed_witness:
  "sublist (''[HIGH] weak-crypto: Weak RC4 cipher referenced in configuration (i.crimp-extracted/a)'' @ nl)
     (cl_stdout (snd (crimp_main marker_env ''crimp'' [''i''] marker_state)))"
proof -
  let ?m = "marker ''RC4'' (''Weak RC4 cipher referenced in configuration'') CRIMP_SEVERITY_HIGH"
  have args: "cli_items [''i''] = Some ([''i''], None, None)" by simp
  have image: "lookup (cl_disk marker_state) ''i'' = Some (RegFile marker_image)" by (simp add: marker_state_def lookup_def)
  have dir: "extraction_dir ''i'' = ''i.crimp-extracted''" by (simp add: extraction_dir_def)
  obtain ok d' where x: "crimp_fs_extract (ce_codec marker_env) ''i'' ''i.crimp-extracted'' (cl_disk marker_state) = (ok, d')"
    by fastforce
  have "map_prod id (\<lambda>d. lookup d ''i.crimp-extracted/a'')
      (crimp_fs_extract (ce_codec marker_env) ''i'' ''i.crimp-extracted'' (cl_disk marker_state)) =
      (True, Some (RegFile [82, 67, 52, 10]))" by code_simp
  with x have run: "crimp_fs_extract (ce_codec marker_env) ''i'' (extraction_dir ''i'') (cl_disk marker_state) = (True, d')"
    and a: "lookup d' ''i.crimp-extracted/a'' = Some (RegFile [82, 67, 52, 10])" by (simp_all add: dir)
  have tmp: "tree_ok (cl_disk marker_state) (staging_dir (extraction_dir ''i''))"
    by (simp add: tree_ok_def marker_state_def lookup_def staging_dir_def dir below_def)
  have fds: "33 \<le> ce_fds marker_env" by (simp add: marker_env_def)
  have present: "lookup d' (path_join (extraction_dir ''i'') ''a'') = Some (RegFile [82, 67, 52, 10])"
      "length (path_join (extraction_dir ''i'') ''a'') < 1024" "[82, 67, 52, 10 :: byte] \<noteq> []"
    using a by (simp_all add: dir path_join_def)
  have marker: "(''weak-crypto'', weak_crypto_MARKERS) \<in> set builtin_markers"
    by (simp add: builtin_markers_def)
  have "?m \<in> set weak_crypto_MARKERS"
    unfolding weak_crypto_MARKERS_def by (rule list.set_intros(2), rule list.set_intros(2), rule list.set_intros(1))
  note marker = marker this
  have "take 65535 [82, 67, 52, 10 :: byte] = [82, 67, 52, 10]" by (rule take_all) simp
  moreover have "c_string (text_of [82, 67, 52, 10]) = ''RC4'' @ [CHR 0x0A]" by code_simp
  ultimately have found: "sublist (pm_pattern ?m) (c_string (text_of (take 65535 [82, 67, 52, 10])))"
    by (simp add: marker_def)
  have "finding_line (marker_finding ''weak-crypto'' (path_join (extraction_dir ''i'') ''a'') ?m) =
      ''[HIGH] weak-crypto: Weak RC4 cipher referenced in configuration (i.crimp-extracted/a)'' @ nl" by code_simp
  with image_markers_printed [OF args image _ run marker_state_wf tmp fds present marker found, of "''crimp''"]
  show ?thesis by (simp add: dir)
qed

text \<open>
  C3: From the image to the SBOM: when the extraction of the target succeeds and
  \<open>sbom.cdx.json\<close> does not exist yet or is a regular file, the run leaves there a JSON
  document that denotes the CycloneDX object of the inventory of the extracted tree, and
  in that inventory is every component that a marker identifies, with its version, in
  the first 2 MiB of any regular file the image put on the disk at a path shorter than
  1024 bytes. Longer paths can be extracted, but the walk of the scanner cuts them, so
  what their files contain is not claimed to be in the inventory. The run is given one
  target, an image that is a regular file, at least 33 directory streams, a disk on which
  every node is in a directory, and a staging directory that could be cleared.
\<close>

theorem image_components_in_sbom:
  assumes args: "cli_items args = Some ([target], r, c)"
    and image: "lookup (cl_disk st) target = Some (RegFile f)" and len: "length (extraction_dir target) < 1024"
    and run: "crimp_fs_extract (ce_codec env) target (extraction_dir target) (cl_disk st) = (True, d')"
    and wf: "disk_wf (cl_disk st)" and tmp: "tree_ok (cl_disk st) (staging_dir (extraction_dir target))"
    and fds: "33 \<le> ce_fds env"
    and sbom: "lookup (cl_disk st) SBOM_PATH = None \<or> (\<exists>old. lookup (cl_disk st) SBOM_PATH = Some (RegFile old))"
    and present: "lookup d' (path_join (extraction_dir target) rel) = Some (RegFile bs)"
      "length (path_join (extraction_dir target) rel) < 1024"
    and marker: "m \<in> set COMPONENT_MARKERS"
  shows "\<exists>doc cs. lookup (cl_disk (snd (crimp_main env argv0 args st))) SBOM_PATH = Some (RegFile doc) \<and>
    json_document (sbom_json cs) (text_of doc) \<and>
    cs = inventory_of (ce_fds env) (disk_view d') (extraction_dir target) \<and>
    set (marker_component (path_join (extraction_dir target) rel) (text_of (take COMPONENT_SCAN_MAX bs)) m) \<subseteq> set cs"
proof -
  let ?od = "extraction_dir target"
  let ?cs = "inventory_of (ce_fds env) (disk_view d') ?od"
  obtain st' where disk: "cl_disk st' = d'" and main: "crimp_main env argv0 args st = (0, cli_scan_directory env ?od r c st')"
    by (rule image_run [OF args image len run tmp])
  have "lookup d' SBOM_PATH = lookup (cl_disk st) SBOM_PATH"
    using extract_frame [of "cl_disk st" "ce_codec env" target ?od] run sbom_outside [of target]
    by (auto simp: changed_def extraction_area_def split: if_splits)
  then have written: "lookup (cl_disk (snd (crimp_main env argv0 args st))) SBOM_PATH =
      Some (RegFile (map byte_of_chr (crimp_sbom_write_cyclonedx ?cs)))"
    using cli_scan_sbom [of st' env ?od r c] sbom by (simp add: disk main)
  have walked: "path_join ?od rel \<in> set (walk_paths (ce_fds env) (disk_view d') ?od)"
    by (rule extracted_walked [OF run image image_not_staged tmp wf present fds])
  from inventory_reports [OF this view_read [OF present(1)] marker] written cyclonedx_document [of ?cs]
  show ?thesis by (auto simp: text_of_def comp_def)
qed

text \<open>The same image with the text \<open>BusyBox v1.2\<close> in the file.\<close>

definition component_image :: "byte list" where
  "component_image = concat (map (encode_item False)
     [LogInode (sample_inode_rec 1 0 12 12 JFFS2_COMPR_NONE\<lparr>ji_isize := 12\<rparr>) (replicate 4 0) (replicate 4 0)
        (replicate 12 0) (replicate 11 0) [66, 117, 115, 121, 66, 111, 120, 32, 118, 49, 46, 50],
      LogDirent (sample_dirent 1 2 ''a'') (replicate 4 0) (replicate 4 0) (replicate 11 0)])"

definition component_state :: cli_state where
  "component_state = \<lparr>cl_disk = [(''i'', RegFile component_image)], cl_stdout = [], cl_stderr = []\<rparr>"

theorem image_components_in_sbom_witness:
  "\<exists>doc cs. lookup (cl_disk (snd (crimp_main marker_env ''crimp'' [''i''] component_state))) ''sbom.cdx.json'' =
       Some (RegFile doc) \<and>
     json_document (sbom_json cs) (text_of doc) \<and>
     \<lparr>cc_component = ''BusyBox'', cc_version = ''1.2'', cc_path = ''i.crimp-extracted/a''\<rparr> \<in> set cs"
proof -
  let ?bs = "[66, 117, 115, 121, 66, 111, 120, 32, 118, 49, 46, 50 :: byte]"
  have args: "cli_items [''i''] = Some ([''i''], None, None)" by simp
  have image: "lookup (cl_disk component_state) ''i'' = Some (RegFile component_image)"
    by (simp add: component_state_def lookup_def)
  have dir: "extraction_dir ''i'' = ''i.crimp-extracted''" by (simp add: extraction_dir_def)
  obtain ok d' where x: "crimp_fs_extract (ce_codec marker_env) ''i'' ''i.crimp-extracted'' (cl_disk component_state) = (ok, d')"
    by fastforce
  have "map_prod id (\<lambda>d. lookup d ''i.crimp-extracted/a'')
      (crimp_fs_extract (ce_codec marker_env) ''i'' ''i.crimp-extracted'' (cl_disk component_state)) =
      (True, Some (RegFile ?bs))" by code_simp
  with x have run: "crimp_fs_extract (ce_codec marker_env) ''i'' (extraction_dir ''i'') (cl_disk component_state) = (True, d')"
    and present: "lookup d' (path_join (extraction_dir ''i'') ''a'') = Some (RegFile ?bs)"
      "length (path_join (extraction_dir ''i'') ''a'') < 1024" by (simp_all add: dir path_join_def)
  have wf: "disk_wf (cl_disk component_state)"
    by (simp add: disk_wf_def component_state_def lookup_def parent_ok_def parent_of_def)
  have tmp: "tree_ok (cl_disk component_state) (staging_dir (extraction_dir ''i''))"
    by (simp add: tree_ok_def component_state_def lookup_def staging_dir_def dir below_def)
  have sbom: "lookup (cl_disk component_state) SBOM_PATH = None \<or>
      (\<exists>old. lookup (cl_disk component_state) SBOM_PATH = Some (RegFile old))"
    by (simp add: component_state_def lookup_def SBOM_PATH_def)
  have fds: "33 \<le> ce_fds marker_env" by (simp add: marker_env_def)
  have marker: "hd COMPONENT_MARKERS \<in> set COMPONENT_MARKERS" by (simp add: COMPONENT_MARKERS_def)
  have "take COMPONENT_SCAN_MAX ?bs = ?bs" by (rule take_all) (simp add: COMPONENT_SCAN_MAX_def)
  moreover have "marker_component ''i.crimp-extracted/a'' (text_of ?bs) (hd COMPONENT_MARKERS) =
      [\<lparr>cc_component = ''BusyBox'', cc_version = ''1.2'', cc_path = ''i.crimp-extracted/a''\<rparr>]" by code_simp
  ultimately show ?thesis
    using image_components_in_sbom [OF args image _ run wf tmp fds sbom present marker, of "''crimp''"]
    by (auto simp: dir path_join_def SBOM_PATH_def)
qed

end
