(* ===== verification/CraftedImages.thy ===== *)
theory CraftedImages
  imports FsExtract
begin

text \<open>
  What the readers do with images that no tool would write: a JFFS2 log whose directories
  form a cycle or nest too deep, and a SquashFS superblock whose root inode is not a
  directory.
\<close>

section \<open>Directories nested too deep\<close>

text \<open>
  The walk enters \<open>child\<close> from the directory \<open>ino\<close>: some name of the directory leads to
  \<open>child\<close> by every record that is the newest of that name, and every newest metadata
  record of \<open>child\<close> says that it is a directory. Where two records of a name share the
  highest version, \<open>qsort\<close> may leave either of them last; both must agree then.
\<close>

definition newest_meta :: "jffs2_inode_rec list \<Rightarrow> jffs2_inode_rec \<Rightarrow> bool" where
  "newest_meta log r \<longleftrightarrow> list_all (\<lambda>r'. ji_ino r' = ji_ino r \<longrightarrow> ji_version r' \<le> ji_version r) log"

definition jffs2_enters :: "jffs2_dirent_rec list \<Rightarrow> jffs2_inode_rec list \<Rightarrow> u32 \<Rightarrow> u32 \<Rightarrow> bool" where
  "jffs2_enters dirents inodes ino child \<longleftrightarrow>
     child \<noteq> 0 \<and>
     (\<exists>e \<in> set dirents. jd_pino e = ino \<and>
        (\<forall>r \<in> set dirents. jd_pino r = ino \<and> jd_name r = jd_name e \<and> newest dirents r \<longrightarrow> jd_ino r = child)) \<and>
     (\<exists>r \<in> set inodes. ji_ino r = child) \<and>
     (\<forall>r \<in> set inodes. ji_ino r = child \<and> newest_meta inodes r \<longrightarrow> ji_mode r AND JFFS2_S_IFMT = JFFS2_S_IFDIR)"

text \<open>From where a cycle can be reached there are chains of every length.\<close>

lemma cycle_chain:
  assumes "R\<^sup>*\<^sup>* a x" and "R\<^sup>+\<^sup>+ x x"
  shows "\<exists>y. (R ^^ n) a y"
proof -
  have "\<exists>y. (R ^^ n) a y" if "R\<^sup>+\<^sup>+ a x" for a
    using that
  proof (induction n arbitrary: a)
    case (Suc n)
    obtain b where b: "R a b" "R\<^sup>*\<^sup>* b x" using tranclpD [OF Suc.prems] by blast
    then obtain y where "(R ^^ n) b y" using Suc.IH rtranclp_tranclp_tranclp [OF b(2) assms(2)] by blast
    with b(1) show ?case by (blast intro: relpowp_Suc_I2)
  qed simp
  then show ?thesis using rtranclp_tranclp_tranclp [OF assms] by blast
qed

lemma enters_meta:
  assumes "jffs2_enters dirents inodes ino child"
  obtains meta where "find_inode_meta (c_qsort inode_rec_cmp inodes) child = Some meta"
    and "ji_mode meta AND JFFS2_S_IFMT = JFFS2_S_IFDIR"
proof -
  obtain meta where m: "find_inode_meta (c_qsort inode_rec_cmp inodes) child = Some meta"
    using assms find_inode_meta_None [of inodes child] unfolding jffs2_enters_def by (metis not_Some_eq)
  from find_inode_meta_newest [OF m] have "meta \<in> set inodes" "ji_ino meta = child" "newest_meta inodes meta"
    by (auto simp: newest_meta_def list_all_iff)
  then show ?thesis using assms by (intro that [OF m]) (auto simp: jffs2_enters_def)
qed

lemma visit_child_fails:
  assumes "find_inode_meta (jw_inodes ctx) (jd_ino w) = Some meta"
    and "ji_mode meta AND JFFS2_S_IFMT = JFFS2_S_IFDIR" and "\<And>path st. fst (walk (jd_ino w) path st) = None"
  shows "fst (visit_child ctx walk parent w st) = None"
proof -
  have "fst (sbind m (\<lambda>_. walk (jd_ino w) path) s) = None" for m :: "wstate \<Rightarrow> unit option \<times> wstate" and path s
    using assms(3) by (auto simp: sbind_def split: prod.split option.split)
  then show ?thesis
    using assms(1,2) by (auto simp: visit_child_def sbind_def [of "slift _"] slift_def Let_def split: option.split)
qed

lemma jffs2_chain_fails:
  assumes "jw_dirents ctx = c_qsort dirent_cmp log" and "jw_inodes ctx = c_qsort inode_rec_cmp inodes"
  shows "(jffs2_enters log inodes ^^ n) ino x \<Longrightarrow> JFFS2_MAX_DIR_DEPTH < depth + n \<Longrightarrow>
    fst (jffs2_walk_directory ctx ino parent depth st) = None"
proof (induction n arbitrary: ino depth parent st)
  case 0
  then show ?case by (simp add: jffs2_walk_directory.simps)
next
  case (Suc n)
  obtain child where enters: "jffs2_enters log inodes ino child" and chain: "(jffs2_enters log inodes ^^ n) child x"
    using relpowp_Suc_D2 [OF Suc.prems(1)] by blast
  obtain e where e: "e \<in> set log" "jd_pino e = ino"
    and to: "\<And>w. w \<in> set log \<Longrightarrow> jd_pino w = ino \<Longrightarrow> jd_name w = jd_name e \<Longrightarrow> newest log w \<Longrightarrow> jd_ino w = child"
    using enters unfolding jffs2_enters_def by blast
  obtain meta where meta: "find_inode_meta (jw_inodes ctx) child = Some meta" "ji_mode meta AND JFFS2_S_IFMT = JFFS2_S_IFDIR"
    using enters_meta [OF enters] assms(2) by auto
  let ?visit = "visit_child ctx (\<lambda>ino path st'. jffs2_walk_directory ctx ino path (depth + 1) st') parent"
  have "fst (for_each_live_child ctx ino ?visit st) = None"
  proof (rule for_each_live_child_fails [OF assms(1) e])
    fix w st
    assume "w \<in> set log" "jd_pino w = ino" "jd_name w = jd_name e" "newest log w"
    then have w: "jd_ino w = child" by (rule to)
    have "fst (?visit w st) = None"
      using meta w Suc.IH [OF chain] Suc.prems(2) by (intro visit_child_fails) auto
    with w show "jd_ino w \<noteq> 0 \<and> fst (?visit w st) = None" using enters by (simp add: jffs2_enters_def)
  qed
  then show ?case by (simp add: jffs2_walk_directory.simps [of ctx ino])
qed

lemma jffs2_run_fails:
  assumes "fopen_rb path d = Some f" and "jffs2_detect_endianness f = Some be"
    and "scan_log f (jffs2_file_size f) be = Some (ds, rs)"
    and "(\<exists>x. (jffs2_enters (v_items ds) (v_items rs) ^^ 33) JFFS2_ROOT_INO x) \<or>
      (\<exists>x. (jffs2_enters (v_items ds) (v_items rs))\<^sup>*\<^sup>* JFFS2_ROOT_INO x \<and>
           (jffs2_enters (v_items ds) (v_items rs))\<^sup>+\<^sup>+ x x)"
  shows "fst (jffs2_run cx path od d) = False"
proof (cases "scan_and_sort d path")
  case (Some q)
  then have q: "q = (f, be, c_qsort dirent_cmp (v_items ds), c_qsort inode_rec_cmp (v_items rs))"
    using assms(1-3) by (auto simp: scan_and_sort_def Let_def split: if_splits)
  let ?ctx = "\<lparr>jw_codec = cx, jw_f = f, jw_dirents = c_qsort dirent_cmp (v_items ds),
      jw_inodes = c_qsort inode_rec_cmp (v_items rs), jw_output_dir = od\<rparr>"
  obtain x where "(jffs2_enters (v_items ds) (v_items rs) ^^ 33) JFFS2_ROOT_INO x"
    using assms(4) cycle_chain by metis
  then have fails: "\<exists>st'. jffs2_walk_directory ?ctx JFFS2_ROOT_INO [] 0 st = (None, st')" for st
    using jffs2_chain_fails [of ?ctx "v_items ds" "v_items rs" 33 JFFS2_ROOT_INO x 0 "[]" st]
    by (cases "jffs2_walk_directory ?ctx JFFS2_ROOT_INO [] 0 st") (simp add: JFFS2_MAX_DIR_DEPTH_def)
  obtain ok d1 where m: "(case od of None \<Rightarrow> (True, d) | Some od \<Rightarrow> crimp_fs_make_directory od d) = (ok, d1)" by fastforce
  obtain st' where "jffs2_walk_directory ?ctx JFFS2_ROOT_INO [] 0
      \<lparr>ws_entries = crimp_fs_entry_list_init, ws_disk = d1\<rparr> = (None, st')" using fails by blast
  with Some q m show ?thesis by (cases ok) (simp_all add: jffs2_run_def)
qed (simp add: jffs2_run_def)

section \<open>Properties\<close>

text \<open>
  C17: A JFFS2 image is neither listed nor extracted when its log leads the walk from the
  root through 33 directories, each entered from the one before, or to a directory from
  which a cycle of directories can be entered: the walk ends with a failure. A directory
  is entered by a name whose newest records (all of those with the highest version of the
  name, should there be several) lead to it, with newest metadata records that say
  directory; the log may hold any number of other records and of duplicates.
\<close>

theorem jffs2_cycle_fails:
  assumes "fopen_rb path d = Some f" and "jffs2_detect_endianness f = Some be"
    and "scan_log f (jffs2_file_size f) be = Some (ds, rs)"
    and "(\<exists>x. (jffs2_enters (v_items ds) (v_items rs) ^^ 33) JFFS2_ROOT_INO x) \<or>
      (\<exists>x. (jffs2_enters (v_items ds) (v_items rs))\<^sup>*\<^sup>* JFFS2_ROOT_INO x \<and>
           (jffs2_enters (v_items ds) (v_items rs))\<^sup>+\<^sup>+ x x)"
  shows "fst (crimp_jffs2_list cx d path) = False \<and> fst (crimp_jffs2_extract cx path od d) = False"
  using jffs2_run_fails [OF assms]
  by (auto simp: crimp_jffs2_list_def crimp_jffs2_extract_def split: prod.split) (metis fst_conv)

text \<open>The root directory as its own child \<open>d\<close>, by a record that is in the log twice.\<close>

definition cycle_log :: "log_item list" where
  "cycle_log =
     [LogInode \<lparr>ji_ino = 1, ji_version = 1, ji_mode = 0x41ED, ji_isize = 0, ji_frag_offset = 0,
        ji_csize = 0, ji_dsize = 0, ji_compr = 0, ji_file_offset = 0\<rparr> (replicate 4 0) (replicate 4 0)
        (replicate 12 0) (replicate 11 0) [],
      LogDirent (sample_dirent 1 1 ''d'') (replicate 4 0) (replicate 4 0) (replicate 11 0),
      LogDirent (sample_dirent 1 1 ''d'') (replicate 4 0) (replicate 4 0) (replicate 11 0)]"

definition cycle_image :: "byte list" where
  "cycle_image = concat (map (encode_item False) cycle_log)"

theorem jffs2_cycle_fails_witness:
  "fst (crimp_jffs2_list sample_codec [(''i'', RegFile cycle_image)] ''i'') = False"
proof -
  have open_i: "fopen_rb ''i'' [(''i'', RegFile cycle_image)] = Some cycle_image"
    by (rule fopen_rb_plain) (simp add: lookup_def)
  have be: "jffs2_detect_endianness cycle_image = Some False" by code_simp
  have "map_option (\<lambda>(ds, rs). (v_items ds, v_items rs)) (scan_log cycle_image (jffs2_file_size cycle_image) False) =
      Some (log_dirents cycle_log, log_inodes False 0 cycle_log)" by code_simp
  then obtain ds rs where scan: "scan_log cycle_image (jffs2_file_size cycle_image) False = Some (ds, rs)"
    and items: "v_items ds = log_dirents cycle_log" "v_items rs = log_inodes False 0 cycle_log"
    by auto
  have "jffs2_enters (log_dirents cycle_log) (log_inodes False 0 cycle_log) 1 1" by code_simp
  then have "jffs2_enters (v_items ds) (v_items rs) JFFS2_ROOT_INO JFFS2_ROOT_INO"
    by (simp add: items JFFS2_ROOT_INO_def)
  then show ?thesis using jffs2_cycle_fails [OF open_i be scan] by blast
qed

text \<open>
  C37: An image whose root inode is read but is no directory is accepted: listing it
  succeeds with no entries, and extraction succeeds and leaves an empty directory.
\<close>

theorem squashfs_root_not_directory:
  assumes "fopen_rb path d = Some f" and "squashfs_read_superblock f = Some sb"
    and "read_inode cx f sb (drop_bit 16 (sb_root_inode sb)) (ucast (sb_root_inode sb AND 0xFFFF)) False = Some root"
    and "si_type root \<noteq> 1" and "si_type root \<noteq> 8"
    and "validate_block_size (sb_block_size sb)" and "crimp_fs_make_directory od d = (True, d1)"
  shows "crimp_squashfs_list cx d path out = (True, crimp_fs_entry_list_init) \<and>
    crimp_squashfs_extract cx path od d = (True, crimp_fs_entry_list_init, d1)"
proof -
  from assms(3) obtain c t n where fields: "read_type_fields cx f sb c False (squashfs_inode_zero\<lparr>si_type := t, si_inode_number := n\<rparr>) = Some root"
    by (auto simp: read_inode_def Option.bind_eq_Some_conv split: prod.splits)
  from read_type_fields_type [OF this] assms(4,5) have "t \<noteq> 1" "t \<noteq> 8" by simp_all
  with fields have "si_dir_size root = 0"
    by (auto simp: read_type_fields_def Let_def read_basic_file_fields_def read_extended_file_fields_def with_content_def
        read_symlink_fields_def squashfs_inode_zero_def Option.bind_eq_Some_conv split: if_splits prod.splits)
  then have "squashfs_walk_root \<lparr>wc_codec = cx, wc_f = f, wc_sb = sb, wc_output_dir = o'\<rparr> st = (Some (), st)" for o' st
    using assms(3) by (simp add: squashfs_walk_root_def squashfs_walk_directory.simps MAX_DIR_DEPTH_def)
  then show ?thesis
    using assms(1,2,6,7) by (simp add: crimp_squashfs_list_def crimp_squashfs_extract_def)
qed

text \<open>The sample image with the file's inode in the place of the root's.\<close>

definition file_root_super :: squashfs_superblock where
  "file_root_super = squashfs_sample_super\<lparr>sb_root_inode := 32\<rparr>"

definition file_root_image :: "byte list" where
  "file_root_image = squashfs_encode_superblock file_root_super @ drop 96 squashfs_sample_image"

theorem squashfs_root_not_directory_witness:
  "crimp_squashfs_extract sample_codec ''i'' ''o'' [(''i'', RegFile file_root_image)] =
     (True, crimp_fs_entry_list_init, [(''i'', RegFile file_root_image), (''o'', Directory)])"
proof -
  have open_i: "fopen_rb ''i'' [(''i'', RegFile file_root_image)] = Some file_root_image"
    by (rule fopen_rb_plain) (simp add: lookup_def)
  have sb: "squashfs_read_superblock file_root_image = Some file_root_super" by code_simp
  have "map_option si_type (read_inode sample_codec file_root_image file_root_super (drop_bit 16 (sb_root_inode file_root_super))
      (ucast (sb_root_inode file_root_super AND 0xFFFF)) False) = Some 2" by code_simp
  then obtain root where root: "read_inode sample_codec file_root_image file_root_super (drop_bit 16 (sb_root_inode file_root_super))
      (ucast (sb_root_inode file_root_super AND 0xFFFF)) False = Some root" "si_type root = 2" by auto
  have valid: "validate_block_size (sb_block_size file_root_super)" by code_simp
  have mk: "crimp_fs_make_directory ''o'' [(''i'', RegFile file_root_image)] =
      (True, [(''i'', RegFile file_root_image), (''o'', Directory)])"
    by (simp add: crimp_fs_make_directory_def sys_mkdir_def lookup_def parent_ok_def parent_of_def put_def)
  show ?thesis using squashfs_root_not_directory [OF open_i sb root(1) _ _ valid mk] root(2) by simp
qed

end
